(* ===== verification/Prelude.thy ===== *)
theory Prelude
  imports Main "HOL-Library.Word"
begin

text \<open>
  Prelude of the development: the machine types of the C code, byte memory with its loads and
  stores, little- and big-endian conversions, and the wrap-around of \<open>size_t\<close> arithmetic.
  The C program is compiled for a 64-bit little-endian target (iOS, LP64): \<open>size_t\<close> has
  64 bits. Sizes and counts are \<^typ>\<open>nat\<close> with the wrap-around at \<open>2 ^ 64\<close> written out where the code
  adds them without a check; every value that the code masks, shifts or truncates is a word.
\<close>

unbundle bit_operations_syntax

section \<open>Types and hint collections\<close>

type_synonym u8 = "8 word"
type_synonym u16 = "16 word"
type_synonym u32 = "32 word"
type_synonym u64 = "64 word"

type_synonym mem = "nat \<Rightarrow> u8"

named_theorems mem_simps "loads and stores of byte memory"
named_theorems byte_simps "byte lists and the words they encode"

section \<open>Size arithmetic\<close>

definition size_max :: nat where
  "size_max = 2 ^ 64 - 1"

definition size_add :: "nat \<Rightarrow> nat \<Rightarrow> nat" where
  "size_add a b = (a + b) mod 2 ^ 64"

lemma size_add_small [simp]: "a + b < 2 ^ 64 \<Longrightarrow> size_add a b = a + b"
  by (simp add: size_add_def)

lemma size_add_bound: "size_add a b < 2 ^ 64"
  by (simp add: size_add_def)

lemma size_add_overflow_iff:
  assumes "a < 2 ^ 64" "b < 2 ^ 64"
  shows "size_add a b < a \<longleftrightarrow> 2 ^ 64 \<le> a + b"
proof (cases "a + b < 2 ^ 64")
  case True
  then show ?thesis by simp
next
  case False
  then have "(a + b) mod 2 ^ 64 = a + b - 2 ^ 64"
    using assms by (simp add: mod_if)
  with False assms show ?thesis by (simp add: size_add_def)
qed

section \<open>Byte memory\<close>

definition load_bytes :: "mem \<Rightarrow> nat \<Rightarrow> nat \<Rightarrow> u8 list" where
  "load_bytes m a n = map m [a..<a + n]"

definition store_bytes :: "mem \<Rightarrow> nat \<Rightarrow> u8 list \<Rightarrow> mem" where
  "store_bytes m a bs = (\<lambda>x. if a \<le> x \<and> x < a + length bs then bs ! (x - a) else m x)"

definition mem_of :: "u8 list \<Rightarrow> mem" where
  "mem_of bs = (\<lambda>i. if i < length bs then bs ! i else 0)"

lemma length_load_bytes [simp]: "length (load_bytes m a n) = n"
  by (simp add: load_bytes_def)

lemma nth_load_bytes [simp]: "i < n \<Longrightarrow> load_bytes m a n ! i = m (a + i)"
  by (simp add: load_bytes_def)

lemma load_bytes_0 [simp]: "load_bytes m a 0 = []"
  by (simp add: load_bytes_def)

lemma load_bytes_eq_Nil [simp]: "load_bytes m a n = [] \<longleftrightarrow> n = 0"
  by (auto simp: load_bytes_def)

lemma load_bytes_Suc: "load_bytes m a (Suc n) = m a # load_bytes m (Suc a) n"
  by (simp add: load_bytes_def upt_conv_Cons del: upt_Suc)

lemma load_bytes_add: "load_bytes m a (j + k) = load_bytes m a j @ load_bytes m (a + j) k"
  by (rule nth_equalityI) (auto simp: nth_append)

lemma take_load_bytes [simp]: "take k (load_bytes m a n) = load_bytes m a (min k n)"
  by (rule nth_equalityI) auto

lemma drop_load_bytes [simp]: "drop k (load_bytes m a n) = load_bytes m (a + k) (n - k)"
  by (rule nth_equalityI) (auto simp: add.assoc)

lemma load_bytes_mem_of [simp]: "load_bytes (mem_of bs) 0 (length bs) = bs"
  by (rule nth_equalityI) (auto simp: mem_of_def)

lemma load_store_same [mem_simps]: "load_bytes (store_bytes m a bs) a (length bs) = bs"
  by (rule nth_equalityI) (auto simp: store_bytes_def)

lemma load_store_disjoint [mem_simps]:
  "a + length bs \<le> b \<or> b + n \<le> a \<Longrightarrow> load_bytes (store_bytes m a bs) b n = load_bytes m b n"
  by (rule nth_equalityI) (auto simp: store_bytes_def)

lemma store_bytes_outside [mem_simps]:
  "x < a \<or> a + length bs \<le> x \<Longrightarrow> store_bytes m a bs x = m x"
  by (auto simp: store_bytes_def)

lemma store_bytes_Nil [simp]: "store_bytes m a [] = m"
  by (rule ext) (auto simp: store_bytes_def)

lemma store_bytes_append: "store_bytes m a (xs @ ys) = store_bytes (store_bytes m a xs) (a + length xs) ys"
  by (rule ext) (auto simp: store_bytes_def nth_append)

lemma store_bytes_snoc: "store_bytes m a (xs @ [x]) = (store_bytes m a xs)(a + length xs := x)"
  by (rule ext) (auto simp: store_bytes_def nth_append)

lemma store_bytes_over: "length xs \<le> length ys \<Longrightarrow> store_bytes (store_bytes m a xs) a ys = store_bytes m a ys"
  by (rule ext) (auto simp: store_bytes_def)

lemma store_bytes_commute:
  "a + length xs \<le> b \<or> b + length ys \<le> a \<Longrightarrow>
    store_bytes (store_bytes m a xs) b ys = store_bytes (store_bytes m b ys) a xs"
  by (rule ext) (auto simp: store_bytes_def)

section \<open>Little- and big-endian words\<close>

primrec le_bytes :: "nat \<Rightarrow> 'a::len word \<Rightarrow> u8 list" where
  "le_bytes 0 v = []"
| "le_bytes (Suc n) v = ucast v # le_bytes n (drop_bit 8 v)"

primrec le_word :: "u8 list \<Rightarrow> 'a::len word" where
  "le_word [] = 0"
| "le_word (b # bs) = ucast b OR push_bit 8 (le_word bs)"

definition be_bytes :: "nat \<Rightarrow> 'a::len word \<Rightarrow> u8 list" where
  "be_bytes n v = rev (le_bytes n v)"

definition be_word :: "u8 list \<Rightarrow> 'a::len word" where
  "be_word bs = fold (\<lambda>b acc. push_bit 8 acc OR ucast b) bs 0"

lemma le_bytes_unfold:
  "le_bytes 2 v = [ucast v, ucast (drop_bit 8 v)]"
  "le_bytes 4 v = [ucast v, ucast (drop_bit 8 v), ucast (drop_bit 16 v), ucast (drop_bit 24 v)]"
  "le_bytes 8 v = [ucast v, ucast (drop_bit 8 v), ucast (drop_bit 16 v), ucast (drop_bit 24 v),
     ucast (drop_bit 32 v), ucast (drop_bit 40 v), ucast (drop_bit 48 v), ucast (drop_bit 56 v)]"
  by (simp_all add: numeral_eq_Suc)

lemma length_le_bytes [simp]: "length (le_bytes n v) = n"
  by (induction n arbitrary: v) auto

lemma length_be_bytes [simp]: "length (be_bytes n v) = n"
  by (simp add: be_bytes_def)

lemma take_bit_low_byte:
  "take_bit 8 v OR push_bit 8 (take_bit n (drop_bit 8 v)) = take_bit (8 + n) (v::'a::len word)"
  by (rule bit_word_eqI) (auto simp: bit_simps)

lemma ucast_ucast_byte: "(ucast (ucast (v::'a::len word) :: u8) :: 'a word) = take_bit 8 v"
  by (rule bit_word_eqI) (auto simp: bit_simps)

lemma le_word_le_bytes [byte_simps]:
  "le_word (le_bytes n v) = take_bit (8 * n) (v::'a::len word)"
proof (induction n arbitrary: v)
  case 0
  show ?case by simp
next
  case (Suc n)
  have "le_word (le_bytes (Suc n) v)
      = take_bit 8 v OR push_bit 8 (take_bit (8 * n) (drop_bit 8 v))"
    by (simp add: Suc.IH ucast_ucast_byte)
  also have "\<dots> = take_bit (8 * Suc n) v"
    using take_bit_low_byte [of v "8 * n"] by (simp add: algebra_simps)
  finally show ?case .
qed

lemma be_word_rev: "be_word (rev bs) = (le_word bs :: 'a::len word)"
proof (induction bs)
  case Nil
  show ?case by (simp add: be_word_def)
next
  case (Cons b bs)
  then show ?case
    by (simp add: be_word_def or.commute)
qed

lemma be_word_be_bytes [byte_simps]:
  "be_word (be_bytes n v) = take_bit (8 * n) (v::'a::len word)"
  by (simp add: be_bytes_def be_word_rev le_word_le_bytes)

lemma take_bit_length_word [simp]: "LENGTH('a) \<le> n \<Longrightarrow> take_bit n (v::'a::len word) = v"
  by (rule bit_word_eqI) (auto simp: bit_simps)

lemma take_bit_less_self: "unat w < 2 ^ n \<Longrightarrow> take_bit n w = (w :: 'a::len word)"
  by (simp add: word_unat_eq_iff unsigned_take_bit_eq take_bit_nat_eq_self)

lemma unat_u32_less: "unat (w :: u32) < 2 ^ 32"
  using unsigned_less [of w, where 'a = nat] by simp

lemma le_bytes_le_word:
  "length bs = n \<Longrightarrow> 8 * n \<le> LENGTH('a) \<Longrightarrow> le_bytes n (le_word bs :: 'a::len word) = bs"
proof (induction bs arbitrary: n)
  case (Cons b bs)
  then obtain k where n: "n = Suc k" "length bs = k" by auto
  have "le_word bs = take_bit (8 * k) (le_word bs :: 'a word)"
    using Cons.IH [OF n(2)] Cons.prems(2) n by (metis le_word_le_bytes le_add2 le_trans mult_Suc_right)
  moreover have "drop_bit 8 (ucast b OR push_bit 8 (take_bit (8 * k) w)) = take_bit (8 * k) (w :: 'a word)" for w
    using Cons.prems(2) n by (intro bit_word_eqI) (auto simp: bit_simps dest: bit_imp_le_length)
  moreover have "(ucast (ucast b OR push_bit 8 w :: 'a word) :: u8) = b" for w
    using Cons.prems(2) n by (intro bit_word_eqI) (auto simp: bit_simps dest: bit_imp_le_length)
  ultimately show ?case
    using Cons.IH [OF n(2)] Cons.prems(2) n by (metis add_leD2 le_bytes.simps(2) le_word.simps(2) mult_Suc_right)
qed simp

lemma be_bytes_be_word: "length bs = n \<Longrightarrow> 8 * n \<le> LENGTH('a) \<Longrightarrow> be_bytes n (be_word bs :: 'a::len word) = bs"
  using le_bytes_le_word [of "rev bs" n, where 'a = 'a] be_word_rev [of "rev bs", where 'a = 'a]
  by (simp add: be_bytes_def)

lemma drop_bit_eq_0_unat: "drop_bit k (w :: 'a::len word) = 0 \<longleftrightarrow> unat w < 2 ^ k"
  by (metis div_eq_0_iff drop_bit_eq_div power_eq_0_iff unat_drop_bit_eq unat_eq_0 zero_neq_numeral)

section \<open>Bytes with seven value bits\<close>

lemma and_0x7F: "x AND 0x7F = take_bit 7 (x::'a::len word)"
  by (simp add: take_bit_eq_mask mask_eq_exp_minus_1)

lemma bit_0x80: "bit (0x80::'a::len word) n \<longleftrightarrow> n = 7 \<and> 7 < LENGTH('a)"
proof -
  have "(0x80::'a word) = 2 ^ 7" by simp
  then show ?thesis by (simp only: bit_simps) auto
qed

lemma bit_0x80_int: "bit (0x80::int) n \<longleftrightarrow> n = 7"
proof -
  have "(0x80::int) = 2 ^ 7" by simp
  then show ?thesis by (simp only: bit_simps) auto
qed

lemma and_0x80_eq_0_iff: "x AND 0x80 = 0 \<longleftrightarrow> \<not> bit (x::'a::len word) 7"
proof -
  have "(0x80::'a word) = 2 ^ 7" by simp
  then show ?thesis by (simp only: and_exp_eq_0_iff_not_bit)
qed

lemma le_0x7F_take_bit: "(v::u64) \<le> 0x7F \<Longrightarrow> take_bit 7 v = v"
  by (simp add: word_unat_eq_iff unsigned_take_bit_eq take_bit_eq_mod word_le_nat_alt unat_mod)

section \<open>Big-endian numbers\<close>

definition be_nat :: "u8 list \<Rightarrow> nat" where
  "be_nat bs = foldl (\<lambda>n b. n * 256 + unat b) 0 bs"

lemma be_nat_simps [simp]: "be_nat [] = 0" "be_nat (bs @ [b]) = be_nat bs * 256 + unat b"
  by (simp_all add: be_nat_def)

lemma unat_byte: "n < 256 \<Longrightarrow> unat (word_of_nat n :: u8) = n"
  by (simp add: unat_of_nat take_bit_nat_eq_self)

lemma unat_byte_less: "unat (b :: u8) < 256"
  using unsigned_less [of b, where 'a = nat] by simp

lemma foldl_be_nat: "foldl (\<lambda>n b. n * 256 + unat b) a bs = a * 256 ^ length bs + be_nat (bs :: u8 list)"
  by (induction bs rule: rev_induct) (auto simp: algebra_simps)

lemma be_nat_Cons [simp]: "be_nat (b # bs) = unat b * 256 ^ length bs + be_nat bs"
  using foldl_be_nat [of "unat b" bs] by (simp add: be_nat_def)

lemma be_nat_less: "be_nat bs < 256 ^ length bs"
proof (induction bs rule: rev_induct)
  case (snoc b bs)
  then show ?case using unat_byte_less [of b] by simp
qed simp

lemma be_word_snoc: "be_word (bs @ [b]) = push_bit 8 (be_word bs) OR (ucast b :: 'a::len word)"
  by (simp add: be_word_def)

lemma be_word_of_nat: "be_word bs = (word_of_nat (be_nat bs) :: 'a::len word)"
proof (induction bs rule: rev_induct)
  case (snoc b bs)
  have "push_bit 8 (be_word bs) AND (ucast b :: 'a word) = 0"
    by (rule bit_word_eqI) (auto simp: bit_simps dest: bit_imp_le_length)
  then have "be_word (bs @ [b]) = be_word bs * 256 + (ucast b :: 'a word)"
    by (simp add: be_word_snoc disjunctive_add_eq_or [symmetric] push_bit_eq_mult)
  also have "\<dots> = word_of_nat (be_nat (bs @ [b]))"
    using snoc by (simp del: be_nat_Cons)
  finally show ?case .
qed (simp add: be_word_def)

lemma be_nat_append: "be_nat (a @ b) = be_nat a * 256 ^ length b + be_nat b"
  by (induction a) (auto simp: algebra_simps power_add)

lemma be_nat_inj: "length a = length b \<Longrightarrow> be_nat a = be_nat b \<Longrightarrow> a = b"
proof (induction a b rule: rev_induct2)
  case (4 x xs y ys)
  then have "be_nat xs * 256 + unat x = be_nat ys * 256 + unat y" by (simp del: be_nat_Cons)
  then have "unat x = unat y \<and> be_nat xs = be_nat ys"
    using unat_byte_less [of x] unat_byte_less [of y] by (metis div_less div_mult_self4 mod_less mod_mult_self3 add.commute add.right_neutral mult.commute zero_neq_numeral)
  then show ?case using 4 by (simp add: word_unat_eq_iff)
qed simp_all

lemma be_nat_be_bytes: "8 * n \<le> LENGTH('a) \<Longrightarrow> be_nat (be_bytes n (v :: 'a::len word)) = unat v mod 256 ^ n"
proof -
  assume n: "8 * n \<le> LENGTH('a)"
  have e: "(256 :: nat) ^ n = 2 ^ (8 * n)" by (simp add: power_mult)
  have l: "be_nat (be_bytes n v) < 2 ^ (8 * n)" using be_nat_less [of "be_bytes n v"] by (simp add: e)
  then have "be_nat (be_bytes n v) < 2 ^ LENGTH('a)" using n by (meson less_le_trans one_le_numeral power_increasing)
  then have "be_nat (be_bytes n v) = unat (be_word (be_bytes n v) :: 'a word)"
    by (simp add: be_word_of_nat unat_of_nat take_bit_nat_eq_self)
  also have "\<dots> = unat v mod 2 ^ (8 * n)" by (simp add: be_word_be_bytes unsigned_take_bit_eq take_bit_nat_def)
  finally show ?thesis by (simp add: e)
qed

end
