(* ===== verification/Codec.thy ===== *)
theory Codec
  imports Prelude
begin

text \<open>
  The contract between an encoder and a decoder: decoding what was encoded, with anything behind it,
  gives the value and leaves what was behind it. Everything a client needs follows from that law
  alone: no two values share an encoding, no encoding is a prefix of another, and lists of encoded
  values come back element by element.
\<close>

locale wire_codec =
  fixes enc :: "'a \<Rightarrow> u8 list"
    and dec :: "u8 list \<Rightarrow> ('a \<times> u8 list) option"
    and valid :: "'a \<Rightarrow> bool"
  assumes dec_enc: "valid x \<Longrightarrow> dec (enc x @ rest) = Some (x, rest)"
begin

lemma prefix_free:
  assumes "valid x" "valid y" "enc x @ r = enc y @ t"
  shows "x = y \<and> r = t"
proof -
  have "Some (x, r) = Some (y, t)"
    unfolding dec_enc [OF assms(1), symmetric] dec_enc [OF assms(2), symmetric] assms(3) ..
  then show ?thesis by simp
qed

lemma enc_inj: "valid x \<Longrightarrow> valid y \<Longrightarrow> enc x = enc y \<Longrightarrow> x = y"
  using prefix_free [of x y "[]" "[]"] by simp

text \<open>Decoding a given number of values one after the other.\<close>

primrec dec_many :: "nat \<Rightarrow> u8 list \<Rightarrow> ('a list \<times> u8 list) option" where
  "dec_many 0 bs = Some ([], bs)"
| "dec_many (Suc n) bs =
     (case dec bs of None \<Rightarrow> None
      | Some (x, bs') \<Rightarrow> map_option (apfst (Cons x)) (dec_many n bs'))"

lemma dec_many_enc:
  "\<forall>x\<in>set xs. valid x \<Longrightarrow> dec_many (length xs) (concat (map enc xs) @ rest) = Some (xs, rest)"
  by (induction xs) (auto simp: dec_enc)

lemma concat_enc_inj:
  assumes "\<forall>x\<in>set xs. valid x" "\<forall>y\<in>set ys. valid y" "length xs = length ys"
    and "concat (map enc xs) = concat (map enc ys)"
  shows "xs = ys"
  using dec_many_enc [OF assms(1), of "[]"] dec_many_enc [OF assms(2), of "[]"] assms(3,4) by simp

end

text \<open>A codec of values of a fixed width.\<close>

locale fixed_codec = wire_codec +
  fixes width :: nat
  assumes length_enc: "valid x \<Longrightarrow> length (enc x) = width"
begin

lemma length_concat_enc:
  "\<forall>x\<in>set xs. valid x \<Longrightarrow> length (concat (map enc xs)) = width * length xs"
  by (induction xs) (auto simp: length_enc)

lemma drop_enc: "\<forall>x\<in>set xs. valid x \<Longrightarrow> valid y \<Longrightarrow>
    dec (drop (width * length xs) (concat (map enc (xs @ y # ys)) @ rest)) =
      Some (y, concat (map enc ys) @ rest)"
  using length_concat_enc [of xs] by (simp add: dec_enc)

end

end
