(* ===== verification/Pb_Types.thy ===== *)
theory Pb_Types
  imports Prelude
begin

text \<open>
  The data of nanopb (\<open>Pods/nanopb/pb.h\<close>, \<open>pb_decode.h\<close>, \<open>pb_encode.h\<close>), as the project builds it:
  \<open>PB_FIELD_32BIT\<close> is defined, \<open>PB_ENABLE_MALLOC\<close> and \<open>PB_BUFFER_ONLY\<close> are not
  (\<open>Target Support Files/nanopb/nanopb.xcconfig\<close>). Field descriptors are records; a pointer to a
  constant descriptor table is its number in the table environment; the type byte keeps its bit
  layout (\<open>LTYPE\<close> in bits 0-3, \<open>HTYPE\<close> in bits 4-5, \<open>ATYPE\<close> in bits 6-7).
\<close>

section \<open>Field types\<close>

definition PB_LTYPE :: "u8 \<Rightarrow> u8" where
  "PB_LTYPE x = x AND 0x0F"

definition PB_HTYPE :: "u8 \<Rightarrow> u8" where
  "PB_HTYPE x = x AND 0x30"

definition PB_ATYPE :: "u8 \<Rightarrow> u8" where
  "PB_ATYPE x = x AND 0xC0"

abbreviation (input) PB_LTYPE_VARINT :: u8 where "PB_LTYPE_VARINT \<equiv> 0x00"
abbreviation (input) PB_LTYPE_UVARINT :: u8 where "PB_LTYPE_UVARINT \<equiv> 0x01"
abbreviation (input) PB_LTYPE_SVARINT :: u8 where "PB_LTYPE_SVARINT \<equiv> 0x02"
abbreviation (input) PB_LTYPE_FIXED32 :: u8 where "PB_LTYPE_FIXED32 \<equiv> 0x03"
abbreviation (input) PB_LTYPE_FIXED64 :: u8 where "PB_LTYPE_FIXED64 \<equiv> 0x04"
abbreviation (input) PB_LTYPE_LAST_PACKABLE :: u8 where "PB_LTYPE_LAST_PACKABLE \<equiv> 0x04"
abbreviation (input) PB_LTYPE_BYTES :: u8 where "PB_LTYPE_BYTES \<equiv> 0x05"
abbreviation (input) PB_LTYPE_STRING :: u8 where "PB_LTYPE_STRING \<equiv> 0x06"
abbreviation (input) PB_LTYPE_SUBMESSAGE :: u8 where "PB_LTYPE_SUBMESSAGE \<equiv> 0x07"
abbreviation (input) PB_LTYPE_EXTENSION :: u8 where "PB_LTYPE_EXTENSION \<equiv> 0x08"
abbreviation (input) PB_LTYPE_FIXED_LENGTH_BYTES :: u8 where "PB_LTYPE_FIXED_LENGTH_BYTES \<equiv> 0x09"

abbreviation (input) PB_HTYPE_REQUIRED :: u8 where "PB_HTYPE_REQUIRED \<equiv> 0x00"
abbreviation (input) PB_HTYPE_OPTIONAL :: u8 where "PB_HTYPE_OPTIONAL \<equiv> 0x10"
abbreviation (input) PB_HTYPE_REPEATED :: u8 where "PB_HTYPE_REPEATED \<equiv> 0x20"
abbreviation (input) PB_HTYPE_ONEOF :: u8 where "PB_HTYPE_ONEOF \<equiv> 0x30"

abbreviation (input) PB_ATYPE_STATIC :: u8 where "PB_ATYPE_STATIC \<equiv> 0x00"
abbreviation (input) PB_ATYPE_POINTER :: u8 where "PB_ATYPE_POINTER \<equiv> 0x80"
abbreviation (input) PB_ATYPE_CALLBACK :: u8 where "PB_ATYPE_CALLBACK \<equiv> 0x40"

text \<open>\<open>PB_SIZE_MAX\<close> for the 32-bit \<open>pb_size_t\<close>; \<open>sizeof(pb_size_t)\<close> is the offset of
  \<open>bytes\<close> in \<open>pb_bytes_array_t\<close>.\<close>

abbreviation (input) PB_SIZE_MAX :: u32 where "PB_SIZE_MAX \<equiv> - 1"

definition PB_BYTES_ARRAY_T_ALLOCSIZE :: "nat \<Rightarrow> nat" where
  "PB_BYTES_ARRAY_T_ALLOCSIZE n = size_add n 4"

section \<open>Wire types\<close>

text \<open>A wire type is read from three bits of a tag and cast to the enum, so it may be a value that
  the enum does not list.\<close>

type_synonym pb_wire_type_t = u32

abbreviation (input) PB_WT_VARINT :: pb_wire_type_t where "PB_WT_VARINT \<equiv> 0"
abbreviation (input) PB_WT_64BIT :: pb_wire_type_t where "PB_WT_64BIT \<equiv> 1"
abbreviation (input) PB_WT_STRING :: pb_wire_type_t where "PB_WT_STRING \<equiv> 2"
abbreviation (input) PB_WT_32BIT :: pb_wire_type_t where "PB_WT_32BIT \<equiv> 5"

section \<open>Field descriptors\<close>

text \<open>The \<open>ptr\<close> of a descriptor: null, the descriptor table of a submessage, or the bytes of a
  default value.\<close>

datatype pb_ptr = PNull | PFields nat | PDefault "u8 list"

record pb_field =
  pf_tag :: u32
  pf_type :: u8
  pf_data_offset :: u32
  pf_size_offset :: int
  pf_data_size :: nat
  pf_array_size :: nat
  pf_ptr :: pb_ptr

definition PB_LAST_FIELD :: pb_field where
  "PB_LAST_FIELD = \<lparr>pf_tag = 0, pf_type = 0, pf_data_offset = 0, pf_size_offset = 0, pf_data_size = 0,
     pf_array_size = 0, pf_ptr = PNull\<rparr>"

lemma PB_LAST_FIELD_simps [simp]:
  "pf_tag PB_LAST_FIELD = 0" "pf_type PB_LAST_FIELD = 0" "pf_data_size PB_LAST_FIELD = 0"
  "pf_ptr PB_LAST_FIELD = PNull"
  by (simp_all add: PB_LAST_FIELD_def)

section \<open>Streams\<close>

text \<open>
  An input stream reads from a memory buffer (\<open>callback = &buf_read\<close>, \<open>state\<close> the address of the
  next byte) or from a callback of the user over a state of its own: called with a count, it either
  fails or gives the bytes it stored at indexes \<open>0 .. count - 1\<close> of the destination.
\<close>

datatype 's pb_source =
  Buffer mem nat
| Callback "'s \<Rightarrow> nat \<Rightarrow> (nat \<Rightarrow> u8) option \<times> 's" 's

record 's pb_istream =
  i_source :: "'s pb_source"
  bytes_left :: nat
  i_errmsg :: "string option"

definition pb_iset_error :: "string \<Rightarrow> 's pb_istream \<Rightarrow> 's pb_istream" where
  "pb_iset_error msg s =
     s\<lparr>i_errmsg := (case i_errmsg s of None \<Rightarrow> Some msg | Some e \<Rightarrow> Some e)\<rparr>"

text \<open>
  An output stream has a callback, or none when it only counts bytes; \<open>pb_ostream_from_buffer\<close>
  gives it the callback \<open>buf_write\<close>, whose state is the buffer and the position in it.
\<close>

record obuf =
  obytes :: "u8 list"
  opos :: nat

datatype 's pb_sink =
  NoCallback
| BufWrite obuf
| WriteCallback "'s \<Rightarrow> u8 list \<Rightarrow> bool \<times> 's" 's

record 's pb_ostream =
  sink :: "'s pb_sink"
  max_size :: nat
  bytes_written :: nat
  o_errmsg :: "string option"

definition pb_oset_error :: "string \<Rightarrow> 's pb_ostream \<Rightarrow> 's pb_ostream" where
  "pb_oset_error msg s =
     s\<lparr>o_errmsg := (case o_errmsg s of None \<Rightarrow> Some msg | Some e \<Rightarrow> Some e)\<rparr>"

definition PB_OSTREAM_SIZING :: "'s pb_ostream" where
  "PB_OSTREAM_SIZING = \<lparr>sink = NoCallback, max_size = 0, bytes_written = 0, o_errmsg = None\<rparr>"

lemma pb_iset_error_simps [simp]:
  "i_source (pb_iset_error msg s) = i_source s"
  "bytes_left (pb_iset_error msg s) = bytes_left s"
  "i_errmsg (pb_iset_error msg s) \<noteq> None"
  by (auto simp: pb_iset_error_def split: option.splits)

lemma pb_oset_error_simps [simp]:
  "sink (pb_oset_error msg s) = sink s"
  "max_size (pb_oset_error msg s) = max_size s"
  "bytes_written (pb_oset_error msg s) = bytes_written s"
  "o_errmsg (pb_oset_error msg s) \<noteq> None"
  by (auto simp: pb_oset_error_def split: option.splits)

lemma PB_HTYPE_cases:
  obtains "PB_HTYPE t = PB_HTYPE_REQUIRED" | "PB_HTYPE t = PB_HTYPE_OPTIONAL"
  | "PB_HTYPE t = PB_HTYPE_REPEATED" | "PB_HTYPE t = PB_HTYPE_ONEOF"
proof -
  have "PB_HTYPE t = (if bit t 4 then 0x10 else 0) OR (if bit t 5 then 0x20 else (0 :: u8))"
  proof (rule bit_word_eqI)
    fix n assume "n < LENGTH(8)"
    have b: "bit (0x10 :: u8) k \<longleftrightarrow> k = 4" "bit (0x20 :: u8) k \<longleftrightarrow> k = 5"
      "bit (0x30 :: u8) k \<longleftrightarrow> k = 4 \<or> k = 5" if "k < 8" for k
      using that by (auto simp: less_Suc_eq numeral_eq_Suc bit_numeral_rec)
    show "bit (PB_HTYPE t) n = bit ((if bit t 4 then 0x10 else 0) OR (if bit t 5 then 0x20 else (0 :: u8))) n"
      using \<open>n < LENGTH(8)\<close> b by (auto simp: PB_HTYPE_def bit_simps)
  qed
  then show thesis using that by (cases "bit t 4"; cases "bit t 5") auto
qed

lemma PB_LTYPE_cases:
  assumes "l \<le> PB_LTYPE_FIXED_LENGTH_BYTES"
  shows "l = PB_LTYPE_VARINT \<or> l = PB_LTYPE_UVARINT \<or> l = PB_LTYPE_SVARINT \<or> l = PB_LTYPE_FIXED32 \<or>
    l = PB_LTYPE_FIXED64 \<or> l = PB_LTYPE_BYTES \<or> l = PB_LTYPE_STRING \<or> l = PB_LTYPE_SUBMESSAGE \<or>
    l = PB_LTYPE_EXTENSION \<or> l = PB_LTYPE_FIXED_LENGTH_BYTES"
proof -
  have "unat l < 10" using assms by (simp add: word_le_nat_alt)
  then have "unat l \<in> {0, 1, 2, 3, 4, 5, 6, 7, 8, 9}" by auto
  then show ?thesis by (auto simp: word_unat_eq_iff)
qed

end
