(* ===== verification/Varint.thy ===== *)
theory Varint
  imports Prelude
begin

text \<open>
  Base-128 varints as byte lists, shared by the reading and the writing side of nanopb: the value of
  a list of groups of seven bits and what makes a list of bytes one varint.
\<close>

abbreviation continues :: "u8 \<Rightarrow> bool" where
  "continues b \<equiv> b AND 0x80 \<noteq> 0"

text \<open>The value of the groups of seven bits, low group first; \<open>one_varint_bytes\<close>: every byte but the
  last has its top bit set.\<close>

primrec groups_value :: "u8 list \<Rightarrow> 'a::len word" where
  "groups_value [] = 0"
| "groups_value (b # bs) = ucast (b AND 0x7F) OR push_bit 7 (groups_value bs)"

fun one_varint :: "u8 list \<Rightarrow> bool" where
  "one_varint [] = False"
| "one_varint (b # bs) = (if b AND 0x80 \<noteq> 0 then one_varint bs else bs = [])"

lemma one_varint_length: "one_varint bs \<Longrightarrow> 0 < length bs"
  by (cases bs) auto

lemma one_varint_takeWhile:
  "dropWhile continues bs = b # rest \<Longrightarrow> one_varint (takeWhile continues bs @ [b])"
  by (induction bs) (auto split: if_splits)

lemma low_bits_last_byte: "\<not> continues b \<Longrightarrow> b AND 0x7F = b"
proof -
  assume "\<not> continues b"
  have "b = b AND (- 1)" by simp
  also have "(- 1 :: u8) = 0x80 OR 0x7F" by simp
  also have "b AND (0x80 OR 0x7F) = (b AND 0x80) OR (b AND 0x7F)"
    by (rule bit.conj_disj_distrib)
  finally show ?thesis using \<open>\<not> continues b\<close> by simp
qed

lemma groups_value_last:
  "bs \<noteq> [] \<Longrightarrow> groups_value (bs[length bs - 1 := bs ! (length bs - 1) AND 0x7F]) =
     (groups_value bs :: 'a::len word)"
proof (induction bs)
  case (Cons b bs)
  then show ?case by (cases bs) (auto simp: and.assoc)
qed simp

lemma low_mask_not_continues: "(b AND 0x7F :: u8) AND 0x80 = 0"
  by (simp add: and.assoc)

lemma one_varint_last:
  "bs \<noteq> [] \<Longrightarrow> \<forall>b\<in>set bs. b AND 0x80 \<noteq> 0 \<Longrightarrow>
     one_varint (bs[length bs - 1 := bs ! (length bs - 1) AND 0x7F])"
proof (induction bs)
  case (Cons b bs)
  then show ?case by (cases bs) (auto simp: low_mask_not_continues)
qed simp

end
