(* ===== verification/Pb_Encode_Stream.thy ===== *)
theory Pb_Encode_Stream
  imports Pb_Types Varint
begin

text \<open>
  The output side of nanopb (\<open>pb_encode.c\<close>): writing to a stream and the helpers that encode one
  value. A C function that returns \<open>bool\<close> gives the value returned and the new stream.
\<close>

type_synonym 's enc_result = "(bool \<times> 's pb_ostream) option"
type_synonym 's enc_msg = "'s pb_ostream \<Rightarrow> pb_field list \<Rightarrow> nat \<Rightarrow> 's enc_result"

text \<open>\<open>if (!a) return false; b\<close>\<close>

fun enc_then :: "'s enc_result \<Rightarrow> ('s pb_ostream \<Rightarrow> 's enc_result) \<Rightarrow> 's enc_result" where
  "enc_then None k = None"
| "enc_then (Some (False, s)) k = Some (False, s)"
| "enc_then (Some (True, s)) k = k s"

section \<open>pb_ostream_t implementation\<close>

definition buf_write :: "obuf \<Rightarrow> u8 list \<Rightarrow> obuf" where
  "buf_write b bs =
     b\<lparr>obytes := take (opos b) (obytes b) @ bs @ drop (opos b + length bs) (obytes b),
       opos := opos b + length bs\<rparr>"

text \<open>\<open>stream->callback(stream, buf, count)\<close>; a stream without a callback never calls it.\<close>

fun run_sink :: "'s pb_sink \<Rightarrow> u8 list \<Rightarrow> bool \<times> 's pb_sink" where
  "run_sink NoCallback bs = (True, NoCallback)"
| "run_sink (BufWrite b) bs = (True, BufWrite (buf_write b bs))"
| "run_sink (WriteCallback f st) bs = (case f st bs of (ok, st') \<Rightarrow> (ok, WriteCallback f st'))"

fun has_callback :: "'s pb_sink \<Rightarrow> bool" where
  "has_callback NoCallback = False"
| "has_callback (BufWrite b) = True"
| "has_callback (WriteCallback f st) = True"

definition pb_ostream_from_buffer :: "u8 list \<Rightarrow> nat \<Rightarrow> 's pb_ostream" where
  "pb_ostream_from_buffer buf bufsize =
     \<lparr>sink = BufWrite \<lparr>obytes = buf, opos = 0\<rparr>, max_size = bufsize, bytes_written = 0,
      o_errmsg = None\<rparr>"

text \<open>\<open>buf\<close> is the bytes at the pointer passed (\<open>[]\<close> for \<open>NULL\<close>, which is passed only to a
  stream without a callback, or with the count 0).\<close>

definition pb_write :: "'s pb_ostream \<Rightarrow> u8 list \<Rightarrow> nat \<Rightarrow> bool \<times> 's pb_ostream" where
  "pb_write s buf count =
     (if has_callback (sink s) then
        (if max_size s < size_add (bytes_written s) count
         then (False, pb_oset_error ''stream full'' s)
         else case run_sink (sink s) (take count buf) of
             (False, k) \<Rightarrow> (False, pb_oset_error ''io error'' (s\<lparr>sink := k\<rparr>))
           | (True, k) \<Rightarrow>
               (True, s\<lparr>sink := k, bytes_written := size_add (bytes_written s) count\<rparr>))
      else (True, s\<lparr>bytes_written := size_add (bytes_written s) count\<rparr>))"

section \<open>Helper functions\<close>

function varint_fill :: "u64 \<Rightarrow> u8 list" where
  "varint_fill v =
     (if v = 0 then [] else ucast ((v AND 0x7F) OR 0x80) # varint_fill (drop_bit 7 v))"
  by pat_completeness auto
termination
proof (relation "measure unat")
  fix v :: u64 assume "v \<noteq> 0"
  then have "unat v div 128 < unat v" by (simp add: unat_gt_0)
  then show "(drop_bit 7 v, v) \<in> measure unat"
    by (simp add: drop_bit_eq_div unat_div)
qed simp

declare varint_fill.simps [simp del]

text \<open>The bytes that \<open>pb_encode_varint\<close> puts in \<open>buffer\<close>: the top bit of the last one is cleared.\<close>

definition varint_buffer :: "u64 \<Rightarrow> u8 list" where
  "varint_buffer v =
     (let buffer = varint_fill v; i = length buffer
      in buffer[i - 1 := (buffer ! (i - 1)) AND 0x7F])"

definition pb_encode_varint :: "'s pb_ostream \<Rightarrow> u64 \<Rightarrow> bool \<times> 's pb_ostream" where
  "pb_encode_varint s v =
     (if v \<le> 0x7F then pb_write s [ucast v] 1
      else pb_write s (varint_buffer v) (length (varint_buffer v)))"

definition pb_encode_svarint :: "'s pb_ostream \<Rightarrow> 64 word \<Rightarrow> bool \<times> 's pb_ostream" where
  "pb_encode_svarint s v =
     (if v <s 0 then pb_encode_varint s (NOT (push_bit 1 v))
      else pb_encode_varint s (push_bit 1 v))"

definition pb_encode_fixed32 :: "'s pb_ostream \<Rightarrow> u32 \<Rightarrow> bool \<times> 's pb_ostream" where
  "pb_encode_fixed32 s val =
     pb_write s [ucast (val AND 0xFF), ucast (drop_bit 8 val AND 0xFF),
       ucast (drop_bit 16 val AND 0xFF), ucast (drop_bit 24 val AND 0xFF)] 4"

definition pb_encode_fixed64 :: "'s pb_ostream \<Rightarrow> u64 \<Rightarrow> bool \<times> 's pb_ostream" where
  "pb_encode_fixed64 s val =
     pb_write s [ucast (val AND 0xFF), ucast (drop_bit 8 val AND 0xFF),
       ucast (drop_bit 16 val AND 0xFF), ucast (drop_bit 24 val AND 0xFF),
       ucast (drop_bit 32 val AND 0xFF), ucast (drop_bit 40 val AND 0xFF),
       ucast (drop_bit 48 val AND 0xFF), ucast (drop_bit 56 val AND 0xFF)] 8"

definition pb_encode_tag :: "'s pb_ostream \<Rightarrow> pb_wire_type_t \<Rightarrow> u32 \<Rightarrow> bool \<times> 's pb_ostream" where
  "pb_encode_tag s wiretype field_number =
     pb_encode_varint s (push_bit 3 (ucast field_number) OR ucast wiretype)"

text \<open>The wire type of a field's type, \<^term>\<open>None\<close> for the types without one.\<close>

definition wire_type_of :: "u8 \<Rightarrow> pb_wire_type_t option" where
  "wire_type_of t =
     (let l = PB_LTYPE t in
      if l = PB_LTYPE_VARINT \<or> l = PB_LTYPE_UVARINT \<or> l = PB_LTYPE_SVARINT
        then Some PB_WT_VARINT
      else if l = PB_LTYPE_FIXED32 then Some PB_WT_32BIT
      else if l = PB_LTYPE_FIXED64 then Some PB_WT_64BIT
      else if l = PB_LTYPE_BYTES \<or> l = PB_LTYPE_STRING \<or> l = PB_LTYPE_SUBMESSAGE \<or>
              l = PB_LTYPE_FIXED_LENGTH_BYTES
        then Some PB_WT_STRING
      else None)"

definition pb_encode_tag_for_field :: "'s pb_ostream \<Rightarrow> pb_field \<Rightarrow> bool \<times> 's pb_ostream" where
  "pb_encode_tag_for_field s field =
     (case wire_type_of (pf_type field) of
        None \<Rightarrow> (False, pb_oset_error ''invalid field type'' s)
      | Some wiretype \<Rightarrow> pb_encode_tag s wiretype (pf_tag field))"

definition pb_encode_string :: "'s pb_ostream \<Rightarrow> u8 list \<Rightarrow> nat \<Rightarrow> bool \<times> 's pb_ostream" where
  "pb_encode_string s buffer sz =
     (case pb_encode_varint s (of_nat sz) of
        (False, s') \<Rightarrow> (False, s')
      | (True, s') \<Rightarrow> pb_write s' buffer sz)"

section \<open>The bytes of a varint\<close>

lemma low_group_or_rest: "(v AND 0x7F) OR push_bit 7 (drop_bit 7 v) = (v :: u64)"
proof (rule bit_word_eqI)
  fix n assume "n < LENGTH(64)"
  then show "bit ((v AND 0x7F) OR push_bit 7 (drop_bit 7 v)) n = bit v n"
    by (cases "n < 7") (simp_all add: and_0x7F bit_simps)
qed

lemma group_byte:
  "(ucast (ucast ((v AND 0x7F) OR 0x80) AND 0x7F :: u8) :: u64) = v AND 0x7F"
  by (rule bit_word_eqI) (auto simp: and_0x7F bit_0x80_int bit_simps)

lemma group_byte_continues: "(ucast ((v AND 0x7F) OR 0x80 :: u64) :: u8) AND 0x80 \<noteq> 0"
  by (simp add: and_0x80_eq_0_iff bit_0x80_int bit_simps)

lemma groups_value_fill: "groups_value (varint_fill v) = v"
proof (induction v rule: varint_fill.induct)
  case (1 v)
  then show ?case
    by (subst varint_fill.simps) (simp add: group_byte low_group_or_rest)
qed

lemma fill_continues: "b \<in> set (varint_fill v) \<Longrightarrow> b AND 0x80 \<noteq> 0"
proof (induction v rule: varint_fill.induct)
  case (1 v)
  then show ?case
    by (subst (asm) (2) varint_fill.simps) (auto simp: group_byte_continues split: if_splits)
qed

lemma fill_length: "drop_bit (7 * n) v = 0 \<Longrightarrow> length (varint_fill v) \<le> n"
proof (induction v arbitrary: n rule: varint_fill.induct)
  case (1 v)
  show ?case
  proof (cases "v = 0")
    case True
    then show ?thesis by (subst varint_fill.simps) simp
  next
    case False
    with "1.prems" obtain k where n: "n = Suc k" by (cases n) auto
    have "drop_bit (7 * k) (drop_bit 7 v) = 0"
      using "1.prems" n by (simp add: add.commute)
    from "1.IH" [OF False this] False n show ?thesis
      by (subst varint_fill.simps) simp
  qed
qed

lemma fill_nonempty: "v \<noteq> 0 \<Longrightarrow> varint_fill v \<noteq> []"
  by (subst varint_fill.simps) simp

text \<open>The bytes of a varint, whichever branch \<open>pb_encode_varint\<close> takes.\<close>

definition varint_bytes :: "u64 \<Rightarrow> u8 list" where
  "varint_bytes v = (if v \<le> 0x7F then [ucast v] else varint_buffer v)"

lemma small_varint:
  assumes "(v :: u64) \<le> 0x7F"
  shows "(ucast v :: u8) AND 0x80 = 0" "ucast ((ucast v :: u8) AND 0x7F) = v"
proof -
  from assms have v: "take_bit 7 v = v" by (rule le_0x7F_take_bit)
  have "\<not> bit (take_bit 7 v) 7" by (simp add: bit_simps)
  then have "\<not> bit v 7" unfolding v .
  then show "(ucast v :: u8) AND 0x80 = 0" by (simp add: and_0x80_eq_0_iff bit_simps)
  have "ucast ((ucast v :: u8) AND 0x7F) = take_bit 7 v"
    by (rule bit_word_eqI) (auto simp: and_0x7F bit_simps)
  then show "ucast ((ucast v :: u8) AND 0x7F) = v" by (simp only: v)
qed

lemma one_varint_bytes: "one_varint (varint_bytes v)"
proof (cases "v \<le> 0x7F")
  case False
  then have "v \<noteq> 0" by auto
  from one_varint_last [OF fill_nonempty [OF this]] fill_continues False show ?thesis
    by (simp add: varint_bytes_def varint_buffer_def Let_def)
qed (simp add: varint_bytes_def small_varint)

lemma groups_value_varint_bytes: "groups_value (varint_bytes v) = v"
proof (cases "v \<le> 0x7F")
  case False
  then have "v \<noteq> 0" by auto
  from groups_value_last [OF fill_nonempty [OF this], where 'a = 64] False show ?thesis
    by (simp add: varint_bytes_def varint_buffer_def Let_def groups_value_fill)
qed (simp add: varint_bytes_def small_varint)

lemma length_varint_bytes: "drop_bit (7 * n) v = 0 \<Longrightarrow> 0 < n \<Longrightarrow> length (varint_bytes v) \<le> n"
  by (auto simp: varint_bytes_def varint_buffer_def Let_def fill_length)

lemma length_varint_bytes_10: "length (varint_bytes v) \<le> 10"
  by (rule length_varint_bytes) (auto intro!: bit_word_eqI simp: bit_simps)

lemma varint_bytes_nonempty [simp]: "varint_bytes v \<noteq> []"
  using one_varint_bytes [of v] by (cases "varint_bytes v") auto

section \<open>Writing to streams without a user callback\<close>

text \<open>
  \<open>put\<close> is the effect of writing some bytes, \<open>fits\<close> says that the stream has room for them;
  \<open>encodes e bs\<close> says of an encoder that it writes exactly \<open>bs\<close> on every stream that has the room
  and returns \<open>false\<close> on every other.
\<close>

fun plain_sink :: "'s pb_sink \<Rightarrow> bool" where
  "plain_sink NoCallback = True"
| "plain_sink (BufWrite b) = (opos b \<le> length (obytes b))"
| "plain_sink (WriteCallback f st) = False"

definition put :: "'s pb_ostream \<Rightarrow> u8 list \<Rightarrow> 's pb_ostream" where
  "put s bs = s\<lparr>sink := snd (run_sink (sink s) bs), bytes_written := bytes_written s + length bs\<rparr>"

definition fits :: "'s pb_ostream \<Rightarrow> nat \<Rightarrow> bool" where
  "fits s n \<longleftrightarrow> (has_callback (sink s) \<longrightarrow> bytes_written s + n \<le> max_size s)"

definition plain :: "'s pb_ostream \<Rightarrow> bool" where
  "plain s \<longleftrightarrow> plain_sink (sink s) \<and> fits s 0 \<and> o_errmsg s = None"

definition encodes :: "('s pb_ostream \<Rightarrow> (bool \<times> 's pb_ostream) option) \<Rightarrow> u8 list \<Rightarrow> bool" where
  "encodes e bs \<longleftrightarrow>
     (\<forall>s. plain s \<longrightarrow> bytes_written s + length bs < 2 ^ 64 \<longrightarrow>
        (if fits s (length bs) then e s = Some (True, put s bs) else \<exists>s'. e s = Some (False, s')))"

lemma encodesI:
  assumes "\<And>s. plain s \<Longrightarrow> bytes_written s + length bs < 2 ^ 64 \<Longrightarrow> fits s (length bs) \<Longrightarrow>
      e s = Some (True, put s bs)"
    and "\<And>s. plain s \<Longrightarrow> bytes_written s + length bs < 2 ^ 64 \<Longrightarrow> \<not> fits s (length bs) \<Longrightarrow>
      \<exists>s'. e s = Some (False, s')"
  shows "encodes e bs"
  using assms by (simp add: encodes_def)

lemma encodes_True:
  "encodes e bs \<Longrightarrow> plain s \<Longrightarrow> bytes_written s + length bs < 2 ^ 64 \<Longrightarrow> fits s (length bs) \<Longrightarrow>
     e s = Some (True, put s bs)"
  by (simp add: encodes_def)

lemma encodes_False:
  "encodes e bs \<Longrightarrow> plain s \<Longrightarrow> bytes_written s + length bs < 2 ^ 64 \<Longrightarrow> \<not> fits s (length bs) \<Longrightarrow>
     \<exists>s'. e s = Some (False, s')"
  by (simp add: encodes_def)

lemma put_simps [simp]:
  "max_size (put s bs) = max_size s"
  "bytes_written (put s bs) = bytes_written s + length bs"
  "o_errmsg (put s bs) = o_errmsg s"
  "has_callback (sink (put s bs)) = has_callback (sink s)"
  by (cases "sink s"; auto simp: put_def split: prod.splits)+

lemma plain_put [simp]: "plain s \<Longrightarrow> fits s (length bs) \<Longrightarrow> plain (put s bs)"
  by (cases "sink s") (auto simp: put_def buf_write_def plain_def fits_def)

lemma buf_write_append:
  "opos b \<le> length (obytes b) \<Longrightarrow> buf_write (buf_write b xs) ys = buf_write b (xs @ ys)"
  by (simp add: buf_write_def add.commute add.left_commute)

lemma put_put [simp]: "plain s \<Longrightarrow> put (put s xs) ys = put s (xs @ ys)"
  by (cases "sink s") (auto simp: put_def buf_write_append plain_def)

lemma put_Nil [simp]: "plain s \<Longrightarrow> put s [] = s"
  by (cases "sink s") (auto simp: put_def buf_write_def plain_def)

lemma fits_add: "fits s (j + k) \<longleftrightarrow> fits s j \<and> fits (put s bs) k" if "length bs = j"
  using that by (auto simp: fits_def)

lemma pb_write_plain:
  assumes "plain s" "bytes_written s + length bs < 2 ^ 64"
  shows "pb_write s bs (length bs) =
    (if fits s (length bs) then (True, put s bs) else (False, pb_oset_error ''stream full'' s))"
  using assms by (cases "sink s") (auto simp: pb_write_def fits_def put_def plain_def)

lemma encodes_write: "encodes (\<lambda>s. Some (pb_write s bs (length bs))) bs"
  by (rule encodesI) (auto simp: pb_write_plain)

lemma encodes_Nil: "encodes (\<lambda>s. Some (True, s)) []"
  by (rule encodesI) (auto simp: plain_def)

lemma encodes_then:
  assumes "encodes e1 xs" "encodes e2 ys"
  shows "encodes (\<lambda>s. enc_then (e1 s) e2) (xs @ ys)"
proof (rule encodesI)
  fix s :: "'a pb_ostream"
  assume s: "plain s" "bytes_written s + length (xs @ ys) < 2 ^ 64" "fits s (length (xs @ ys))"
  then have x: "fits s (length xs)" and y: "fits (put s xs) (length ys)"
    using fits_add [OF refl, of s xs] by auto
  have "e1 s = Some (True, put s xs)"
    using encodes_True [OF assms(1) s(1) _ x] s(2) by simp
  moreover have "e2 (put s xs) = Some (True, put s (xs @ ys))"
    using encodes_True [OF assms(2) _ _ y] s x by simp
  ultimately show "enc_then (e1 s) e2 = Some (True, put s (xs @ ys))" by simp
next
  fix s :: "'a pb_ostream"
  assume s: "plain s" "bytes_written s + length (xs @ ys) < 2 ^ 64" "\<not> fits s (length (xs @ ys))"
  show "\<exists>s'. enc_then (e1 s) e2 = Some (False, s')"
  proof (cases "fits s (length xs)")
    case True
    then have "\<not> fits (put s xs) (length ys)"
      using s(3) fits_add [OF refl, of s xs] by auto
    with encodes_True [OF assms(1) s(1) _ True] encodes_False [OF assms(2), of "put s xs"] s True
    show ?thesis by simp
  next
    case False
    with encodes_False [OF assms(1) s(1)] s(2) obtain s' where "e1 s = Some (False, s')" by auto
    then show ?thesis by simp
  qed
qed

lemma pb_encode_varint_write:
  "pb_encode_varint s v = pb_write s (varint_bytes v) (length (varint_bytes v))"
  by (simp add: pb_encode_varint_def varint_bytes_def)

definition svarint_bytes :: "64 word \<Rightarrow> u8 list" where
  "svarint_bytes v = varint_bytes (if v <s 0 then NOT (push_bit 1 v) else push_bit 1 v)"

lemma pb_encode_svarint_write:
  "pb_encode_svarint s v = pb_write s (svarint_bytes v) (length (svarint_bytes v))"
  by (simp add: pb_encode_svarint_def svarint_bytes_def pb_encode_varint_write)

lemma ucast_low_byte: "(ucast (x AND 0xFF :: 'a::len word) :: u8) = ucast x"
proof -
  have "x AND 0xFF = take_bit 8 x" by (simp add: take_bit_eq_mask mask_eq_exp_minus_1)
  then show ?thesis by (simp only:) (rule bit_word_eqI, auto simp: bit_simps)
qed

lemma pb_encode_fixed32_write: "pb_encode_fixed32 s v = pb_write s (le_bytes 4 v) (length (le_bytes 4 v))"
  by (simp add: pb_encode_fixed32_def ucast_low_byte numeral_eq_Suc)

lemma pb_encode_fixed64_write: "pb_encode_fixed64 s v = pb_write s (le_bytes 8 v) (length (le_bytes 8 v))"
  by (simp add: pb_encode_fixed64_def ucast_low_byte numeral_eq_Suc)

lemma pb_encode_string_then:
  "Some (pb_encode_string s bs n) =
     enc_then (Some (pb_encode_varint s (of_nat n))) (\<lambda>s. Some (pb_write s bs n))"
  by (auto simp: pb_encode_string_def split: prod.split bool.split)

definition delimited :: "u8 list \<Rightarrow> u8 list" where
  "delimited bs = varint_bytes (of_nat (length bs)) @ bs"

lemma encodes_string: "encodes (\<lambda>s. Some (pb_encode_string s bs (length bs))) (delimited bs)"
  unfolding pb_encode_string_then pb_encode_varint_write delimited_def
  by (rule encodes_then [OF encodes_write encodes_write])

definition tag_bytes :: "pb_wire_type_t \<Rightarrow> u32 \<Rightarrow> u8 list" where
  "tag_bytes wt n = varint_bytes (push_bit 3 (ucast n) OR ucast wt)"

lemma encodes_tag: "encodes (\<lambda>s. Some (pb_encode_tag s wt n)) (tag_bytes wt n)"
  unfolding pb_encode_tag_def pb_encode_varint_write tag_bytes_def by (rule encodes_write)

lemma encodes_varint: "encodes (\<lambda>s. Some (pb_encode_varint s v)) (varint_bytes v)"
  unfolding pb_encode_varint_write by (rule encodes_write)

lemma encodes_svarint: "encodes (\<lambda>s. Some (pb_encode_svarint s v)) (svarint_bytes v)"
  unfolding pb_encode_svarint_write by (rule encodes_write)

lemma encodes_fixed32: "encodes (\<lambda>s. Some (pb_encode_fixed32 s v)) (le_bytes 4 v)"
  unfolding pb_encode_fixed32_write by (rule encodes_write)

lemma encodes_fixed64: "encodes (\<lambda>s. Some (pb_encode_fixed64 s v)) (le_bytes 8 v)"
  unfolding pb_encode_fixed64_write by (rule encodes_write)

lemmas encodes_intros = encodes_write encodes_Nil encodes_then encodes_string encodes_tag
  encodes_varint encodes_svarint encodes_fixed32 encodes_fixed64

end
