(* ===== verification/Pb_Decode_Stream.thy ===== *)
theory Pb_Decode_Stream
  imports Pb_Types Varint
begin

text \<open>
  The input side of nanopb (\<open>pb_decode.c\<close>): reading from a stream, varints, tags, skipping,
  substreams. A C function that returns \<open>bool\<close> and stores through an output pointer is a
  function to an optional value and the new stream; \<^term>\<open>None\<close> is a return of \<open>false\<close>.
\<close>

section \<open>pb_istream_t implementation\<close>

definition buf_read :: "mem \<Rightarrow> nat \<Rightarrow> nat \<Rightarrow> u8 list \<times> nat" where
  "buf_read m a count = (load_bytes m a count, a + count)"

text \<open>\<open>stream->callback(stream, buf, count)\<close>.\<close>

fun run_source :: "'s pb_source \<Rightarrow> nat \<Rightarrow> u8 list option \<times> 's pb_source" where
  "run_source (Buffer m a) count =
     (case buf_read m a count of (bs, a') \<Rightarrow> (Some bs, Buffer m a'))"
| "run_source (Callback f st) count =
     (case f st count of
        (None, st') \<Rightarrow> (None, Callback f st')
      | (Some g, st') \<Rightarrow> (Some (map g [0..<count]), Callback f st'))"

fun is_buffer :: "'s pb_source \<Rightarrow> bool" where
  "is_buffer (Buffer m a) = True"
| "is_buffer (Callback f st) = False"

definition pb_read_checked :: "'s pb_istream \<Rightarrow> nat \<Rightarrow> u8 list option \<times> 's pb_istream" where
  "pb_read_checked s count =
     (if bytes_left s < count then (None, pb_iset_error ''end-of-stream'' s)
      else case run_source (i_source s) count of
          (None, src) \<Rightarrow> (None, pb_iset_error ''io error'' (s\<lparr>i_source := src\<rparr>))
        | (Some bs, src) \<Rightarrow>
            (Some bs, s\<lparr>i_source := src, bytes_left := bytes_left s - count\<rparr>))"

text \<open>Skipping on a callback stream reads chunks of 16 bytes into a scratch array.\<close>

fun pb_read_skip :: "'s pb_istream \<Rightarrow> nat \<Rightarrow> u8 list option \<times> 's pb_istream" where
  "pb_read_skip s count =
     (if 16 < count then
        (case pb_read_checked s 16 of
           (None, s') \<Rightarrow> (None, s')
         | (Some _, s') \<Rightarrow> pb_read_skip s' (count - 16))
      else pb_read_checked s count)"

declare pb_read_skip.simps [simp del]

text \<open>\<open>null\<close> says that \<open>buf\<close> is \<open>NULL\<close>: the bytes of the result are then not stored.\<close>

definition pb_read :: "'s pb_istream \<Rightarrow> bool \<Rightarrow> nat \<Rightarrow> u8 list option \<times> 's pb_istream" where
  "pb_read s null count =
     (if null \<and> \<not> is_buffer (i_source s) then pb_read_skip s count
      else pb_read_checked s count)"

definition pb_readbyte :: "'s pb_istream \<Rightarrow> u8 option \<times> 's pb_istream" where
  "pb_readbyte s =
     (if bytes_left s = 0 then (None, pb_iset_error ''end-of-stream'' s)
      else case run_source (i_source s) 1 of
          (None, src) \<Rightarrow> (None, pb_iset_error ''io error'' (s\<lparr>i_source := src\<rparr>))
        | (Some bs, src) \<Rightarrow>
            (Some (hd bs), s\<lparr>i_source := src, bytes_left := bytes_left s - 1\<rparr>))"

definition pb_istream_from_buffer :: "mem \<Rightarrow> nat \<Rightarrow> nat \<Rightarrow> 's pb_istream" where
  "pb_istream_from_buffer m buf bufsize =
     \<lparr>i_source = Buffer m buf, bytes_left = bufsize, i_errmsg = None\<rparr>"

lemma length_run_source: "run_source src n = (Some bs, src') \<Longrightarrow> length bs = n"
  by (cases src) (auto simp: buf_read_def split: prod.splits option.splits)

lemma run_source_is_buffer [simp]: "is_buffer (snd (run_source src n)) = is_buffer src"
  by (cases src) (auto simp: buf_read_def split: prod.splits option.splits)

lemma pb_read_checked_decreases:
  "pb_read_checked s n = (Some bs, s') \<Longrightarrow>
     n \<le> bytes_left s \<and> bytes_left s' = bytes_left s - n \<and> length bs = n"
  by (auto simp: pb_read_checked_def dest: length_run_source split: if_splits prod.splits option.splits)

lemma pb_read_checked_left_le: "bytes_left (snd (pb_read_checked s n)) \<le> bytes_left s"
  by (auto simp: pb_read_checked_def split: prod.splits option.splits)

lemma pb_read_skip_decreases:
  "pb_read_skip s n = (Some bs, s') \<Longrightarrow> n \<le> bytes_left s \<and> bytes_left s' = bytes_left s - n"
proof (induction s n rule: pb_read_skip.induct)
  case (1 s count)
  show ?case
  proof (cases "16 < count")
    case True
    with "1.prems" obtain b t where rd: "pb_read_checked s 16 = (Some b, t)"
      and rest: "pb_read_skip t (count - 16) = (Some bs, s')"
      by (subst (asm) pb_read_skip.simps) (auto split: prod.splits option.splits)
    from "1.IH" [OF True rd [symmetric]] rest pb_read_checked_decreases [OF rd] True
    show ?thesis by auto
  next
    case False
    with "1.prems" show ?thesis
      by (subst (asm) pb_read_skip.simps) (auto dest: pb_read_checked_decreases)
  qed
qed

lemma pb_read_decreases:
  "pb_read s null n = (Some bs, s') \<Longrightarrow> n \<le> bytes_left s \<and> bytes_left s' = bytes_left s - n"
  by (auto simp: pb_read_def dest: pb_read_skip_decreases pb_read_checked_decreases split: if_splits)

lemma pb_readbyte_decreases:
  "pb_readbyte s = (Some b, s') \<Longrightarrow> 0 < bytes_left s \<and> bytes_left s' = bytes_left s - 1"
  by (auto simp: pb_readbyte_def split: if_splits prod.splits option.splits)

section \<open>Varints\<close>

function varint32_loop :: "nat \<Rightarrow> u32 \<Rightarrow> 's pb_istream \<Rightarrow> u32 option \<times> 's pb_istream" where
  "varint32_loop bitpos result s =
     (if 32 \<le> bitpos then (None, pb_iset_error ''varint overflow'' s)
      else case pb_readbyte s of
          (None, s') \<Rightarrow> (None, s')
        | (Some byte, s') \<Rightarrow>
            (let result' = result OR push_bit bitpos (ucast (byte AND 0x7F))
             in if byte AND 0x80 \<noteq> 0 then varint32_loop (bitpos + 7) result' s'
                else (Some result', s')))"
  by pat_completeness auto
termination
  by (relation "measure (\<lambda>(bitpos, result, s). 39 - bitpos)") auto

definition pb_decode_varint32 :: "'s pb_istream \<Rightarrow> u32 option \<times> 's pb_istream" where
  "pb_decode_varint32 s =
     (case pb_readbyte s of
        (None, s') \<Rightarrow> (None, s')
      | (Some byte, s') \<Rightarrow>
          if byte AND 0x80 = 0 then (Some (ucast byte), s')
          else varint32_loop 7 (ucast (byte AND 0x7F)) s')"

function varint_loop :: "nat \<Rightarrow> u64 \<Rightarrow> 's pb_istream \<Rightarrow> u64 option \<times> 's pb_istream" where
  "varint_loop bitpos result s =
     (if 64 \<le> bitpos then (None, pb_iset_error ''varint overflow'' s)
      else case pb_readbyte s of
          (None, s') \<Rightarrow> (None, s')
        | (Some byte, s') \<Rightarrow>
            (let result' = result OR push_bit bitpos (ucast (byte AND 0x7F))
             in if byte AND 0x80 \<noteq> 0 then varint_loop (bitpos + 7) result' s'
                else (Some result', s')))"
  by pat_completeness auto
termination
  by (relation "measure (\<lambda>(bitpos, result, s). 71 - bitpos)") auto

definition pb_decode_varint :: "'s pb_istream \<Rightarrow> u64 option \<times> 's pb_istream" where
  "pb_decode_varint s = varint_loop 0 0 s"

declare varint32_loop.simps [simp del] varint_loop.simps [simp del]

function pb_skip_varint :: "'s pb_istream \<Rightarrow> unit option \<times> 's pb_istream" where
  "pb_skip_varint s =
     (case pb_read s False 1 of
        (None, s') \<Rightarrow> (None, s')
      | (Some bs, s') \<Rightarrow> if hd bs AND 0x80 \<noteq> 0 then pb_skip_varint s' else (Some (), s'))"
  by pat_completeness auto
termination
  by (relation "measure bytes_left") (auto dest!: pb_read_decreases [OF sym])

declare pb_skip_varint.simps [simp del]

definition pb_skip_string :: "'s pb_istream \<Rightarrow> unit option \<times> 's pb_istream" where
  "pb_skip_string s =
     (case pb_decode_varint32 s of
        (None, s') \<Rightarrow> (None, s')
      | (Some len, s') \<Rightarrow> (case pb_read s' True (unat len) of
            (None, s'') \<Rightarrow> (None, s'')
          | (Some _, s'') \<Rightarrow> (Some (), s'')))"

section \<open>Tags and skipped fields\<close>

text \<open>The result of \<open>pb_decode_tag\<close>: the value returned, \<open>wire_type\<close>, \<open>tag\<close> and \<open>eof\<close>.\<close>

definition pb_decode_tag ::
    "'s pb_istream \<Rightarrow> (bool \<times> pb_wire_type_t \<times> u32 \<times> bool) \<times> 's pb_istream" where
  "pb_decode_tag s =
     (case pb_decode_varint32 s of
        (None, s') \<Rightarrow> ((False, 0, 0, bytes_left s' = 0), s')
      | (Some temp, s') \<Rightarrow>
          if temp = 0 then ((False, 0, 0, True), s')
          else ((True, temp AND 7, drop_bit 3 temp, False), s'))"

definition pb_skip_field :: "'s pb_istream \<Rightarrow> pb_wire_type_t \<Rightarrow> unit option \<times> 's pb_istream" where
  "pb_skip_field s wire_type =
     (if wire_type = PB_WT_VARINT then pb_skip_varint s
      else if wire_type = PB_WT_64BIT then
        (case pb_read s True 8 of (r, s') \<Rightarrow> (map_option (\<lambda>_. ()) r, s'))
      else if wire_type = PB_WT_STRING then pb_skip_string s
      else if wire_type = PB_WT_32BIT then
        (case pb_read s True 4 of (r, s') \<Rightarrow> (map_option (\<lambda>_. ()) r, s'))
      else (None, pb_iset_error ''invalid wire_type'' s))"

text \<open>\<open>read_raw_value\<close>: \<open>acc\<close> holds the bytes stored through \<open>buf\<close> so far, whose number is
  \<open>*size\<close>. The result is the bytes stored.\<close>

function raw_varint_loop ::
    "nat \<Rightarrow> u8 list \<Rightarrow> 's pb_istream \<Rightarrow> u8 list option \<times> 's pb_istream" where
  "raw_varint_loop max_len acc s =
     (if max_len < Suc (length acc) then (None, s)
      else case pb_read s False 1 of
          (None, s') \<Rightarrow> (None, s')
        | (Some bs, s') \<Rightarrow>
            if hd bs AND 0x80 \<noteq> 0 then raw_varint_loop max_len (acc @ [hd bs]) s'
            else (Some (acc @ [hd bs]), s'))"
  by pat_completeness auto
termination
  by (relation "measure (\<lambda>(max_len, acc, s). max_len - length acc)") auto

declare raw_varint_loop.simps [simp del]

definition read_raw_value ::
    "'s pb_istream \<Rightarrow> pb_wire_type_t \<Rightarrow> nat \<Rightarrow> u8 list option \<times> 's pb_istream" where
  "read_raw_value s wire_type max_len =
     (if wire_type = PB_WT_VARINT then raw_varint_loop max_len [] s
      else if wire_type = PB_WT_64BIT then pb_read s False 8
      else if wire_type = PB_WT_32BIT then pb_read s False 4
      else (None, pb_iset_error ''invalid wire_type'' s))"

section \<open>Substreams\<close>

text \<open>The result is the substream and the parent stream.\<close>

definition pb_make_string_substream ::
    "'s pb_istream \<Rightarrow> 's pb_istream option \<times> 's pb_istream" where
  "pb_make_string_substream s =
     (case pb_decode_varint32 s of
        (None, s') \<Rightarrow> (None, s')
      | (Some sz, s') \<Rightarrow>
          if bytes_left s' < unat sz then (None, pb_iset_error ''parent stream too short'' s')
          else (Some (s'\<lparr>bytes_left := unat sz\<rparr>),
                s'\<lparr>bytes_left := bytes_left s' - unat sz\<rparr>))"

definition pb_close_string_substream ::
    "'s pb_istream \<Rightarrow> 's pb_istream \<Rightarrow> unit option \<times> 's pb_istream" where
  "pb_close_string_substream s sub =
     (case (if bytes_left sub \<noteq> 0 then pb_read sub True (bytes_left sub) else (Some [], sub)) of
        (None, sub') \<Rightarrow> (None, s)
      | (Some _, sub') \<Rightarrow> (Some (), s\<lparr>i_source := i_source sub', i_errmsg := i_errmsg sub'\<rparr>))"

section \<open>Fixed-width and zigzag values\<close>

definition pb_decode_svarint :: "'s pb_istream \<Rightarrow> 64 word option \<times> 's pb_istream" where
  "pb_decode_svarint s =
     (case pb_decode_varint s of
        (None, s') \<Rightarrow> (None, s')
      | (Some v, s') \<Rightarrow>
          if v AND 1 \<noteq> 0 then (Some (NOT (drop_bit 1 v)), s') else (Some (drop_bit 1 v), s'))"

definition pb_decode_fixed32 :: "'s pb_istream \<Rightarrow> u32 option \<times> 's pb_istream" where
  "pb_decode_fixed32 s =
     (case pb_read s False 4 of
        (None, s') \<Rightarrow> (None, s')
      | (Some bytes, s') \<Rightarrow>
          (Some (push_bit 0 (ucast (bytes ! 0)) OR push_bit 8 (ucast (bytes ! 1)) OR
                 push_bit 16 (ucast (bytes ! 2)) OR push_bit 24 (ucast (bytes ! 3))), s'))"

definition pb_decode_fixed64 :: "'s pb_istream \<Rightarrow> u64 option \<times> 's pb_istream" where
  "pb_decode_fixed64 s =
     (case pb_read s False 8 of
        (None, s') \<Rightarrow> (None, s')
      | (Some bytes, s') \<Rightarrow>
          (Some (push_bit 0 (ucast (bytes ! 0)) OR push_bit 8 (ucast (bytes ! 1)) OR
                 push_bit 16 (ucast (bytes ! 2)) OR push_bit 24 (ucast (bytes ! 3)) OR
                 push_bit 32 (ucast (bytes ! 4)) OR push_bit 40 (ucast (bytes ! 5)) OR
                 push_bit 48 (ucast (bytes ! 6)) OR push_bit 56 (ucast (bytes ! 7))), s'))"

section \<open>Buffer streams as byte lists\<close>

text \<open>What is left to read of a buffer stream, as a list; reading moves along it.\<close>

fun shift_source :: "nat \<Rightarrow> 's pb_source \<Rightarrow> 's pb_source" where
  "shift_source n (Buffer m a) = Buffer m (a + n)"
| "shift_source n (Callback f st) = Callback f st"

definition advance :: "nat \<Rightarrow> 's pb_istream \<Rightarrow> 's pb_istream" where
  "advance n s = s\<lparr>i_source := shift_source n (i_source s), bytes_left := bytes_left s - n\<rparr>"

fun source_bytes :: "'s pb_source \<Rightarrow> nat \<Rightarrow> u8 list" where
  "source_bytes (Buffer m a) n = load_bytes m a n"
| "source_bytes (Callback f st) n = []"

definition ibytes :: "'s pb_istream \<Rightarrow> u8 list" where
  "ibytes s = source_bytes (i_source s) (bytes_left s)"

abbreviation buffered :: "'s pb_istream \<Rightarrow> bool" where
  "buffered s \<equiv> is_buffer (i_source s)"

named_theorems istream_simps "reading from buffer streams"

lemma shift_source_is_buffer [simp]: "is_buffer (shift_source n src) = is_buffer src"
  by (cases src) auto

lemma shift_source_add [simp]: "shift_source j (shift_source k src) = shift_source (k + j) src"
  by (cases src) (auto simp: add.assoc)

lemma shift_source_0 [simp]: "shift_source 0 src = src"
  by (cases src) auto

lemma advance_simps [simp]:
  "i_source (advance n s) = shift_source n (i_source s)"
  "bytes_left (advance n s) = bytes_left s - n"
  "i_errmsg (advance n s) = i_errmsg s"
  by (auto simp: advance_def)

lemma advance_0 [simp]: "advance 0 s = s"
  by (simp add: advance_def)

lemma advance_advance [simp]: "advance j (advance k s) = advance (k + j) s"
  by (simp add: advance_def)

lemma length_ibytes [simp]: "buffered s \<Longrightarrow> length (ibytes s) = bytes_left s"
  by (cases "i_source s") (auto simp: ibytes_def)

lemma ibytes_eq_Nil: "buffered s \<Longrightarrow> ibytes s = [] \<longleftrightarrow> bytes_left s = 0"
  by (metis length_0_conv length_ibytes)

lemma ibytes_advance [simp]: "buffered s \<Longrightarrow> ibytes (advance n s) = drop n (ibytes s)"
  by (cases "i_source s") (auto simp: ibytes_def)

lemma ibytes_from_buffer [simp]:
  "ibytes (pb_istream_from_buffer m a n) = load_bytes m a n"
  by (simp add: ibytes_def pb_istream_from_buffer_def)

lemma buffered_from_buffer [simp]: "buffered (pb_istream_from_buffer m a n)"
  by (simp add: pb_istream_from_buffer_def)

lemma bytes_left_from_buffer [simp]: "bytes_left (pb_istream_from_buffer m a n) = n"
  by (simp add: pb_istream_from_buffer_def)

lemma pb_read_checked_buffer [istream_simps]:
  assumes "buffered s"
  shows "pb_read_checked s n =
    (if bytes_left s < n then (None, pb_iset_error ''end-of-stream'' s)
     else (Some (take n (ibytes s)), advance n s))"
  using assms by (cases "i_source s")
    (auto simp: pb_read_checked_def buf_read_def advance_def ibytes_def min_def)

lemma pb_read_buffer [istream_simps]:
  "buffered s \<Longrightarrow> pb_read s null n =
    (if bytes_left s < n then (None, pb_iset_error ''end-of-stream'' s)
     else (Some (take n (ibytes s)), advance n s))"
  by (simp add: pb_read_def pb_read_checked_buffer)

lemma pb_readbyte_buffer [istream_simps]:
  assumes "buffered s"
  shows "pb_readbyte s =
    (case ibytes s of [] \<Rightarrow> (None, pb_iset_error ''end-of-stream'' s)
     | b # bs \<Rightarrow> (Some b, advance 1 s))"
  using assms
  by (cases "i_source s"; cases "bytes_left s")
    (auto simp: pb_readbyte_def buf_read_def advance_def ibytes_def load_bytes_Suc)

section \<open>Varints as byte lists\<close>

lemma varint_loop_value:
  assumes "buffered s" "one_varint bs" "ibytes s = bs @ rest" "pos + 7 * length bs < 71"
  shows "varint_loop pos res s =
    (Some (res OR push_bit pos (groups_value bs)), advance (length bs) s)"
  using assms
proof (induction bs arbitrary: pos res s)
  case Nil
  then show ?case by simp
next
  case (Cons b bs)
  show ?case
  proof (cases "b AND 0x80 = 0")
    case True
    with Cons.prems have [simp]: "bs = []" by simp
    from Cons.prems True show ?thesis
      by (subst varint_loop.simps) (simp add: istream_simps)
  next
    case False
    with Cons.prems have ov: "one_varint bs" by simp
    have "ibytes (advance 1 s) = bs @ rest"
      using Cons.prems by simp
    from Cons.IH [OF _ ov this, of "pos + 7"] Cons.prems
    have "varint_loop (pos + 7) r (advance 1 s) =
        (Some (r OR push_bit (pos + 7) (groups_value bs)), advance (Suc (length bs)) s)" for r
      by simp
    with False Cons.prems one_varint_length [OF ov] show ?thesis
      by (subst varint_loop.simps)
        (simp add: istream_simps Let_def push_bit_or or.assoc add.commute)
  qed
qed

lemma varint32_loop_value:
  assumes "buffered s" "one_varint bs" "ibytes s = bs @ rest" "pos + 7 * length bs < 39"
  shows "varint32_loop pos res s =
    (Some (res OR push_bit pos (groups_value bs)), advance (length bs) s)"
  using assms
proof (induction bs arbitrary: pos res s)
  case Nil
  then show ?case by simp
next
  case (Cons b bs)
  show ?case
  proof (cases "b AND 0x80 = 0")
    case True
    with Cons.prems have [simp]: "bs = []" by simp
    from Cons.prems True show ?thesis
      by (subst varint32_loop.simps) (simp add: istream_simps)
  next
    case False
    with Cons.prems have ov: "one_varint bs" by simp
    have "ibytes (advance 1 s) = bs @ rest"
      using Cons.prems by simp
    from Cons.IH [OF _ ov this, of "pos + 7"] Cons.prems
    have "varint32_loop (pos + 7) r (advance 1 s) =
        (Some (r OR push_bit (pos + 7) (groups_value bs)), advance (Suc (length bs)) s)" for r
      by simp
    with False Cons.prems one_varint_length [OF ov] show ?thesis
      by (subst varint32_loop.simps)
        (simp add: istream_simps Let_def push_bit_or or.assoc add.commute)
  qed
qed

lemma varint_loop_overflow:
  assumes "buffered s" "10 - k \<le> length (takeWhile continues (ibytes s))" "k \<le> 10"
  shows "varint_loop (7 * k) res s =
    (None, pb_iset_error ''varint overflow'' (advance (10 - k) s))"
  using assms
proof (induction "10 - k" arbitrary: k res s)
  case 0
  then show ?case by (subst varint_loop.simps) simp
next
  case (Suc n)
  then obtain b bs where bs: "ibytes s = b # bs" "continues b"
    by (cases "ibytes s") (auto split: if_splits)
  have n: "n = 10 - Suc k" and k: "Suc k \<le> 10" "7 * k < 64" using Suc.hyps(2) by auto
  have "10 - Suc k \<le> length (takeWhile continues (ibytes (advance 1 s)))"
    using Suc.prems bs by simp
  from Suc.hyps(1) [OF n _ this k(1)] Suc.prems(1)
  have IH: "varint_loop (7 * k + 7) r (advance 1 s) =
      (None, pb_iset_error ''varint overflow'' (advance (Suc (10 - Suc k)) s))" for r
    by (simp add: add.commute)
  from k(1) have "Suc (10 - Suc k) = 10 - k" by simp
  with IH bs k Suc.prems(1) show ?case
    by (subst varint_loop.simps) (simp add: istream_simps Let_def)
qed

lemma varint_loop_eos:
  assumes "buffered s" "ibytes s = bs" "\<forall>b\<in>set bs. continues b" "pos + 7 * length bs < 64"
  shows "varint_loop pos res s =
    (None, pb_iset_error ''end-of-stream'' (advance (length bs) s))"
  using assms
proof (induction bs arbitrary: pos res s)
  case Nil
  then show ?case by (subst varint_loop.simps) (simp add: istream_simps)
next
  case (Cons b bs)
  have "ibytes (advance 1 s) = bs" using Cons.prems by simp
  with Cons.IH [of "advance 1 s" "pos + 7"] Cons.prems
  have "varint_loop (pos + 7) r (advance 1 s) =
      (None, pb_iset_error ''end-of-stream'' (advance (Suc (length bs)) s))" for r
    by simp
  with Cons.prems show ?case
    by (subst varint_loop.simps) (simp add: istream_simps Let_def)
qed

text \<open>The 32-bit loop takes at most five bytes in all, the first of them outside the loop.\<close>

lemma varint32_loop_overflow:
  assumes "buffered s" "5 - k \<le> length (takeWhile continues (ibytes s))" "k \<le> 5"
  shows "varint32_loop (7 * k) res s =
    (None, pb_iset_error ''varint overflow'' (advance (5 - k) s))"
  using assms
proof (induction "5 - k" arbitrary: k res s)
  case 0
  then show ?case by (subst varint32_loop.simps) simp
next
  case (Suc n)
  then obtain b bs where bs: "ibytes s = b # bs" "continues b"
    by (cases "ibytes s") (auto split: if_splits)
  have n: "n = 5 - Suc k" and k: "Suc k \<le> 5" "7 * k < 32" using Suc.hyps(2) by auto
  have "5 - Suc k \<le> length (takeWhile continues (ibytes (advance 1 s)))"
    using Suc.prems bs by simp
  from Suc.hyps(1) [OF n _ this k(1)] Suc.prems(1)
  have IH: "varint32_loop (7 * k + 7) r (advance 1 s) =
      (None, pb_iset_error ''varint overflow'' (advance (Suc (5 - Suc k)) s))" for r
    by (simp add: add.commute)
  from k(1) have "Suc (5 - Suc k) = 5 - k" by simp
  with IH bs k Suc.prems(1) show ?case
    by (subst varint32_loop.simps) (simp add: istream_simps Let_def)
qed

lemma varint32_loop_eos:
  assumes "buffered s" "ibytes s = bs" "\<forall>b\<in>set bs. continues b" "pos + 7 * length bs < 32"
  shows "varint32_loop pos res s =
    (None, pb_iset_error ''end-of-stream'' (advance (length bs) s))"
  using assms
proof (induction bs arbitrary: pos res s)
  case Nil
  then show ?case by (subst varint32_loop.simps) (simp add: istream_simps)
next
  case (Cons b bs)
  have "ibytes (advance 1 s) = bs" using Cons.prems by simp
  with Cons.IH [of "advance 1 s" "pos + 7"] Cons.prems
  have "varint32_loop (pos + 7) r (advance 1 s) =
      (None, pb_iset_error ''end-of-stream'' (advance (Suc (length bs)) s))" for r
    by simp
  with Cons.prems show ?case
    by (subst varint32_loop.simps) (simp add: istream_simps Let_def)
qed

text \<open>What a varint decoder that takes at most \<open>n\<close> bytes does with a list of bytes.\<close>

definition varint_result ::
    "nat \<Rightarrow> 's pb_istream \<Rightarrow> 'a::len word option \<times> 's pb_istream" where
  "varint_result n s =
     (let p = takeWhile continues (ibytes s) in
      if n \<le> length p then (None, pb_iset_error ''varint overflow'' (advance n s))
      else case dropWhile continues (ibytes s) of
          [] \<Rightarrow> (None, pb_iset_error ''end-of-stream'' (advance (length p) s))
        | b # _ \<Rightarrow> (Some (groups_value (p @ [b])), advance (Suc (length p)) s))"

lemma pb_decode_varint_result [istream_simps]:
  assumes "buffered s"
  shows "pb_decode_varint s = varint_result 10 s"
proof (cases "10 \<le> length (takeWhile continues (ibytes s))")
  case True
  with varint_loop_overflow [of s 0] assms show ?thesis
    by (simp add: pb_decode_varint_def varint_result_def)
next
  case short: False
  show ?thesis
  proof (cases "dropWhile continues (ibytes s)")
    case Nil
    then have all: "\<forall>b\<in>set (ibytes s). continues b" by simp
    then have tw: "takeWhile continues (ibytes s) = ibytes s" by simp
    with short have "0 + 7 * length (ibytes s) < 64" by simp
    from varint_loop_eos [OF assms refl all this] Nil tw short show ?thesis
      by (simp only: pb_decode_varint_def varint_result_def Let_def if_False list.case)
  next
    case (Cons b rest)
    have "ibytes s = (takeWhile continues (ibytes s) @ [b]) @ rest"
      using Cons by (metis append.assoc append_Cons append_Nil takeWhile_dropWhile_id)
    from varint_loop_value [OF assms one_varint_takeWhile [OF Cons] this, of 0] short Cons
    show ?thesis by (simp add: pb_decode_varint_def varint_result_def Let_def)
  qed
qed

lemma pb_decode_varint32_result [istream_simps]:
  assumes "buffered s"
  shows "pb_decode_varint32 s = varint_result 5 s"
proof (cases "ibytes s")
  case Nil
  with assms show ?thesis
    by (simp add: pb_decode_varint32_def varint_result_def istream_simps)
next
  case first: (Cons b bs)
  show ?thesis
  proof (cases "continues b")
    case False
    with first assms show ?thesis
      by (simp add: pb_decode_varint32_def varint_result_def istream_simps low_bits_last_byte)
  next
    case True
    let ?s = "advance 1 s" and ?r = "ucast (b AND 0x7F) :: u32"
    have loop: "pb_decode_varint32 s = varint32_loop 7 ?r ?s"
      using first True assms by (simp add: pb_decode_varint32_def istream_simps)
    have bs: "ibytes ?s = bs" using first assms by simp
    show ?thesis
    proof (cases "4 \<le> length (takeWhile continues bs)")
      case long: True
      with varint32_loop_overflow [of ?s 1 ?r] assms bs loop first True show ?thesis
        by (simp add: varint_result_def)
    next
      case short: False
      show ?thesis
      proof (cases "dropWhile continues bs")
        case Nil
        then have all: "\<forall>c\<in>set bs. continues c" by simp
        then have tw: "takeWhile continues bs = bs" by simp
        with short have "7 + 7 * length bs < 32" by simp
        from varint32_loop_eos [OF _ bs all this] assms
        have "pb_decode_varint32 s =
            (None, pb_iset_error ''end-of-stream'' (advance (Suc (length bs)) s))"
          by (simp add: loop)
        with Nil tw short first True show ?thesis
          by (simp add: varint_result_def Let_def del: takeWhile_eq_all_conv dropWhile_eq_Nil_conv)
      next
        case (Cons c rest)
        have "ibytes ?s = (takeWhile continues bs @ [c]) @ rest"
          using Cons bs by (metis append.assoc append_Cons append_Nil takeWhile_dropWhile_id)
        from varint32_loop_value [OF _ one_varint_takeWhile [OF Cons] this, of 7 ?r]
          short Cons assms loop first True
        show ?thesis by (simp add: varint_result_def)
      qed
    qed
  qed
qed

lemma pb_skip_varint_list:
  assumes "buffered s" "ibytes s = bs"
  shows "pb_skip_varint s =
    (case dropWhile continues bs of
       [] \<Rightarrow> (None, pb_iset_error ''end-of-stream'' (advance (length (takeWhile continues bs)) s))
     | _ # _ \<Rightarrow> (Some (), advance (Suc (length (takeWhile continues bs))) s))"
  using assms
proof (induction bs arbitrary: s)
  case Nil
  then show ?case
    by (subst pb_skip_varint.simps) (simp add: istream_simps ibytes_eq_Nil)
next
  case (Cons b bs)
  have left: "bytes_left s = Suc (length bs)" using Cons.prems by (metis length_Cons length_ibytes)
  have step: "pb_skip_varint s =
      (if continues b then pb_skip_varint (advance 1 s) else (Some (), advance 1 s))"
    using Cons.prems left by (subst pb_skip_varint.simps) (simp add: istream_simps)
  have "ibytes (advance 1 s) = bs" "buffered (advance 1 s)" using Cons.prems by simp_all
  from Cons.IH [OF this(2,1)] step show ?case
    by (simp split: list.split del: dropWhile_eq_Nil_conv)
qed

lemmas pb_skip_varint_result [istream_simps] = pb_skip_varint_list [OF _ refl]

section \<open>What a stream takes from its source\<close>

text \<open>The source has handed out \<open>n\<close> bytes, in calls that succeeded; calls that failed handed out none.\<close>

inductive delivers :: "nat \<Rightarrow> 's pb_source \<Rightarrow> 's pb_source \<Rightarrow> bool" where
  delivers_none: "delivers 0 src src"
| delivers_more: "delivers n src src1 \<Longrightarrow> run_source src1 count = (Some bs, src2) \<Longrightarrow> delivers (n + count) src src2"
| delivers_failed: "delivers n src src1 \<Longrightarrow> run_source src1 count = (None, src2) \<Longrightarrow> delivers n src src2"

lemma delivers_trans: "delivers k src1 src2 \<Longrightarrow> delivers n src src1 \<Longrightarrow> delivers (n + k) src src2"
proof (induction rule: delivers.induct)
  case (delivers_more k src1 src2 count bs src3)
  then show ?case using delivers.delivers_more [of "n + k" src src2] by (simp add: add.assoc)
qed (auto intro: delivers.intros)

lemma delivers_buffer: "delivers n src src' \<Longrightarrow> src = Buffer m a \<Longrightarrow> src' = Buffer m (a + n)"
  by (induction rule: delivers.induct) (auto simp: buf_read_def)

text \<open>
  From one state of a stream to a later one: no more bytes came from the source than the stream counts as
  taken. For a buffer, the address of the next byte moves at most by the decrease of \<open>bytes_left\<close>.
\<close>

definition advances :: "'s pb_istream \<Rightarrow> 's pb_istream \<Rightarrow> bool" where
  "advances s s' \<longleftrightarrow> (\<exists>n. delivers n (i_source s) (i_source s') \<and> n + bytes_left s' \<le> bytes_left s)"

lemma advances_refl [simp, intro]: "advances s s"
  by (auto simp: advances_def intro: delivers_none)

lemma advances_trans [trans]: "advances s s' \<Longrightarrow> advances s' s'' \<Longrightarrow> advances s s''"
proof -
  assume "advances s s'" "advances s' s''"
  then obtain n k where "delivers n (i_source s) (i_source s')" "n + bytes_left s' \<le> bytes_left s"
    "delivers k (i_source s') (i_source s'')" "k + bytes_left s'' \<le> bytes_left s'" by (auto simp: advances_def)
  then show "advances s s''" using delivers_trans [of k] by (fastforce simp: advances_def intro!: exI [of _ "n + k"])
qed

lemma advances_left: "advances s s' \<Longrightarrow> bytes_left s' \<le> bytes_left s"
  by (auto simp: advances_def)

lemma advances_error [simp]: "advances s (pb_iset_error e s') \<longleftrightarrow> advances s s'"
  by (simp add: advances_def pb_iset_error_def)

lemma advances_buffer:
  assumes "advances s s'" "i_source s = Buffer m a"
  obtains a' where "i_source s' = Buffer m a'" "a \<le> a'" "a' + bytes_left s' \<le> a + bytes_left s"
  using assms delivers_buffer [of _ "i_source s" "i_source s'"] by (fastforce simp: advances_def)

lemma run_source_advances:
  "run_source (i_source s) n = (Some bs, src) \<Longrightarrow> n \<le> bytes_left s \<Longrightarrow>
     advances s (s\<lparr>i_source := src, bytes_left := bytes_left s - n\<rparr>)"
  "run_source (i_source s) n = (None, src) \<Longrightarrow> advances s (s\<lparr>i_source := src\<rparr>)"
  using delivers_more [OF delivers_none, of "i_source s" n] delivers_failed [OF delivers_none, of "i_source s" n]
  by (fastforce simp: advances_def)+

lemma pb_read_checked_advances: "advances s (snd (pb_read_checked s n))"
  by (auto simp: pb_read_checked_def not_less intro: run_source_advances split: prod.split option.split)

lemma pb_readbyte_advances: "advances s (snd (pb_readbyte s))"
  by (auto simp: pb_readbyte_def intro: run_source_advances run_source_advances(1) [of s 1, simplified]
      split: prod.split option.split)

lemma pb_read_skip_advances: "advances s (snd (pb_read_skip s n))"
proof (induction s n rule: pb_read_skip.induct)
  case (1 s count)
  show ?case
  proof (cases "16 < count")
    case False
    then show ?thesis by (subst pb_read_skip.simps) (simp add: pb_read_checked_advances)
  next
    case True
    show ?thesis
    proof (cases "pb_read_checked s 16")
      case (Pair r t)
      have "advances s t" using pb_read_checked_advances [of s 16] Pair by simp
      with Pair True "1.IH" [OF True Pair [symmetric]] show ?thesis
        by (subst pb_read_skip.simps) (auto split: option.splits intro: advances_trans)
    qed
  qed
qed

lemma pb_read_advances: "advances s (snd (pb_read s null n))"
  by (simp add: pb_read_def pb_read_skip_advances pb_read_checked_advances)

lemma varint32_loop_advances: "advances s (snd (varint32_loop pos r s))"
proof (induction pos r s rule: varint32_loop.induct)
  case (1 pos r s)
  show ?case
  proof (cases "pb_readbyte s")
    case (Pair b t)
    have "advances s t" using pb_readbyte_advances [of s] Pair by simp
    with Pair 1 [OF _ Pair [symmetric]] show ?thesis
      by (subst varint32_loop.simps) (auto simp: Let_def intro: advances_trans split: option.split)
  qed
qed

lemma varint_loop_advances: "advances s (snd (varint_loop pos r s))"
proof (induction pos r s rule: varint_loop.induct)
  case (1 pos r s)
  show ?case
  proof (cases "pb_readbyte s")
    case (Pair b t)
    have "advances s t" using pb_readbyte_advances [of s] Pair by simp
    with Pair 1 [OF _ Pair [symmetric]] show ?thesis
      by (subst varint_loop.simps) (auto simp: Let_def intro: advances_trans split: option.split)
  qed
qed

lemma pb_decode_varint_advances: "advances s (snd (pb_decode_varint s))"
  by (simp add: pb_decode_varint_def varint_loop_advances)

lemma pb_decode_varint32_advances: "advances s (snd (pb_decode_varint32 s))"
proof (cases "pb_readbyte s")
  case (Pair r t)
  then show ?thesis
    using pb_readbyte_advances [of s] varint32_loop_advances [of t 7]
    by (auto simp: pb_decode_varint32_def split: option.splits intro: advances_trans)
qed

lemma pb_skip_varint_advances: "advances s (snd (pb_skip_varint s))"
proof (induction s rule: pb_skip_varint.induct)
  case (1 s)
  show ?case
  proof (cases "pb_read s False 1")
    case (Pair r t)
    have "advances s t" using pb_read_advances [of s False 1] Pair by simp
    with Pair "1.IH" [OF Pair [symmetric]] show ?thesis
      by (subst pb_skip_varint.simps) (auto split: option.splits intro: advances_trans)
  qed
qed

lemma pb_skip_string_advances: "advances s (snd (pb_skip_string s))"
proof (cases "pb_decode_varint32 s")
  case (Pair r t)
  have "advances s t" using pb_decode_varint32_advances [of s] Pair by simp
  with Pair show ?thesis
    using pb_read_advances [of t True]
    by (auto simp: pb_skip_string_def split: option.splits prod.splits intro: advances_trans)
       (metis advances_trans snd_conv)+
qed

lemma pb_skip_field_advances: "advances s (snd (pb_skip_field s wt))"
  using pb_skip_varint_advances [of s] pb_skip_string_advances [of s] pb_read_advances [of s True 8]
    pb_read_advances [of s True 4]
  by (auto simp: pb_skip_field_def split: prod.splits)

lemma pb_decode_tag_advances: "advances s (snd (pb_decode_tag s))"
  using pb_decode_varint32_advances [of s]
  by (auto simp: pb_decode_tag_def split: prod.splits option.splits)

text \<open>A substream and its parent share the source; closing hands it back.\<close>

lemma pb_make_string_substream_advances:
  assumes "pb_make_string_substream s = (r, s')"
  shows "advances s s'"
    and "r = Some sub \<Longrightarrow> advances sub sub' \<Longrightarrow> advances s (s'\<lparr>i_source := i_source sub', i_errmsg := e\<rparr>)"
proof -
  obtain v t where v: "pb_decode_varint32 s = (v, t)" by (cases "pb_decode_varint32 s")
  then obtain n where n: "delivers n (i_source s) (i_source t)" "n + bytes_left t \<le> bytes_left s"
    using pb_decode_varint32_advances [of s] by (auto simp: advances_def)
  then show "advances s s'"
    using assms v by (auto simp: pb_make_string_substream_def advances_def pb_iset_error_def split: option.splits if_splits)
  assume r: "r = Some sub" "advances sub sub'"
  then obtain k where k: "delivers k (i_source sub) (i_source sub')" "k + bytes_left sub' \<le> bytes_left sub"
    by (auto simp: advances_def)
  have t: "i_source sub = i_source t" "bytes_left sub + bytes_left s' = bytes_left t"
    using assms v r(1) by (auto simp: pb_make_string_substream_def split: option.splits if_splits)
  show "advances s (s'\<lparr>i_source := i_source sub', i_errmsg := e\<rparr>)"
    using delivers_trans [OF k(1) [unfolded t(1)] n(1)] k(2) t(2) n(2) by (auto simp: advances_def)
qed

lemma pb_close_string_substream_advances:
  assumes "pb_make_string_substream s = (Some sub, s')" "advances sub sub'"
  shows "advances s (snd (pb_close_string_substream s' sub'))"
proof -
  have "advances sub (snd (pb_read sub' True n))" for n
    using assms(2) pb_read_advances by (rule advances_trans)
  then show ?thesis
    using pb_make_string_substream_advances [OF assms(1)] assms(2)
    by (auto simp: pb_close_string_substream_def split: prod.split option.split) (metis snd_conv)+
qed

lemma read_raw_value_advances: "advances s (snd (read_raw_value s wt n))"
proof -
  have "advances s (snd (raw_varint_loop n acc s))" for acc
  proof (induction n acc s rule: raw_varint_loop.induct)
    case (1 n acc s)
    show ?case
    proof (cases "pb_read s False 1")
      case (Pair r t)
      have "advances s t" using pb_read_advances [of s False 1] Pair by simp
      with Pair 1 [OF _ Pair [symmetric]] show ?thesis
        by (subst raw_varint_loop.simps) (auto split: option.split intro: advances_trans)
    qed
  qed
  then show ?thesis using pb_read_advances [of s False] by (simp add: read_raw_value_def)
qed

lemma pb_decode_svarint_advances: "advances s (snd (pb_decode_svarint s))"
  using pb_decode_varint_advances [of s]
  by (auto simp: pb_decode_svarint_def split: prod.splits option.splits)

lemma pb_decode_fixed_advances:
  "advances s (snd (pb_decode_fixed32 s))" "advances s (snd (pb_decode_fixed64 s))"
  using pb_read_advances [of s False]
  by (auto simp: pb_decode_fixed32_def pb_decode_fixed64_def split: prod.split option.split)
     (metis snd_conv)+

section \<open>What is left after a read\<close>

text \<open>For every stream, a callback stream too: the operations that return a value have taken at least one
  byte.\<close>

lemma pb_readbyte_left: "bytes_left (snd (pb_readbyte s)) \<le> bytes_left s"
  by (rule advances_left [OF pb_readbyte_advances])

lemma pb_read_left: "bytes_left (snd (pb_read s null n)) \<le> bytes_left s"
  by (rule advances_left [OF pb_read_advances])

lemma varint32_loop_left:
  "bytes_left (snd (varint32_loop pos r s)) \<le> bytes_left s \<and>
   (fst (varint32_loop pos r s) \<noteq> None \<longrightarrow> bytes_left (snd (varint32_loop pos r s)) < bytes_left s)"
proof (induction pos r s rule: varint32_loop.induct)
  case (1 pos r s)
  show ?case
  proof (cases "32 \<le> pos \<or> fst (pb_readbyte s) = None")
    case True
    then show ?thesis
      using pb_readbyte_left [of s]
      by (subst varint32_loop.simps, subst varint32_loop.simps, subst varint32_loop.simps)
        (auto split: prod.splits option.splits)
  next
    case False
    then obtain b t where b: "\<not> 32 \<le> pos" "pb_readbyte s = (Some b, t)"
      by (cases "pb_readbyte s") auto
    from pb_readbyte_decreases [OF b(2)] have "bytes_left t < bytes_left s" by auto
    with b "1.IH" [OF b(1) b(2) [symmetric] refl refl] show ?thesis
      by (subst varint32_loop.simps, subst varint32_loop.simps, subst varint32_loop.simps)
        (auto simp: Let_def)
  qed
qed

lemma varint_loop_left:
  "bytes_left (snd (varint_loop pos r s)) \<le> bytes_left s \<and>
   (fst (varint_loop pos r s) \<noteq> None \<longrightarrow> bytes_left (snd (varint_loop pos r s)) < bytes_left s)"
proof (induction pos r s rule: varint_loop.induct)
  case (1 pos r s)
  show ?case
  proof (cases "64 \<le> pos \<or> fst (pb_readbyte s) = None")
    case True
    then show ?thesis
      using pb_readbyte_left [of s]
      by (subst varint_loop.simps, subst varint_loop.simps, subst varint_loop.simps)
        (auto split: prod.splits option.splits)
  next
    case False
    then obtain b t where b: "\<not> 64 \<le> pos" "pb_readbyte s = (Some b, t)"
      by (cases "pb_readbyte s") auto
    from pb_readbyte_decreases [OF b(2)] have "bytes_left t < bytes_left s" by auto
    with b "1.IH" [OF b(1) b(2) [symmetric] refl refl] show ?thesis
      by (subst varint_loop.simps, subst varint_loop.simps, subst varint_loop.simps)
        (auto simp: Let_def)
  qed
qed

lemma pb_decode_varint32_left: "bytes_left (snd (pb_decode_varint32 s)) \<le> bytes_left s"
  by (rule advances_left [OF pb_decode_varint32_advances])

lemma pb_decode_varint32_decreases:
  assumes "pb_decode_varint32 s = (Some v, s')"
  shows "bytes_left s' < bytes_left s"
proof (cases "pb_readbyte s")
  case (Pair r t)
  with assms obtain b where b: "r = Some b"
    by (auto simp: pb_decode_varint32_def split: option.splits)
  from pb_readbyte_decreases [OF Pair [unfolded b]] have "bytes_left t < bytes_left s" by auto
  with assms Pair b varint32_loop_left [of 7 "ucast (b AND 0x7F)" t] show ?thesis
    by (auto simp: pb_decode_varint32_def split: if_splits)
qed

lemma pb_decode_tag_decreases:
  "pb_decode_tag s = ((True, wt, tg, eof), s') \<Longrightarrow> bytes_left s' < bytes_left s"
  by (auto simp: pb_decode_tag_def dest: pb_decode_varint32_decreases
      split: prod.splits option.splits if_splits)

lemma pb_make_string_substream_bounds:
  "pb_make_string_substream s = (Some sub, s') \<Longrightarrow>
     bytes_left sub + bytes_left s' < bytes_left s \<and> i_source sub = i_source s'"
  by (auto simp: pb_make_string_substream_def dest!: pb_decode_varint32_decreases
      split: prod.splits option.splits if_splits)

end
