(* ===== verification/Pb_Wire.thy ===== *)
theory Pb_Wire
  imports Codec Pb_Encode_Stream Pb_Decode_Stream
begin

text \<open>
  The wire format of nanopb: the two sides of each value (\<open>pb_encode_*\<close>, \<open>pb_decode_*\<close>) as codecs
  over byte lists, and the properties of the stream layer. \<open>run_encoder\<close> writes to a fresh buffer
  of a given size, \<open>run_decoder\<close> reads from the stream over a list of bytes.
\<close>

section \<open>Running an encoder and a decoder on a buffer\<close>

definition run_encoder :: "nat \<Rightarrow> (unit pb_ostream \<Rightarrow> unit enc_result) \<Rightarrow> u8 list option" where
  "run_encoder n e =
     (case e (pb_ostream_from_buffer (replicate n 0) n) of
        Some (True, s) \<Rightarrow>
          (case sink s of BufWrite b \<Rightarrow> Some (take (bytes_written s) (obytes b)) | _ \<Rightarrow> None)
      | _ \<Rightarrow> None)"

text \<open>The stream over a list of bytes.\<close>

definition stream_of :: "u8 list \<Rightarrow> 's pb_istream" where
  "stream_of bs = pb_istream_from_buffer (mem_of bs) 0 (length bs)"

lemma stream_of_simps [simp]:
  "buffered (stream_of bs)"
  "ibytes (stream_of bs) = bs"
  "bytes_left (stream_of bs) = length bs"
  by (simp_all add: stream_of_def)

definition run_decoder ::
    "(unit pb_istream \<Rightarrow> 'a option \<times> unit pb_istream) \<Rightarrow> u8 list \<Rightarrow> ('a \<times> u8 list) option" where
  "run_decoder d bs =
     (case d (stream_of bs) of
        (Some v, s) \<Rightarrow> Some (v, ibytes s)
      | (None, s) \<Rightarrow> None)"

lemma plain_from_buffer [simp]: "plain (pb_ostream_from_buffer buf n)"
  by (simp add: plain_def fits_def pb_ostream_from_buffer_def)

lemma fits_from_buffer [simp]: "fits (pb_ostream_from_buffer buf n) k \<longleftrightarrow> k \<le> n"
  by (simp add: fits_def pb_ostream_from_buffer_def)

lemma bytes_written_from_buffer [simp]: "bytes_written (pb_ostream_from_buffer buf n) = 0"
  by (simp add: pb_ostream_from_buffer_def)

lemma run_decoder_SomeD:
  "run_decoder d bs = Some (v, r) \<Longrightarrow> \<exists>t. d (stream_of bs) = (Some v, t) \<and> ibytes t = r"
  by (auto simp: run_decoder_def split: prod.splits option.splits)

lemma run_encoder_encodes:
  assumes "encodes e bs" "length bs < 2 ^ 64"
  shows "run_encoder n e = (if length bs \<le> n then Some bs else None)"
proof (cases "length bs \<le> n")
  case True
  have "e (pb_ostream_from_buffer (replicate n 0) n) =
      Some (True, put (pb_ostream_from_buffer (replicate n 0) n) bs)"
    by (rule encodes_True [OF assms(1)]) (use True assms(2) in simp_all)
  with True show ?thesis
    by (simp add: run_encoder_def) (simp add: put_def pb_ostream_from_buffer_def buf_write_def)
next
  case False
  obtain s where "e (pb_ostream_from_buffer (replicate n 0) n) = Some (False, s)"
    using encodes_False [OF assms(1), of "pb_ostream_from_buffer (replicate n 0) n"] False assms(2)
    by auto
  with False show ?thesis by (simp add: run_encoder_def)
qed

section \<open>The codecs of nanopb\<close>

lemma varint_result_Some:
  assumes "buffered s" "one_varint bs" "length bs \<le> n" "ibytes s = bs @ rest"
  shows "varint_result n s = (Some (groups_value bs), advance (length bs) s)"
proof -
  have "takeWhile continues (bs @ rest) @ [hd (dropWhile continues (bs @ rest))] = bs \<and>
      dropWhile continues (bs @ rest) \<noteq> []"
    using assms(2) by (induction bs) (auto split: if_splits)
  then obtain b t where d: "dropWhile continues (bs @ rest) = b # t"
    and t: "takeWhile continues (bs @ rest) @ [b] = bs"
    by (cases "dropWhile continues (bs @ rest)") auto
  have "Suc (length (takeWhile continues (bs @ rest))) = length bs"
    using t by (metis length_append_singleton)
  with assms d t show ?thesis
    by (simp add: varint_result_def Let_def del: takeWhile_append dropWhile_append)
qed

lemma run_decode_varint: "run_decoder pb_decode_varint (varint_bytes v @ rest) = Some (v, rest)"
  using varint_result_Some [OF _ one_varint_bytes length_varint_bytes_10,
      of "stream_of (varint_bytes v @ rest) :: unit pb_istream" v rest, where 'b = 64]
  by (simp add: run_decoder_def istream_simps groups_value_varint_bytes)


lemma ucast_groups_value:
  "(ucast (groups_value bs :: u64) :: u32) = groups_value bs"
proof -
  have "bit (groups_value bs :: u32) n \<longleftrightarrow> n < 32 \<and> bit (groups_value bs :: u64) n" for n
  proof (induction bs arbitrary: n)
    case (Cons b bs)
    show ?case
      using Cons.IH [of "n - 7"]
      by (cases "n < 7") (auto simp: and_0x7F bit_simps intro: less_imp_diff_less)
  qed simp
  note * = this
  show ?thesis by (rule bit_word_eqI) (simp add: bit_unsigned_iff *)
qed

lemma length_varint_bytes_32: "length (varint_bytes (ucast (v :: u32))) \<le> 5"
proof (rule length_varint_bytes)
  show "drop_bit (7 * 5) (ucast v :: u64) = 0"
  proof (rule bit_word_eqI)
    fix n
    have "\<not> bit v (35 + n)" using bit_imp_le_length [of v "35 + n"] by auto
    then show "bit (drop_bit (7 * 5) (ucast v :: u64)) n = bit 0 n" by (simp add: bit_simps)
  qed
qed simp

lemma groups_value_varint32: "groups_value (varint_bytes (ucast (v :: u32))) = v"
  unfolding ucast_groups_value [symmetric] groups_value_varint_bytes
  by (rule bit_word_eqI) (auto simp: bit_simps)

lemma varint32_result_Some:
  fixes v :: u32
  assumes "buffered s" "ibytes s = varint_bytes (ucast v) @ rest"
  shows "pb_decode_varint32 s = (Some v, advance (length (varint_bytes (ucast v))) s)"
  using varint_result_Some [OF assms(1) one_varint_bytes length_varint_bytes_32 assms(2), where 'b = 32]
    assms(1) by (simp add: istream_simps groups_value_varint32)

lemma run_decode_varint32:
  "run_decoder pb_decode_varint32 (varint_bytes (ucast v) @ rest) = Some (v, rest)"
  using varint32_result_Some [of "stream_of (varint_bytes (ucast v) @ rest) :: unit pb_istream" v rest]
  by (simp add: run_decoder_def)

lemma zigzag_inverse:
  fixes v :: "64 word"
  defines "z \<equiv> (if v <s 0 then NOT (push_bit 1 v) else push_bit 1 v)"
  shows "(if z AND 1 \<noteq> 0 then NOT (drop_bit 1 z) else drop_bit 1 z) = v"
proof -
  have neg: "v <s 0 \<longleftrightarrow> bit v 63"
    using bit_last_iff [of v] by (simp add: word_sless_alt)
  have odd: "z AND 1 \<noteq> 0 \<longleftrightarrow> bit v 63"
    using and_exp_eq_0_iff_not_bit [of z 0]
    by (cases "bit v 63") (simp_all add: z_def neg bit_not_iff bit_0)
  have dbl: "bit (v * 2) k \<longleftrightarrow> 1 \<le> k \<and> k < 64 \<and> bit v (k - 1)" for k
    using bit_push_bit_iff [of 1 v k] bit_imp_le_length [of "push_bit 1 v" k]
      bit_imp_le_length [of v "k - 1"]
    by (auto simp: mult.commute)
  show ?thesis
  proof (rule bit_word_eqI)
    fix n assume "n < LENGTH(64)"
    then show "bit (if z AND 1 \<noteq> 0 then NOT (drop_bit 1 z) else drop_bit 1 z) n = bit v n"
      using bit_imp_le_length [of v "Suc n"] unfolding odd
      by (cases "n = 63") (auto simp: z_def neg bit_simps dbl)
  qed
qed

lemma run_decode_svarint: "run_decoder pb_decode_svarint (svarint_bytes v @ rest) = Some (v, rest)"
proof -
  define z where "z = (if v <s 0 then NOT (push_bit 1 v) else push_bit 1 v)"
  obtain t where t: "pb_decode_varint (stream_of (svarint_bytes v @ rest) :: unit pb_istream) = (Some z, t)"
    "ibytes t = rest"
    using run_decoder_SomeD [OF run_decode_varint [of z rest]]
    by (auto simp: svarint_bytes_def z_def)
  have z: "(if z AND 1 \<noteq> 0 then NOT (drop_bit 1 z) else drop_bit 1 z) = v"
    unfolding z_def by (rule zigzag_inverse)
  show ?thesis
    by (cases "z AND 1 = 0") (use z t in \<open>simp_all add: run_decoder_def pb_decode_svarint_def\<close>)
qed

lemma list4: "length bs = 4 \<Longrightarrow> \<exists>a b c d. bs = [a, b, c, d]"
  by (auto simp: numeral_eq_Suc length_Suc_conv)

lemma list8: "length bs = 8 \<Longrightarrow> \<exists>a b c d e f g h. bs = [a, b, c, d, e, f, g, h]"
  by (auto simp: numeral_eq_Suc length_Suc_conv)

lemma pb_decode_fixed32_result [istream_simps]:
  assumes "buffered s"
  shows "pb_decode_fixed32 s =
    (if bytes_left s < 4 then (None, pb_iset_error ''end-of-stream'' s)
     else (Some (le_word (take 4 (ibytes s))), advance 4 s))"
proof (cases "bytes_left s < 4")
  case False
  with assms obtain a b c d where "take 4 (ibytes s) = [a, b, c, d]"
    using list4 [of "take 4 (ibytes s)"] by auto
  with False assms show ?thesis
    by (simp add: pb_decode_fixed32_def istream_simps push_bit_or or.assoc)
qed (simp add: pb_decode_fixed32_def istream_simps assms)

lemma pb_decode_fixed64_result [istream_simps]:
  assumes "buffered s"
  shows "pb_decode_fixed64 s =
    (if bytes_left s < 8 then (None, pb_iset_error ''end-of-stream'' s)
     else (Some (le_word (take 8 (ibytes s))), advance 8 s))"
proof (cases "bytes_left s < 8")
  case False
  with assms obtain a b c d e f g h where "take 8 (ibytes s) = [a, b, c, d, e, f, g, h]"
    using list8 [of "take 8 (ibytes s)"] by auto
  with False assms show ?thesis
    by (simp add: pb_decode_fixed64_def istream_simps push_bit_or or.assoc)
qed (simp add: pb_decode_fixed64_def istream_simps assms)

interpretation varint_codec: wire_codec varint_bytes "run_decoder pb_decode_varint" "\<lambda>_. True"
  by unfold_locales (rule run_decode_varint)

interpretation varint32_codec: wire_codec "\<lambda>v. varint_bytes (ucast v)"
    "run_decoder pb_decode_varint32" "\<lambda>_. True"
  by unfold_locales (rule run_decode_varint32)

interpretation svarint_codec: wire_codec svarint_bytes "run_decoder pb_decode_svarint" "\<lambda>_. True"
  by unfold_locales (rule run_decode_svarint)

interpretation fixed32_codec: fixed_codec "le_bytes 4" "run_decoder pb_decode_fixed32" "\<lambda>_. True" 4
  by unfold_locales (simp_all add: run_decoder_def istream_simps le_word_le_bytes)

interpretation fixed64_codec: fixed_codec "le_bytes 8" "run_decoder pb_decode_fixed64" "\<lambda>_. True" 8
  by unfold_locales (simp_all add: run_decoder_def istream_simps le_word_le_bytes)

section \<open>Tags and records\<close>

lemma tag_bytes_ucast:
  assumes "n < 2 ^ 29"
  shows "tag_bytes wt n = varint_bytes (ucast (push_bit 3 n OR wt :: u32))" 
proof -
  have n: "k < 29" if "bit n k" for k
  proof -
    have "n = take_bit 29 n"
      using assms take_bit_less_self [of n 29] by (simp add: word_less_nat_alt)
    then show ?thesis using that by (metis bit_take_bit_iff not_le)
  qed
  have "push_bit 3 (ucast n) OR ucast wt = (ucast (push_bit 3 n OR wt) :: u64)"
    by (rule bit_word_eqI) (auto simp: bit_simps dest: bit_imp_le_length n)
  then show ?thesis by (simp add: tag_bytes_def)
qed

lemma tag_word_parts:
  assumes "wt < (8 :: u32)" "n < (2 ^ 29 :: u32)"
  shows "(push_bit 3 n OR wt) AND 7 = wt" "drop_bit 3 (push_bit 3 n OR wt) = n"
proof -
  have w: "take_bit 3 wt = wt"
    using assms(1) take_bit_less_self [of wt 3] by (simp add: word_less_nat_alt)
  have n: "take_bit 29 n = n"
    using assms(2) take_bit_less_self [of n 29] by (simp add: word_less_nat_alt)
  have and7: "x AND 7 = take_bit 3 x" for x :: u32
    by (simp add: take_bit_eq_mask mask_eq_exp_minus_1)
  have "take_bit 3 (push_bit 3 n OR take_bit 3 wt) = take_bit 3 wt"
    by (rule bit_word_eqI) (auto simp: bit_simps)
  then show "(push_bit 3 n OR wt) AND 7 = wt" unfolding and7 w .
  have "drop_bit 3 (push_bit 3 (take_bit 29 n) OR take_bit 3 wt) = take_bit 29 n"
    by (rule bit_word_eqI) (auto simp: bit_simps)
  then show "drop_bit 3 (push_bit 3 n OR wt) = n" unfolding n w .
qed

lemma pb_decode_tag_bytes:
  assumes "buffered s" "ibytes s = tag_bytes wt n @ rest" "wt < 8" "n < 2 ^ 29"
    and "n \<noteq> 0 \<or> wt \<noteq> 0"
  shows "pb_decode_tag s = ((True, wt, n, False), advance (length (tag_bytes wt n)) s)"
proof -
  note parts = tag_word_parts [OF assms(3,4)]
  have "push_bit 3 n OR wt \<noteq> 0" using parts assms(5) by (metis drop_bit_of_0 and.left_neutral bit.conj_zero_left)
  with varint32_result_Some [OF assms(1) assms(2) [unfolded tag_bytes_ucast [OF assms(4)]]] parts
  show ?thesis by (simp add: pb_decode_tag_def tag_bytes_ucast [OF assms(4)])
qed

text \<open>A field on the wire: its number and a value of one of the four wire types.\<close>

datatype wire_value =
  Varint_Value u64
| Fixed64_Value u64
| String_Value "u8 list"
| Fixed32_Value u32

type_synonym wire_record = "u32 \<times> wire_value"

fun value_wire_type :: "wire_value \<Rightarrow> pb_wire_type_t" where
  "value_wire_type (Varint_Value v) = PB_WT_VARINT"
| "value_wire_type (Fixed64_Value v) = PB_WT_64BIT"
| "value_wire_type (String_Value bs) = PB_WT_STRING"
| "value_wire_type (Fixed32_Value v) = PB_WT_32BIT"

fun value_bytes :: "wire_value \<Rightarrow> u8 list" where
  "value_bytes (Varint_Value v) = varint_bytes v"
| "value_bytes (Fixed64_Value v) = le_bytes 8 v"
| "value_bytes (String_Value bs) = delimited bs"
| "value_bytes (Fixed32_Value v) = le_bytes 4 v"

fun write_value :: "'s pb_ostream \<Rightarrow> wire_value \<Rightarrow> bool \<times> 's pb_ostream" where
  "write_value s (Varint_Value v) = pb_encode_varint s v"
| "write_value s (Fixed64_Value v) = pb_encode_fixed64 s v"
| "write_value s (String_Value bs) = pb_encode_string s bs (length bs)"
| "write_value s (Fixed32_Value v) = pb_encode_fixed32 s v"

definition write_record :: "'s pb_ostream \<Rightarrow> wire_record \<Rightarrow> 's enc_result" where
  "write_record s r =
     enc_then (Some (pb_encode_tag s (value_wire_type (snd r)) (fst r)))
       (\<lambda>s. Some (write_value s (snd r)))"

fun write_records :: "'s pb_ostream \<Rightarrow> wire_record list \<Rightarrow> 's enc_result" where
  "write_records s [] = Some (True, s)"
| "write_records s (r # rs) = enc_then (write_record s r) (\<lambda>s. write_records s rs)"

definition record_bytes :: "wire_record \<Rightarrow> u8 list" where
  "record_bytes r = tag_bytes (value_wire_type (snd r)) (fst r) @ value_bytes (snd r)"

text \<open>Reading the value of a tag; a string is read through a substream.\<close>

definition read_string :: "'s pb_istream \<Rightarrow> u8 list option \<times> 's pb_istream" where
  "read_string s =
     (case pb_make_string_substream s of
        (None, s') \<Rightarrow> (None, s')
      | (Some sub, s') \<Rightarrow>
          (case pb_read sub False (bytes_left sub) of
             (None, _) \<Rightarrow> (None, s')
           | (Some bs, sub') \<Rightarrow>
               (case pb_close_string_substream s' sub' of
                  (None, s'') \<Rightarrow> (None, s'')
                | (Some _, s'') \<Rightarrow> (Some bs, s''))))"

definition read_value :: "'s pb_istream \<Rightarrow> pb_wire_type_t \<Rightarrow> wire_value option \<times> 's pb_istream" where
  "read_value s wt =
     (if wt = PB_WT_VARINT then apfst (map_option Varint_Value) (pb_decode_varint s)
      else if wt = PB_WT_64BIT then apfst (map_option Fixed64_Value) (pb_decode_fixed64 s)
      else if wt = PB_WT_STRING then apfst (map_option String_Value) (read_string s)
      else if wt = PB_WT_32BIT then apfst (map_option Fixed32_Value) (pb_decode_fixed32 s)
      else (None, s))"

definition read_record :: "'s pb_istream \<Rightarrow> wire_record option \<times> 's pb_istream" where
  "read_record s =
     (case pb_decode_tag s of
        ((False, _), s') \<Rightarrow> (None, s')
      | ((True, wt, n, _), s') \<Rightarrow>
          (case read_value s' wt of
             (None, s'') \<Rightarrow> (None, s'')
           | (Some v, s'') \<Rightarrow> (Some (n, v), s'')))"

definition skip_record :: "'s pb_istream \<Rightarrow> unit option \<times> 's pb_istream" where
  "skip_record s =
     (case pb_decode_tag s of
        ((False, _), s') \<Rightarrow> (None, s')
      | ((True, wt, n, _), s') \<Rightarrow> pb_skip_field s' wt)"

definition valid_record :: "wire_record \<Rightarrow> bool" where
  "valid_record r \<longleftrightarrow> 0 < fst r \<and> fst r < 2 ^ 29 \<and>
     (case snd r of String_Value bs \<Rightarrow> length bs < 2 ^ 32 | _ \<Rightarrow> True)"

lemma encodes_write_record: "encodes (\<lambda>s. write_record s r) (record_bytes r)"
proof -
  have "encodes (\<lambda>s. Some (write_value s v)) (value_bytes v)" for v
    by (cases v) (simp_all add: encodes_varint encodes_fixed32 encodes_fixed64 encodes_string)
  then show ?thesis
    unfolding write_record_def record_bytes_def by (rule encodes_then [OF encodes_tag])
qed

lemma encodes_write_records: "encodes (\<lambda>s. write_records s rs) (concat (map record_bytes rs))"
  by (induction rs) (auto intro: encodes_Nil encodes_then encodes_write_record)

lemma value_wire_type_less: "value_wire_type v < 8"
  by (cases v) simp_all

lemma decode_length_delimited:
  assumes "buffered s" "ibytes s = delimited bs @ rest" "length bs < 2 ^ 32"
  defines "t \<equiv> advance (length (delimited bs) - length bs) s"
  shows "pb_decode_varint32 s = (Some (of_nat (length bs)), t)"
    and "unat (of_nat (length bs) :: u32) = length bs"
    and "bytes_left t = length bs + length rest" "ibytes t = bs @ rest" "buffered t"
proof -
  let ?n = "of_nat (length bs) :: u32"
  show n: "unat ?n = length bs" using assms(3) by (simp add: unat_of_nat)
  have u: "ucast ?n = (of_nat (length bs) :: u64)"
    using n by (metis of_nat_unat)
  have s: "ibytes s = varint_bytes (ucast ?n) @ bs @ rest"
    using assms(2) by (simp add: delimited_def u)
  have left: "bytes_left s = length (varint_bytes (ucast ?n)) + length bs + length rest"
    using length_ibytes [OF assms(1)] s by simp
  show "pb_decode_varint32 s = (Some ?n, t)"
    using varint32_result_Some [OF assms(1) s] by (simp add: t_def delimited_def u)
  show "bytes_left t = length bs + length rest" "ibytes t = bs @ rest" "buffered t"
    using assms(1) s left by (simp_all add: t_def delimited_def u)
qed

lemma pb_make_string_substream_delimited:
  assumes "buffered s" "ibytes s = delimited bs @ rest" "length bs < 2 ^ 32"
  defines "t \<equiv> advance (length (delimited bs) - length bs) s"
  shows "pb_make_string_substream s =
    (Some (t\<lparr>bytes_left := length bs\<rparr>), t\<lparr>bytes_left := length rest\<rparr>)"
  using decode_length_delimited [OF assms(1-3)]
  by (simp add: pb_make_string_substream_def t_def del: advance_simps)

lemma close_substream:
  assumes "buffered t" "bytes_left sub = n - k" "i_source sub = shift_source k (i_source t)"
    and "k \<le> n" "i_errmsg sub = i_errmsg t"
  shows "pb_close_string_substream (t\<lparr>bytes_left := r\<rparr>) sub =
    (Some (), t\<lparr>i_source := shift_source n (i_source t), bytes_left := r\<rparr>)"
  using assms by (simp add: pb_close_string_substream_def istream_simps)

lemma ibytes_substream:
  "buffered s \<Longrightarrow> n \<le> bytes_left s \<Longrightarrow> ibytes (s\<lparr>bytes_left := n\<rparr>) = take n (ibytes s)"
  by (cases "i_source s") (simp_all add: ibytes_def min_def)

lemma read_string_delimited:
  assumes "buffered s" "ibytes s = delimited bs @ rest" "length bs < 2 ^ 32"
  shows "read_string s = (Some bs, advance (length (delimited bs)) s)"
proof -
  let ?k = "length (delimited bs) - length bs" and ?n = "length bs"
  define t where "t = advance ?k s"
  have left: "bytes_left s = length (delimited bs) + length rest"
    using length_ibytes [OF assms(1)] assms(2) by simp
  have t: "buffered t" "ibytes t = bs @ rest" "bytes_left t = ?n + length rest"
    using assms(1,2) left by (simp_all add: t_def delimited_def)
  have "pb_read (t\<lparr>bytes_left := ?n\<rparr>) False ?n = (Some bs, advance ?n (t\<lparr>bytes_left := ?n\<rparr>))"
    using t by (simp add: pb_read_buffer ibytes_substream)
  moreover have "pb_close_string_substream (t\<lparr>bytes_left := length rest\<rparr>)
      (advance ?n (t\<lparr>bytes_left := ?n\<rparr>)) = (Some (), advance (length (delimited bs)) s)"
    using close_substream [OF t(1), of "advance ?n (t\<lparr>bytes_left := ?n\<rparr>)" ?n ?n] left
    by (simp add: t_def advance_def delimited_def)
  ultimately show ?thesis
    using pb_make_string_substream_delimited [OF assms]
    by (simp add: read_string_def t_def)
qed

lemma pb_skip_string_delimited:
  assumes "buffered s" "ibytes s = delimited bs @ rest" "length bs < 2 ^ 32"
  shows "pb_skip_string s = (Some (), advance (length (delimited bs)) s)"
proof -
  have "length (delimited bs) - length bs + length bs = length (delimited bs)"
    by (simp add: delimited_def)
  then show ?thesis
    using decode_length_delimited [OF assms]
    by (simp add: pb_skip_string_def pb_read_buffer del: advance_simps)
qed

lemma one_varint_prefix:
  "one_varint bs \<Longrightarrow> dropWhile continues (bs @ rest) \<noteq> [] \<and>
     Suc (length (takeWhile continues (bs @ rest))) = length bs"
  by (induction bs) (auto split: if_splits)

lemma pb_skip_varint_one:
  assumes "buffered s" "one_varint bs" "ibytes s = bs @ rest"
  shows "pb_skip_varint s = (Some (), advance (length bs) s)"
proof -
  from one_varint_prefix [OF assms(2), of rest] assms(3)
  have "dropWhile continues (ibytes s) \<noteq> [] \<and>
      Suc (length (takeWhile continues (ibytes s))) = length bs"
    by simp
  with assms(1) show ?thesis
    by (cases "dropWhile continues (ibytes s)") (simp_all add: pb_skip_varint_result)
qed

lemma read_value_bytes:
  assumes "buffered s" "ibytes s = value_bytes v @ rest"
    and "\<forall>bs. v = String_Value bs \<longrightarrow> length bs < 2 ^ 32"
  shows "read_value s (value_wire_type v) = (Some v, advance (length (value_bytes v)) s)"
    and "pb_skip_field s (value_wire_type v) = (Some (), advance (length (value_bytes v)) s)"
proof -
  have left: "bytes_left s = length (value_bytes v) + length rest"
    using length_ibytes [OF assms(1)] assms(2) by simp
  show "read_value s (value_wire_type v) = (Some v, advance (length (value_bytes v)) s)"
    using assms left
      varint_result_Some [OF assms(1) one_varint_bytes length_varint_bytes_10, where 'b = 64]
      read_string_delimited [OF assms(1)]
    by (cases v) (simp_all add: read_value_def istream_simps le_word_le_bytes
        groups_value_varint_bytes)
  show "pb_skip_field s (value_wire_type v) = (Some (), advance (length (value_bytes v)) s)"
    using assms left pb_skip_varint_one [OF assms(1) one_varint_bytes]
      pb_skip_string_delimited [OF assms(1)]
    by (cases v) (simp_all add: pb_skip_field_def istream_simps)
qed

lemma record_tag:
  assumes "valid_record r"
  shows "pb_decode_tag (stream_of (record_bytes r @ rest)) =
    ((True, value_wire_type (snd r), fst r, False),
     advance (length (tag_bytes (value_wire_type (snd r)) (fst r))) (stream_of (record_bytes r @ rest)))"
  using assms
  by (intro pb_decode_tag_bytes) (auto simp: valid_record_def record_bytes_def value_wire_type_less)

lemma run_read_record:
  assumes "valid_record r"
  shows "run_decoder read_record (record_bytes r @ rest) = Some (r, rest)"
    and "run_decoder skip_record (record_bytes r @ rest) = Some ((), rest)"
proof -
  let ?s = "stream_of (record_bytes r @ rest) :: unit pb_istream"
    and ?t = "tag_bytes (value_wire_type (snd r)) (fst r)"
  have "ibytes (advance (length ?t) ?s) = value_bytes (snd r) @ rest"
    by (simp add: record_bytes_def)
  moreover have "\<forall>bs. snd r = String_Value bs \<longrightarrow> length bs < 2 ^ 32"
    using assms by (auto simp: valid_record_def)
  ultimately show "run_decoder read_record (record_bytes r @ rest) = Some (r, rest)"
    "run_decoder skip_record (record_bytes r @ rest) = Some ((), rest)"
    using read_value_bytes [of "advance (length ?t) ?s" "snd r" rest]
      record_tag [OF assms, of rest, where 'a = unit]
    by (simp_all add: run_decoder_def read_record_def skip_record_def record_bytes_def)
qed

interpretation record_codec: wire_codec record_bytes "run_decoder read_record" valid_record
  by unfold_locales (rule run_read_record)

lemma varint_result_take:
  "varint_result n (stream_of bs) =
     (let s = stream_of bs; p = takeWhile continues bs in
      if n \<le> length p then (None, pb_iset_error ''varint overflow'' (advance n s))
      else if p = bs then (None, pb_iset_error ''end-of-stream'' (advance (length p) s))
      else (Some (groups_value (take (Suc (length p)) bs)), advance (Suc (length p)) s))"
proof (cases "dropWhile continues bs")
  case Nil
  then have "takeWhile continues bs = bs" by simp
  then show ?thesis using Nil by (simp only: varint_result_def Let_def stream_of_simps list.case simp_thms if_True)
next
  case (Cons b t)
  let ?p = "takeWhile continues bs"
  have bs: "bs = ?p @ b # t" using Cons by (metis takeWhile_dropWhile_id)
  have take: "take (Suc (length ?p)) bs = ?p @ [b]"
    by (subst bs) simp
  have "?p \<noteq> bs" using bs by (metis append_self_conv list.distinct(1))
  then show ?thesis
    by (simp only: varint_result_def Let_def stream_of_simps Cons list.case if_False take)
qed

lemma length_svarint_bytes: "length (svarint_bytes v) \<le> 10"
  by (simp add: svarint_bytes_def length_varint_bytes_10)

section \<open>Properties of the stream layer\<close>

text \<open>
  Every 64-bit value survives the round trip through \<open>pb_encode_varint\<close> and
  \<open>pb_decode_varint\<close>: ten bytes of buffer are always enough, and the decoder gives the value back
  and stops exactly behind the encoding, whatever bytes follow.
\<close>

theorem varint_roundtrip:
  "\<exists>bs. run_encoder 10 (\<lambda>s. Some (pb_encode_varint s v)) = Some bs \<and>
     (\<forall>rest. run_decoder pb_decode_varint (bs @ rest) = Some (v, rest))"
  using run_encoder_encodes [OF encodes_varint, of v 10] length_varint_bytes_10 [of v]
  by (simp add: run_decode_varint)

text \<open>
  Every signed 64-bit value survives the zigzag round trip through \<open>pb_encode_svarint\<close> and
  \<open>pb_decode_svarint\<close>, the most negative one included.
\<close>

theorem svarint_roundtrip:
  "\<exists>bs. run_encoder 10 (\<lambda>s. Some (pb_encode_svarint s v)) = Some bs \<and>
     (\<forall>rest. run_decoder pb_decode_svarint (bs @ rest) = Some (v, rest))"
  using run_encoder_encodes [OF encodes_svarint, of v 10] length_svarint_bytes [of v]
  by (simp add: run_decode_svarint)

text \<open>
  C1: a sequence of fields (tag, then a varint, a 64-bit value, a length-delimited string or a
  32-bit value) written with \<open>pb_encode_tag\<close> and the value encoders is read back field by field with
  \<open>pb_decode_tag\<close>, the value decoders and \<open>pb_make_string_substream\<close> /
  \<open>pb_close_string_substream\<close>; nothing of what follows is touched.
\<close>

theorem wire_records_roundtrip:
  assumes "\<forall>r\<in>set rs. valid_record r"
    and "length (concat (map record_bytes rs)) \<le> n" "n < 2 ^ 64"
  shows "\<exists>bs. run_encoder n (\<lambda>s. write_records s rs) = Some bs \<and>
    (\<forall>rest. record_codec.dec_many (length rs) (bs @ rest) = Some (rs, rest))"
  using run_encoder_encodes [OF encodes_write_records, of rs n] assms
    record_codec.dec_many_enc [OF assms(1)]
  by simp

theorem wire_records_roundtrip_witness:
  "let rs = [(1, Varint_Value 5), (2, String_Value [7]), (3, Varint_Value 300)] in
    \<exists>bs. run_encoder 9 (\<lambda>s. write_records s rs) = Some bs \<and>
      (\<forall>rest. record_codec.dec_many (length rs) (bs @ rest) = Some (rs, rest))"
  unfolding Let_def
  by (rule wire_records_roundtrip)
    (simp_all add: valid_record_def record_bytes_def tag_bytes_def delimited_def varint_bytes_def
      varint_buffer_def varint_fill.simps Let_def)

text \<open>
  C2: skipping an unknown field consumes exactly what decoding it consumes: after
  \<open>pb_decode_tag\<close>, \<open>pb_skip_field\<close> leaves the bytes behind the field, for every wire type.
\<close>

theorem skip_consumes_field:
  assumes "valid_record r"
  shows "run_decoder skip_record (record_bytes r @ rest) = Some ((), rest) \<and>
    run_decoder read_record (record_bytes r @ rest) = Some (r, rest)"
  using run_read_record [OF assms] by simp

theorem skip_consumes_field_witness:
  "run_decoder skip_record (record_bytes (6, String_Value [1, 2]) @ [9]) = Some ((), [9]) \<and>
   run_decoder read_record (record_bytes (6, String_Value [1, 2]) @ [9]) =
     Some ((6, String_Value [1, 2]), [9])"
  by (rule skip_consumes_field) (simp add: valid_record_def)

text \<open>
  The whole behaviour of \<open>pb_decode_varint\<close> and \<open>pb_decode_varint32\<close> on a memory buffer: they
  report an overflow after ten (five) continuation bytes and the end of the stream when the bytes end
  first, having taken those bytes; otherwise they give the value of the groups of seven bits up to the
  first byte without the top bit, and stop behind it.
\<close>

theorem decode_varint_spec:
  "let s = stream_of bs; p = takeWhile continues bs in
     pb_decode_varint s =
       (if 10 \<le> length p then (None, pb_iset_error ''varint overflow'' (advance 10 s))
        else if p = bs then (None, pb_iset_error ''end-of-stream'' (advance (length p) s))
        else (Some (groups_value (take (Suc (length p)) bs)), advance (Suc (length p)) s)) \<and>
     pb_decode_varint32 s =
       (if 5 \<le> length p then (None, pb_iset_error ''varint overflow'' (advance 5 s))
        else if p = bs then (None, pb_iset_error ''end-of-stream'' (advance (length p) s))
        else (Some (groups_value (take (Suc (length p)) bs)), advance (Suc (length p)) s))"
  by (simp add: Let_def istream_simps varint_result_take)

text \<open>
  A length-delimited region is exactly what its substream gives: the substream made by
  \<open>pb_make_string_substream\<close> holds the bytes of the region, and whatever part of them has been read,
  \<open>pb_close_string_substream\<close> puts the parent stream right behind the region.
\<close>

theorem substream_exact:
  assumes "length bs < 2 ^ 32" "k \<le> length bs"
  shows "\<exists>sub s1 s2. pb_make_string_substream (stream_of (delimited bs @ rest) :: 's pb_istream) =
      (Some sub, s1) \<and> ibytes sub = bs \<and> pb_close_string_substream s1 (advance k sub) = (Some (), s2) \<and>
    ibytes s2 = rest"
proof -
  let ?s = "stream_of (delimited bs @ rest) :: 's pb_istream" and ?m = "length (delimited bs) - length bs"
  let ?n = "length bs"
  define t where "t = advance ?m ?s"
  have t: "buffered t" "ibytes t = bs @ rest" "bytes_left t = ?n + length rest"
    by (simp_all add: t_def delimited_def)
  let ?sub = "t\<lparr>bytes_left := ?n\<rparr>" and ?s1 = "t\<lparr>bytes_left := length rest\<rparr>"
    and ?s2 = "t\<lparr>i_source := shift_source ?n (i_source t), bytes_left := length rest\<rparr>"
  have "pb_make_string_substream ?s = (Some ?sub, ?s1)"
    using pb_make_string_substream_delimited [of ?s bs rest] assms(1) by (simp add: t_def)
  moreover have "ibytes ?sub = bs" using t by (simp add: ibytes_substream)
  moreover have "pb_close_string_substream ?s1 (advance k ?sub) = (Some (), ?s2)"
    using close_substream [OF t(1), of "advance k ?sub" ?n k] assms(2) by (simp add: advance_def)
  moreover have s2: "?s2 = advance ?n t" using t(3) by (simp add: advance_def)
  have "ibytes ?s2 = rest" unfolding s2 using t by simp
  ultimately show ?thesis by blast
qed

theorem substream_exact_witness:
  "\<exists>sub s1 s2. pb_make_string_substream (stream_of (delimited [1, 2, 3] @ [4]) :: unit pb_istream) =
      (Some sub, s1) \<and> ibytes sub = [1, 2, 3] \<and> pb_close_string_substream s1 (advance 2 sub) = (Some (), s2) \<and>
    ibytes s2 = [4]"
  by (rule substream_exact) simp_all

text \<open>
  C3: on a stream over a buffer, \<open>pb_write\<close> succeeds exactly when the bytes fit; then it stores them
  at the current position and nowhere else, and otherwise it leaves the buffer alone. The
  buffer keeps its length and the position stays inside it.
\<close>

theorem write_stays_in_buffer:
  assumes "sink s = BufWrite \<lparr>obytes = buf, opos = bytes_written s\<rparr>"
    and "bytes_written s \<le> max_size s" "max_size s = length buf"
    and "bytes_written s + length bs < 2 ^ 64"
  shows "\<exists>s' buf'. pb_write s bs (length bs) = (bytes_written s + length bs \<le> max_size s, s') \<and>
    sink s' = BufWrite \<lparr>obytes = buf', opos = bytes_written s'\<rparr> \<and>
    length buf' = length buf \<and> bytes_written s' \<le> max_size s' \<and> max_size s' = max_size s \<and>
    (if bytes_written s + length bs \<le> max_size s
     then bytes_written s' = bytes_written s + length bs \<and>
       buf' = take (bytes_written s) buf @ bs @ drop (bytes_written s + length bs) buf
     else bytes_written s' = bytes_written s \<and> buf' = buf)"
  using assms by (auto simp: pb_write_def buf_write_def)

theorem write_stays_in_buffer_witness:
  "\<exists>s' buf'. pb_write (pb_ostream_from_buffer [0, 0, 0] 3 :: unit pb_ostream) [1, 2] 2 = (True, s') \<and>
    sink s' = BufWrite \<lparr>obytes = buf', opos = 2\<rparr> \<and> buf' = [1, 2, 0]"
  using write_stays_in_buffer [of "pb_ostream_from_buffer [0, 0, 0] 3 :: unit pb_ostream" "[0, 0, 0]" "[1, 2]"]
  by (auto simp: pb_ostream_from_buffer_def numeral_2_eq_2 [symmetric])

end
