(* ===== verification/Pb_Common.thy ===== *)
theory Pb_Common
  imports Pb_Types
begin

text \<open>
  The field iterator of nanopb (\<open>pb_common.c\<close>), over a descriptor array that ends with
  \<^const>\<open>PB_LAST_FIELD\<close>; typed loads and stores of struct memory; and the environment that gives the
  constant tables and function pointers of the compiled program.
\<close>

section \<open>Typed memory access\<close>

definition load16 :: "mem \<Rightarrow> nat \<Rightarrow> u16" where
  "load16 m a = le_word (load_bytes m a 2)"

definition load32 :: "mem \<Rightarrow> nat \<Rightarrow> u32" where
  "load32 m a = le_word (load_bytes m a 4)"

definition load64 :: "mem \<Rightarrow> nat \<Rightarrow> u64" where
  "load64 m a = le_word (load_bytes m a 8)"

definition load_ptr :: "mem \<Rightarrow> nat \<Rightarrow> nat" where
  "load_ptr m a = unat (load64 m a)"

definition store16 :: "mem \<Rightarrow> nat \<Rightarrow> u16 \<Rightarrow> mem" where
  "store16 m a v = store_bytes m a (le_bytes 2 v)"

definition store32 :: "mem \<Rightarrow> nat \<Rightarrow> u32 \<Rightarrow> mem" where
  "store32 m a v = store_bytes m a (le_bytes 4 v)"

definition store64 :: "mem \<Rightarrow> nat \<Rightarrow> u64 \<Rightarrow> mem" where
  "store64 m a v = store_bytes m a (le_bytes 8 v)"

lemma load_bytes_store_le [simp]:
  "load_bytes (store_bytes m a (le_bytes n v)) a n = le_bytes n v"
  using load_store_same [of m a "le_bytes n v"] by simp

lemma load_store_words [mem_simps]:
  "load16 (store16 m a v2) a = v2"
  "load32 (store32 m a v4) a = v4"
  "load64 (store64 m a v8) a = v8"
  by (simp_all add: load16_def store16_def load32_def store32_def load64_def store64_def
      le_word_le_bytes)

section \<open>The environment\<close>

text \<open>
  Descriptor tables by number; extension types by address; the user's encode and decode functions by
  the address that a message struct or an extension type holds. A decode function gets the stream,
  the field, memory and the address of its argument, and gives the value returned, the stream and the
  memory.
\<close>

record pb_extension_type =
  xt_decode :: u64
  xt_encode :: u64
  xt_arg :: pb_field

record 's pb_env =
  tables :: "nat \<Rightarrow> pb_field list"
  ext_types :: "nat \<Rightarrow> pb_extension_type"
  encode_cb :: "u64 \<Rightarrow> 's pb_ostream \<Rightarrow> pb_field \<Rightarrow> mem \<Rightarrow> nat \<Rightarrow> bool \<times> 's pb_ostream"
  decode_cb :: "u64 \<Rightarrow> 's pb_istream \<Rightarrow> pb_field \<Rightarrow> mem \<Rightarrow> nat \<Rightarrow> bool \<times> 's pb_istream \<times> mem"
  ext_encode_cb :: "u64 \<Rightarrow> 's pb_ostream \<Rightarrow> mem \<Rightarrow> nat \<Rightarrow> bool \<times> 's pb_ostream"
  ext_decode_cb :: "u64 \<Rightarrow> 's pb_istream \<Rightarrow> mem \<Rightarrow> nat \<Rightarrow> u32 \<Rightarrow> pb_wire_type_t \<Rightarrow>
     bool \<times> 's pb_istream \<times> mem"

text \<open>The fields of \<open>pb_extension_t\<close> at an address: \<open>type\<close>, \<open>dest\<close>, \<open>next\<close> and \<open>found\<close>.\<close>

definition ext_type_of :: "'s pb_env \<Rightarrow> mem \<Rightarrow> nat \<Rightarrow> pb_extension_type" where
  "ext_type_of env m x = ext_types env (load_ptr m x)"

definition ext_dest :: "mem \<Rightarrow> nat \<Rightarrow> nat" where
  "ext_dest m x = load_ptr m (x + 8)"

definition ext_next :: "mem \<Rightarrow> nat \<Rightarrow> nat" where
  "ext_next m x = load_ptr m (x + 16)"

definition ext_found_addr :: "nat \<Rightarrow> nat" where
  "ext_found_addr x = x + 24"

section \<open>The field iterator\<close>

record pb_field_iter =
  it_start :: "pb_field list"
  it_pos :: nat
  required_field_index :: nat
  dest_struct :: nat
  pData :: nat
  pSize :: nat

definition it_field :: "pb_field_iter \<Rightarrow> pb_field" where
  "it_field it = it_start it ! it_pos it"

definition offset_addr :: "nat \<Rightarrow> int \<Rightarrow> nat" where
  "offset_addr a off = nat (int a + off)"

definition pb_field_iter_begin :: "pb_field list \<Rightarrow> nat \<Rightarrow> bool \<times> pb_field_iter" where
  "pb_field_iter_begin flds dest =
     (let f = flds ! 0; d = dest + unat (pf_data_offset f)
      in (pf_tag f \<noteq> 0,
          \<lparr>it_start = flds, it_pos = 0, required_field_index = 0, dest_struct = dest,
           pData = d, pSize = offset_addr d (pf_size_offset f)\<rparr>))"

definition pb_field_iter_next :: "pb_field_iter \<Rightarrow> bool \<times> pb_field_iter" where
  "pb_field_iter_next it =
     (let prev = it_field it in
      if pf_tag prev = 0 then (False, it)
      else
        let it1 = it\<lparr>it_pos := Suc (it_pos it)\<rparr>; f = it_field it1 in
        if pf_tag f = 0 then (False, snd (pb_field_iter_begin (it_start it) (dest_struct it)))
        else if PB_HTYPE (pf_type prev) = PB_HTYPE_ONEOF \<and> PB_HTYPE (pf_type f) = PB_HTYPE_ONEOF \<and>
                pf_data_offset f = PB_SIZE_MAX
          then (True, it1)
        else
          let prev_size =
                (if PB_ATYPE (pf_type prev) = PB_ATYPE_STATIC \<and>
                    PB_HTYPE (pf_type prev) = PB_HTYPE_REPEATED
                 then pf_data_size prev * pf_array_size prev
                 else if PB_ATYPE (pf_type prev) = PB_ATYPE_POINTER then 8
                 else pf_data_size prev);
              req = (if PB_HTYPE (pf_type prev) = PB_HTYPE_REQUIRED
                     then Suc (required_field_index it) else required_field_index it);
              d = pData it + prev_size + unat (pf_data_offset f)
          in (True, it1\<lparr>required_field_index := req, pData := d,
                        pSize := offset_addr d (pf_size_offset f)\<rparr>))"

text \<open>
  \<open>pb_field_iter_find\<close> goes round the descriptor array until it is back where it began. \<open>fuel\<close>
  bounds the number of fields visited; \<^term>\<open>None\<close> is a loop that did not come back in that many.
\<close>

fun find_loop ::
    "nat \<Rightarrow> (pb_field \<Rightarrow> bool) \<Rightarrow> nat \<Rightarrow> pb_field_iter \<Rightarrow> (bool \<times> pb_field_iter) option" where
  "find_loop 0 wanted start it = None"
| "find_loop (Suc fuel) wanted start it =
     (if wanted (it_field it) then Some (True, it)
      else let it' = snd (pb_field_iter_next it) in
        if it_pos it' \<noteq> start then find_loop fuel wanted start it' else Some (False, it'))"

definition pb_field_iter_find :: "pb_field_iter \<Rightarrow> u32 \<Rightarrow> (bool \<times> pb_field_iter) option" where
  "pb_field_iter_find it tg =
     find_loop (length (it_start it))
       (\<lambda>f. pf_tag f = tg \<and> PB_LTYPE (pf_type f) \<noteq> PB_LTYPE_EXTENSION) (it_pos it) it"

text \<open>The fields of a message, with the address of each, in the order in which
  \<open>pb_field_iter_begin\<close> and \<open>pb_field_iter_next\<close> give them.\<close>

fun iter_fields :: "nat \<Rightarrow> pb_field_iter \<Rightarrow> pb_field_iter list" where
  "iter_fields 0 it = [it]"
| "iter_fields (Suc n) it =
     (case pb_field_iter_next it of (again, it') \<Rightarrow> it # (if again then iter_fields n it' else []))"

definition message_iters :: "pb_field list \<Rightarrow> nat \<Rightarrow> pb_field_iter list" where
  "message_iters flds src =
     (case pb_field_iter_begin flds src of
        (nonempty, it) \<Rightarrow> if nonempty then iter_fields (length flds) it else [])"

end
