(* ===== verification/Pb_Iter.thy ===== *)
theory Pb_Iter
  imports Pb_Common
begin

text \<open>
  The field iterator of nanopb (\<open>pb_common.c\<close>): the iterator that stands on the field number \<open>i\<close> is
  \<open>iter_at flds d i\<close>, and \<open>pb_field_iter_begin\<close>, \<open>pb_field_iter_next\<close> and \<open>pb_field_iter_find\<close> are
  moves between such iterators.
\<close>

section \<open>Where the iterator stands\<close>

text \<open>The fields before the terminator; the address of each, and the number of required ones before
  it, by the rules that \<open>pb_field_iter_next\<close> follows.\<close>

abbreviation real_fields :: "pb_field list \<Rightarrow> pb_field list" where
  "real_fields flds \<equiv> takeWhile (\<lambda>f. pf_tag f \<noteq> 0) flds"

definition terminated :: "pb_field list \<Rightarrow> bool" where
  "terminated flds \<longleftrightarrow> (\<exists>f\<in>set flds. pf_tag f = 0)"

definition storage_size :: "pb_field \<Rightarrow> nat" where
  "storage_size f =
     (if PB_ATYPE (pf_type f) = PB_ATYPE_STATIC \<and> PB_HTYPE (pf_type f) = PB_HTYPE_REPEATED
      then pf_data_size f * pf_array_size f
      else if PB_ATYPE (pf_type f) = PB_ATYPE_POINTER then 8 else pf_data_size f)"

definition shares_union :: "pb_field \<Rightarrow> pb_field \<Rightarrow> bool" where
  "shares_union f g \<longleftrightarrow> PB_HTYPE (pf_type f) = PB_HTYPE_ONEOF \<and> PB_HTYPE (pf_type g) = PB_HTYPE_ONEOF \<and>
     pf_data_offset g = PB_SIZE_MAX"

fun field_addr :: "pb_field list \<Rightarrow> nat \<Rightarrow> nat \<Rightarrow> nat" where
  "field_addr flds d 0 = d + unat (pf_data_offset (flds ! 0))"
| "field_addr flds d (Suc i) =
     (if shares_union (flds ! i) (flds ! Suc i) then field_addr flds d i
      else field_addr flds d i + storage_size (flds ! i) + unat (pf_data_offset (flds ! Suc i)))"

fun size_addr :: "pb_field list \<Rightarrow> nat \<Rightarrow> nat \<Rightarrow> nat" where
  "size_addr flds d 0 = offset_addr (field_addr flds d 0) (pf_size_offset (flds ! 0))"
| "size_addr flds d (Suc i) =
     (if shares_union (flds ! i) (flds ! Suc i) then size_addr flds d i
      else offset_addr (field_addr flds d (Suc i)) (pf_size_offset (flds ! Suc i)))"

definition required_before :: "pb_field list \<Rightarrow> nat \<Rightarrow> nat" where
  "required_before flds i =
     length (filter (\<lambda>f. PB_HTYPE (pf_type f) = PB_HTYPE_REQUIRED) (take i flds))"

definition iter_at :: "pb_field list \<Rightarrow> nat \<Rightarrow> nat \<Rightarrow> pb_field_iter" where
  "iter_at flds d i =
     \<lparr>it_start = flds, it_pos = i, required_field_index = required_before flds i, dest_struct = d,
      pData = field_addr flds d i, pSize = size_addr flds d i\<rparr>"

lemma iter_at_simps [simp]:
  "it_start (iter_at flds d i) = flds" "it_pos (iter_at flds d i) = i"
  "required_field_index (iter_at flds d i) = required_before flds i"
  "dest_struct (iter_at flds d i) = d" "pData (iter_at flds d i) = field_addr flds d i"
  "pSize (iter_at flds d i) = size_addr flds d i" "it_field (iter_at flds d i) = flds ! i"
  by (simp_all add: iter_at_def it_field_def)

lemma real_fields_length: "terminated flds \<Longrightarrow> length (real_fields flds) < length flds"
  by (induction flds) (auto simp: terminated_def)

lemma real_field_tag: "i < length (real_fields flds) \<Longrightarrow> pf_tag (flds ! i) \<noteq> 0"
  using nth_mem [of i "real_fields flds"] set_takeWhileD takeWhile_nth by metis

lemma terminator_tag: "terminated flds \<Longrightarrow> pf_tag (flds ! length (real_fields flds)) = 0"
  using nth_length_takeWhile [of "\<lambda>f. pf_tag f \<noteq> 0" flds] real_fields_length by blast

lemma required_before_Suc: "i < length flds \<Longrightarrow> required_before flds (Suc i) =
    (if PB_HTYPE (pf_type (flds ! i)) = PB_HTYPE_REQUIRED
     then Suc (required_before flds i) else required_before flds i)"
  by (simp add: required_before_def take_Suc_conv_app_nth)

lemma iter_begin: "pb_field_iter_begin flds d = (pf_tag (flds ! 0) \<noteq> 0, iter_at flds d 0)"
  by (simp add: pb_field_iter_begin_def iter_at_def required_before_def Let_def)

lemma iter_next:
  assumes "terminated flds" "i < length (real_fields flds)"
  shows "pb_field_iter_next (iter_at flds d i) =
    (if Suc i < length (real_fields flds) then (True, iter_at flds d (Suc i))
     else (False, iter_at flds d 0))"
proof -
  have i: "i < length flds" using real_fields_length [OF assms(1)] assms(2) by simp
  show ?thesis
  proof (cases "Suc i < length (real_fields flds)")
    case True
    then show ?thesis
      using real_field_tag [OF assms(2)] real_field_tag [OF True] required_before_Suc [OF i]
      by (auto simp: pb_field_iter_next_def iter_at_def it_field_def Let_def shares_union_def
          storage_size_def)
  next
    case False
    then have "length (real_fields flds) = Suc i" using assms(2) by simp
    then have "pf_tag (flds ! Suc i) = 0" using terminator_tag [OF assms(1)] by simp
    then show ?thesis using False real_field_tag [OF assms(2)]
      by (simp add: pb_field_iter_next_def iter_at_def it_field_def Let_def iter_begin)
  qed
qed

lemma iter_fields_from:
  assumes "terminated flds" "i < length (real_fields flds)" "length (real_fields flds) - i \<le> Suc n"
  shows "iter_fields n (iter_at flds d i) = map (iter_at flds d) [i..<length (real_fields flds)]"
  using assms(2,3)
proof (induction n arbitrary: i)
  case 0
  then have "length (real_fields flds) = Suc i" by simp
  then show ?case by simp
next
  case (Suc n)
  show ?case
  proof (cases "Suc i < length (real_fields flds)")
    case True
    with Suc show ?thesis by (simp add: iter_next [OF assms(1)] upt_conv_Cons)
  next
    case False
    then have "length (real_fields flds) = Suc i" using Suc.prems(1) by simp
    with Suc.prems(1) show ?thesis by (simp add: iter_next [OF assms(1)])
  qed
qed

lemma message_iters_at:
  assumes "terminated flds"
  shows "message_iters flds d = map (iter_at flds d) [0..<length (real_fields flds)]"
proof (cases flds)
  case Nil
  with assms show ?thesis by (simp add: terminated_def)
next
  case (Cons f fs)
  show ?thesis
    using real_fields_length [OF assms] iter_fields_from [OF assms, of 0 "length flds" d] Cons
    by (auto simp: message_iters_def iter_begin simp del: iter_fields.simps)
qed

section \<open>Searching\<close>

text \<open>The positions that a search which began at \<open>start\<close> visits from \<open>i\<close> on.\<close>

definition circuit :: "nat \<Rightarrow> nat \<Rightarrow> nat \<Rightarrow> nat list" where
  "circuit n start i = (if start \<le> i then [i..<n] @ [0..<start] else [i..<start])"

lemma set_circuit [simp]: "i < n \<Longrightarrow> set (circuit n i i) = {0..<n}"
  by (auto simp: circuit_def)

lemma circuit_step:
  assumes "i < n" "start < n"
  shows "circuit n start i =
    (let j = if Suc i < n then Suc i else 0 in if j = start then [i] else i # circuit n start j)"
proof (cases "Suc i < n")
  case True
  with assms show ?thesis by (auto simp: circuit_def upt_conv_Cons)
next
  case False
  then have "n = Suc i" using assms by simp
  with assms show ?thesis by (auto simp: circuit_def)
qed

lemma find_loop_circuit:
  assumes "terminated flds" "n = length (real_fields flds)" "i < n" "start < n"
    and "length (circuit n start i) \<le> fuel"
  shows "find_loop fuel wanted start (iter_at flds d i) =
    (case List.find (\<lambda>j. wanted (flds ! j)) (circuit n start i) of
       None \<Rightarrow> Some (False, iter_at flds d start)
     | Some j \<Rightarrow> Some (True, iter_at flds d j))"
  using assms(3,5)
proof (induction fuel arbitrary: i)
  case 0
  then show ?case using circuit_step [OF _ assms(4), of i] by (auto simp: Let_def split: if_splits)
next
  case (Suc fuel)
  let ?j = "if Suc i < n then Suc i else 0"
  have step: "snd (pb_field_iter_next (iter_at flds d i)) = iter_at flds d ?j"
    using iter_next [OF assms(1), folded assms(2), OF Suc.prems(1), of d] by simp
  have j: "?j < n" using Suc.prems(1) by simp
  note circuit = circuit_step [OF Suc.prems(1) assms(4), unfolded Let_def]
  show ?case
  proof (cases "?j = start")
    case True
    then show ?thesis using circuit step by (simp add: Let_def)
  next
    case False
    then have "length (circuit n start ?j) \<le> fuel" using circuit Suc.prems(2) by simp
    from Suc.IH [OF j this] False circuit step show ?thesis by (simp add: Let_def)
  qed
qed

lemma length_circuit_start: "i < n \<Longrightarrow> length (circuit n i i) = n"
  by (simp add: circuit_def)

lemma find_loop_at:
  assumes "terminated flds" "i < length (real_fields flds)"
  shows "find_loop (length flds) wanted i (iter_at flds d i) =
    (case List.find (\<lambda>j. wanted (flds ! j)) (circuit (length (real_fields flds)) i i) of
       None \<Rightarrow> Some (False, iter_at flds d i)
     | Some j \<Rightarrow> Some (True, iter_at flds d j))"
  using find_loop_circuit [OF assms(1) refl assms(2) assms(2)] length_circuit_start [OF assms(2)]
    real_fields_length [OF assms(1)] by simp

lemma pb_field_iter_find_at:
  assumes "terminated flds" "i < length (real_fields flds)"
  shows "pb_field_iter_find (iter_at flds d i) tg =
    (case List.find (\<lambda>j. pf_tag (flds ! j) = tg \<and> PB_LTYPE (pf_type (flds ! j)) \<noteq> PB_LTYPE_EXTENSION)
        (circuit (length (real_fields flds)) i i) of
       None \<Rightarrow> Some (False, iter_at flds d i)
     | Some j \<Rightarrow> Some (True, iter_at flds d j))"
  using find_loop_at [OF assms] by (simp add: pb_field_iter_find_def)

lemma find_circuit_Some:
  assumes "List.find P (circuit n i i) = Some j" "i < n"
  shows "P j \<and> j < n"
proof -
  from assms(1) have "P j" "j \<in> set (circuit n i i)"
    by (auto simp: find_Some_iff)
  with assms(2) show ?thesis by simp
qed

lemma find_circuit_None: "i < n \<Longrightarrow> List.find P (circuit n i i) = None \<longleftrightarrow> (\<forall>j<n. \<not> P j)"
  by (auto simp: find_None_iff)

text \<open>A message with a varint, a packed array and a submessage, at the address 16.\<close>

definition example_inner :: "pb_field list" where
  "example_inner =
     [\<lparr>pf_tag = 1, pf_type = 0x01, pf_data_offset = 0, pf_size_offset = 0, pf_data_size = 4,
       pf_array_size = 0, pf_ptr = PNull\<rparr>, PB_LAST_FIELD]"

definition example_outer :: "pb_field list" where
  "example_outer =
     [\<lparr>pf_tag = 1, pf_type = 0x01, pf_data_offset = 0, pf_size_offset = 0, pf_data_size = 4,
       pf_array_size = 0, pf_ptr = PNull\<rparr>,
      \<lparr>pf_tag = 2, pf_type = 0x21, pf_data_offset = 4, pf_size_offset = - 4, pf_data_size = 1,
       pf_array_size = 4, pf_ptr = PNull\<rparr>,
      \<lparr>pf_tag = 3, pf_type = 0x07, pf_data_offset = 0, pf_size_offset = 0, pf_data_size = 4,
       pf_array_size = 0, pf_ptr = PFields 0\<rparr>, PB_LAST_FIELD]"

lemmas iterator_simps = message_iters_def pb_field_iter_begin_def pb_field_iter_next_def
  it_field_def offset_addr_def Let_def PB_LAST_FIELD_def PB_ATYPE_def PB_HTYPE_def PB_LTYPE_def

definition example_env :: "unit pb_env" where
  "example_env =
     \<lparr>tables = (\<lambda>_. example_inner),
      ext_types = (\<lambda>_. \<lparr>xt_decode = 0, xt_encode = 0, xt_arg = PB_LAST_FIELD\<rparr>),
      encode_cb = (\<lambda>_ s _ _ _. (True, s)), decode_cb = (\<lambda>_ s _ m _. (False, s, m)),
      ext_encode_cb = (\<lambda>_ s _ _. (True, s)), ext_decode_cb = (\<lambda>_ s m _ _ _. (True, s, m))\<rparr>"

lemma example_tables: "tables example_env n = example_inner"
  by (simp add: example_env_def)

text \<open>
  C4: going through a message with \<open>pb_field_iter_begin\<close> and \<open>pb_field_iter_next\<close> visits every field
  of a terminated descriptor array exactly once and in order, and gives at each the address of the
  field and of its size or presence flag as the offsets of the descriptors say, and the number of
  required fields before it.
\<close>

theorem iteration_visits_all:
  assumes "\<exists>f\<in>set flds. pf_tag f = 0"
  shows "map (\<lambda>it. (it_pos it, it_field it, pData it, pSize it, required_field_index it))
      (message_iters flds d) =
    map (\<lambda>i. (i, flds ! i, field_addr flds d i, size_addr flds d i, required_before flds i))
      [0..<length (takeWhile (\<lambda>f. pf_tag f \<noteq> 0) flds)]"
  using message_iters_at [of flds d] assms by (simp add: terminated_def comp_def)

lemma addr_numeral:
  "field_addr flds d (numeral k) = (let i = pred_numeral k in
     if shares_union (flds ! i) (flds ! numeral k) then field_addr flds d i
     else field_addr flds d i + storage_size (flds ! i) + unat (pf_data_offset (flds ! numeral k)))"
  "size_addr flds d (numeral k) = (let i = pred_numeral k in
     if shares_union (flds ! i) (flds ! numeral k) then size_addr flds d i
     else offset_addr (field_addr flds d (numeral k)) (pf_size_offset (flds ! numeral k)))"
  by (simp_all add: numeral_eq_Suc Let_def)

theorem iteration_visits_all_witness:
  "map (\<lambda>it. (it_pos it, it_field it, pData it, pSize it, required_field_index it))
      (message_iters example_outer 16) =
    [(0, example_outer ! 0, 16, 16, 0), (1, example_outer ! 1, 24, 20, 1), (2, example_outer ! 2, 28, 28, 1)]"
  by (subst iteration_visits_all)
    (simp_all add: example_outer_def PB_LAST_FIELD_def upt_rec required_before_def offset_addr_def
      shares_union_def storage_size_def PB_ATYPE_def PB_HTYPE_def addr_numeral Let_def)

text \<open>
  C5: from wherever the iterator stands, \<open>pb_field_iter_find\<close> returns: true with the iterator on a
  field that has the tag and is no extension field, or false with the iterator where it was
  exactly when the message has no such field. It never walks past the terminator.
\<close>

theorem iter_find_correct:
  assumes "terminated flds" "i < length (real_fields flds)"
  shows "\<exists>found j. pb_field_iter_find (iter_at flds d i) tg = Some (found, iter_at flds d j) \<and>
    j < length (real_fields flds) \<and>
    (found \<longrightarrow> pf_tag (flds ! j) = tg \<and> PB_LTYPE (pf_type (flds ! j)) \<noteq> PB_LTYPE_EXTENSION) \<and>
    (\<not> found \<longrightarrow> j = i \<and> (\<forall>k<length (real_fields flds).
       pf_tag (flds ! k) \<noteq> tg \<or> PB_LTYPE (pf_type (flds ! k)) = PB_LTYPE_EXTENSION))"
  using pb_field_iter_find_at [OF assms, of d tg] assms(2)
  by (auto split: option.splits dest: find_circuit_Some [OF _ assms(2)]
      simp: find_circuit_None [OF assms(2)])

lemma example_outer_facts:
  "terminated example_outer" "length (real_fields example_outer) = 3"
  "j < 3 \<Longrightarrow> pf_tag (example_outer ! j) = 2 \<longleftrightarrow> j = 1"
  "pf_tag (example_outer ! 1) = 2" "PB_LTYPE (pf_type (example_outer ! 1)) \<noteq> PB_LTYPE_EXTENSION"
proof -
  assume "j < 3"
  then have "j = 0 \<or> j = 1 \<or> j = 2" by auto
  then show "pf_tag (example_outer ! j) = 2 \<longleftrightarrow> j = 1" by (auto simp: example_outer_def)
qed (simp_all add: example_outer_def terminated_def PB_LAST_FIELD_def PB_LTYPE_def)

theorem iter_find_correct_witness:
  "pb_field_iter_find (iter_at example_outer 16 2) 2 = Some (True, iter_at example_outer 16 1)"
proof -
  have "2 < length (real_fields example_outer)" by (simp add: example_outer_facts)
  from iter_find_correct [OF example_outer_facts(1) this, of 16 2]
  obtain found j where *: "pb_field_iter_find (iter_at example_outer 16 2) 2 =
      Some (found, iter_at example_outer 16 j)" "j < 3" "found \<longrightarrow> pf_tag (example_outer ! j) = 2"
    "\<not> found \<longrightarrow> (\<forall>k<3. pf_tag (example_outer ! k) \<noteq> 2 \<or>
       PB_LTYPE (pf_type (example_outer ! k)) = PB_LTYPE_EXTENSION)"
    unfolding example_outer_facts(2) by blast
  from *(4) example_outer_facts(4,5) have found by (cases found) auto
  with * example_outer_facts(3) [of j] show ?thesis by simp
qed

end
