(* ===== verification/Pb_Encode.thy ===== *)
theory Pb_Encode
  imports Pb_Encode_Stream Pb_Common
begin

text \<open>
  The message encoder of nanopb (\<open>pb_encode.c\<close>). Struct memory is read only; the output goes to
  the stream. The mutual recursion of the C functions goes through \<open>pb_encode\<close>: every function
  that can reach it takes it as the argument \<open>rec\<close>, and \<open>pb_encode\<close> closes the recursion with a
  fuel that bounds the nesting of submessages. The outcome \<^term>\<open>None\<close> is a call that does not
  return: the fuel is used up, a list of extensions is longer than the fuel, or the code calls
  through the null entry of \<open>PB_ENCODERS\<close>.
\<close>

section \<open>Field encoders\<close>

definition enc_signed_value :: "nat \<Rightarrow> mem \<Rightarrow> nat \<Rightarrow> 64 word option" where
  "enc_signed_value sz m src =
     (if sz = 1 then Some (scast (m src))
      else if sz = 2 then Some (scast (load16 m src))
      else if sz = 4 then Some (scast (load32 m src))
      else if sz = 8 then Some (load64 m src)
      else None)"

definition enc_unsigned_value :: "nat \<Rightarrow> mem \<Rightarrow> nat \<Rightarrow> 64 word option" where
  "enc_unsigned_value sz m src =
     (if sz = 1 then Some (ucast (m src))
      else if sz = 2 then Some (ucast (load16 m src))
      else if sz = 4 then Some (ucast (load32 m src))
      else if sz = 8 then Some (load64 m src)
      else None)"

definition pb_enc_varint :: "'s pb_ostream \<Rightarrow> pb_field \<Rightarrow> mem \<Rightarrow> nat \<Rightarrow> bool \<times> 's pb_ostream" where
  "pb_enc_varint s field m src =
     (case enc_signed_value (pf_data_size field) m src of
        None \<Rightarrow> (False, pb_oset_error ''invalid data_size'' s)
      | Some v \<Rightarrow> pb_encode_varint s v)"

definition pb_enc_uvarint :: "'s pb_ostream \<Rightarrow> pb_field \<Rightarrow> mem \<Rightarrow> nat \<Rightarrow> bool \<times> 's pb_ostream" where
  "pb_enc_uvarint s field m src =
     (case enc_unsigned_value (pf_data_size field) m src of
        None \<Rightarrow> (False, pb_oset_error ''invalid data_size'' s)
      | Some v \<Rightarrow> pb_encode_varint s v)"

definition pb_enc_svarint :: "'s pb_ostream \<Rightarrow> pb_field \<Rightarrow> mem \<Rightarrow> nat \<Rightarrow> bool \<times> 's pb_ostream" where
  "pb_enc_svarint s field m src =
     (case enc_signed_value (pf_data_size field) m src of
        None \<Rightarrow> (False, pb_oset_error ''invalid data_size'' s)
      | Some v \<Rightarrow> pb_encode_svarint s v)"

definition pb_enc_fixed32 :: "'s pb_ostream \<Rightarrow> pb_field \<Rightarrow> mem \<Rightarrow> nat \<Rightarrow> bool \<times> 's pb_ostream" where
  "pb_enc_fixed32 s field m src = pb_encode_fixed32 s (load32 m src)"

definition pb_enc_fixed64 :: "'s pb_ostream \<Rightarrow> pb_field \<Rightarrow> mem \<Rightarrow> nat \<Rightarrow> bool \<times> 's pb_ostream" where
  "pb_enc_fixed64 s field m src = pb_encode_fixed64 s (load64 m src)"

text \<open>\<open>src\<close> points to a \<open>pb_bytes_array_t\<close>: the size, then the bytes at offset 4.\<close>

definition pb_enc_bytes :: "'s pb_ostream \<Rightarrow> pb_field \<Rightarrow> mem \<Rightarrow> nat \<Rightarrow> bool \<times> 's pb_ostream" where
  "pb_enc_bytes s field m src =
     (let n = unat (load32 m src) in
      if src = 0 then pb_encode_string s [] 0
      else if PB_ATYPE (pf_type field) = PB_ATYPE_STATIC \<and>
              pf_data_size field < PB_BYTES_ARRAY_T_ALLOCSIZE n
        then (False, pb_oset_error ''bytes size exceeded'' s)
      else pb_encode_string s (load_bytes m (src + 4) n) n)"

function strnlen_loop :: "mem \<Rightarrow> nat \<Rightarrow> nat \<Rightarrow> nat \<Rightarrow> nat" where
  "strnlen_loop m p sz max_sz =
     (if sz < max_sz \<and> m p \<noteq> 0 then strnlen_loop m (Suc p) (Suc sz) max_sz else sz)"
  by pat_completeness auto
termination
  by (relation "measure (\<lambda>(m, p, sz, max_sz). max_sz - sz)") auto

declare strnlen_loop.simps [simp del]

definition pb_enc_string :: "'s pb_ostream \<Rightarrow> pb_field \<Rightarrow> mem \<Rightarrow> nat \<Rightarrow> bool \<times> 's pb_ostream" where
  "pb_enc_string s field m src =
     (let max_sz = (if PB_ATYPE (pf_type field) = PB_ATYPE_POINTER then size_max
                    else pf_data_size field);
          sz = (if src = 0 then 0 else strnlen_loop m src 0 max_sz)
      in pb_encode_string s (load_bytes m src sz) sz)"

definition pb_enc_fixed_length_bytes ::
    "'s pb_ostream \<Rightarrow> pb_field \<Rightarrow> mem \<Rightarrow> nat \<Rightarrow> bool \<times> 's pb_ostream" where
  "pb_enc_fixed_length_bytes s field m src =
     pb_encode_string s (load_bytes m src (pf_data_size field)) (pf_data_size field)"

section \<open>Submessages\<close>

definition pb_encode_submessage ::
    "'s enc_msg \<Rightarrow> 's pb_ostream \<Rightarrow> pb_field list \<Rightarrow> nat \<Rightarrow> 's enc_result" where
  "pb_encode_submessage rec s flds src =
     (case rec PB_OSTREAM_SIZING flds src of
        None \<Rightarrow> None
      | Some (False, sub) \<Rightarrow> Some (False, s\<lparr>o_errmsg := o_errmsg sub\<rparr>)
      | Some (True, sub) \<Rightarrow>
          (let sz = bytes_written sub in
           enc_then (Some (pb_encode_varint s (of_nat sz))) (\<lambda>s.
             if \<not> has_callback (sink s) then Some (pb_write s [] sz)
             else if max_size s < size_add (bytes_written s) sz
               then Some (False, pb_oset_error ''stream full'' s)
             else case rec \<lparr>sink = sink s, max_size = sz, bytes_written = 0, o_errmsg = None\<rparr>
                         flds src of
                 None \<Rightarrow> None
               | Some (status, sub) \<Rightarrow>
                   (let s' = s\<lparr>sink := sink sub,
                               bytes_written := size_add (bytes_written s) (bytes_written sub),
                               o_errmsg := o_errmsg sub\<rparr>
                    in if bytes_written sub \<noteq> sz
                       then Some (False, pb_oset_error ''submsg size changed'' s')
                       else Some (status, s')))))"

definition pb_enc_submessage ::
    "'s enc_msg \<Rightarrow> 's pb_env \<Rightarrow> 's pb_ostream \<Rightarrow> pb_field \<Rightarrow> nat \<Rightarrow> 's enc_result" where
  "pb_enc_submessage rec env s field src =
     (case pf_ptr field of
        PFields t \<Rightarrow> pb_encode_submessage rec s (tables env t) src
      | _ \<Rightarrow> Some (False, pb_oset_error ''invalid field descriptor'' s))"

text \<open>The call through \<open>PB_ENCODERS\<close>.\<close>

definition call_encoder ::
    "'s enc_msg \<Rightarrow> 's pb_env \<Rightarrow> mem \<Rightarrow> 's pb_ostream \<Rightarrow> pb_field \<Rightarrow> nat \<Rightarrow> 's enc_result" where
  "call_encoder rec env m s field src =
     (let l = PB_LTYPE (pf_type field) in
      if l = PB_LTYPE_VARINT then Some (pb_enc_varint s field m src)
      else if l = PB_LTYPE_UVARINT then Some (pb_enc_uvarint s field m src)
      else if l = PB_LTYPE_SVARINT then Some (pb_enc_svarint s field m src)
      else if l = PB_LTYPE_FIXED32 then Some (pb_enc_fixed32 s field m src)
      else if l = PB_LTYPE_FIXED64 then Some (pb_enc_fixed64 s field m src)
      else if l = PB_LTYPE_BYTES then Some (pb_enc_bytes s field m src)
      else if l = PB_LTYPE_STRING then Some (pb_enc_string s field m src)
      else if l = PB_LTYPE_SUBMESSAGE then pb_enc_submessage rec env s field src
      else if l = PB_LTYPE_FIXED_LENGTH_BYTES then Some (pb_enc_fixed_length_bytes s field m src)
      else None)"

section \<open>Arrays\<close>

text \<open>\<open>count\<close> items from \<open>p\<close> on, each given to \<open>item\<close>.\<close>

fun encode_items ::
    "('s pb_ostream \<Rightarrow> nat \<Rightarrow> 's enc_result) \<Rightarrow> nat \<Rightarrow> nat \<Rightarrow> 's pb_ostream \<Rightarrow> nat \<Rightarrow> 's enc_result"
  where
  "encode_items item stride 0 s p = Some (True, s)"
| "encode_items item stride (Suc count) s p =
     enc_then (item s p) (\<lambda>s. encode_items item stride count s (p + stride))"

definition packed_size ::
    "('s pb_ostream \<Rightarrow> nat \<Rightarrow> 's enc_result) \<Rightarrow> pb_field \<Rightarrow> nat \<Rightarrow> nat \<Rightarrow> (bool \<times> nat) option" where
  "packed_size item field count p =
     (if PB_LTYPE (pf_type field) = PB_LTYPE_FIXED32 then Some (True, 4 * count)
      else if PB_LTYPE (pf_type field) = PB_LTYPE_FIXED64 then Some (True, 8 * count)
      else case encode_items item (pf_data_size field) count PB_OSTREAM_SIZING p of
          None \<Rightarrow> None
        | Some (False, _) \<Rightarrow> Some (False, 0)
        | Some (True, sizestream) \<Rightarrow> Some (True, bytes_written sizestream))"

definition encode_array ::
    "'s enc_msg \<Rightarrow> 's pb_env \<Rightarrow> mem \<Rightarrow> 's pb_ostream \<Rightarrow> pb_field \<Rightarrow> nat \<Rightarrow> nat \<Rightarrow> 's enc_result" where
  "encode_array rec env m s field p count =
     (let item = (\<lambda>s q. call_encoder rec env m s field q) in
      if count = 0 then Some (True, s)
      else if PB_ATYPE (pf_type field) \<noteq> PB_ATYPE_POINTER \<and> pf_array_size field < count
        then Some (False, pb_oset_error ''array max size exceeded'' s)
      else if PB_LTYPE (pf_type field) \<le> PB_LTYPE_LAST_PACKABLE then
        enc_then (Some (pb_encode_tag s PB_WT_STRING (pf_tag field))) (\<lambda>s.
          case packed_size item field count p of
            None \<Rightarrow> None
          | Some (False, _) \<Rightarrow> Some (False, s)
          | Some (True, sz) \<Rightarrow>
              enc_then (Some (pb_encode_varint s (of_nat sz))) (\<lambda>s.
                if \<not> has_callback (sink s) then Some (pb_write s [] sz)
                else encode_items item (pf_data_size field) count s p))
      else
        encode_items
          (\<lambda>s q. enc_then (Some (pb_encode_tag_for_field s field)) (\<lambda>s.
             if PB_ATYPE (pf_type field) = PB_ATYPE_POINTER \<and>
                (PB_LTYPE (pf_type field) = PB_LTYPE_STRING \<or>
                 PB_LTYPE (pf_type field) = PB_LTYPE_BYTES)
             then item s (load_ptr m q) else item s q))
          (pf_data_size field) count s p)"

section \<open>The proto3 test for a default value\<close>

fun all_option :: "('a \<Rightarrow> bool option) \<Rightarrow> 'a list \<Rightarrow> bool option" where
  "all_option f [] = Some True"
| "all_option f (x # xs) =
     (case f x of None \<Rightarrow> None | Some False \<Rightarrow> Some False | Some True \<Rightarrow> all_option f xs)"

fun pb_check_proto3_default_value ::
    "nat \<Rightarrow> 's pb_env \<Rightarrow> mem \<Rightarrow> pb_field \<Rightarrow> nat \<Rightarrow> bool option" where
  "pb_check_proto3_default_value 0 env m field p = None"
| "pb_check_proto3_default_value (Suc fuel) env m field p =
     (let l = PB_LTYPE (pf_type field);
          all_zero = list_all (\<lambda>b. b = 0) (load_bytes m p (pf_data_size field)) in
      if PB_ATYPE (pf_type field) = PB_ATYPE_STATIC then
        (if l = PB_LTYPE_BYTES then Some (load32 m p = 0)
         else if l = PB_LTYPE_STRING then Some (m p = 0)
         else if l = PB_LTYPE_FIXED_LENGTH_BYTES then Some (pf_data_size field = 0)
         else if l = PB_LTYPE_SUBMESSAGE then
           (case pf_ptr field of
              PFields t \<Rightarrow>
                all_option (\<lambda>it. pb_check_proto3_default_value fuel env m (it_field it) (pData it))
                  (message_iters (tables env t) p)
            | _ \<Rightarrow> None)
         else Some all_zero)
      else Some all_zero)"

section \<open>Fields\<close>

definition encode_basic_field ::
    "nat \<Rightarrow> 's enc_msg \<Rightarrow> 's pb_env \<Rightarrow> mem \<Rightarrow> 's pb_ostream \<Rightarrow> pb_field \<Rightarrow> nat \<Rightarrow> 's enc_result" where
  "encode_basic_field fuel rec env m s field p =
     (let h = PB_HTYPE (pf_type field);
          pointer = (PB_ATYPE (pf_type field) = PB_ATYPE_POINTER);
          size_addr = offset_addr p (pf_size_offset field);
          q = (if pointer then load_ptr m p else p);
          put = (\<lambda>s. enc_then (Some (pb_encode_tag_for_field s field)) (\<lambda>s.
                   call_encoder rec env m s field q))
      in case (if pf_size_offset field = 0 \<and> h = PB_HTYPE_OPTIONAL
               then map_option Not (pb_check_proto3_default_value fuel env m field p)
               else Some True) of
          None \<Rightarrow> None
        | Some checked \<Rightarrow>
          (let implicit_has = (if pointer then q \<noteq> 0 else checked);
               has = (if pf_size_offset field = 0 then implicit_has else m size_addr \<noteq> 0);
               sz = (if pf_size_offset field = 0 then of_bool implicit_has else load32 m size_addr)
           in if h = PB_HTYPE_REQUIRED then
                (if q = 0 then Some (False, pb_oset_error ''missing required field'' s) else put s)
              else if h = PB_HTYPE_OPTIONAL then (if has then put s else Some (True, s))
              else if h = PB_HTYPE_REPEATED then encode_array rec env m s field q (unat sz)
              else (if sz = pf_tag field then put s else Some (True, s))))"

text \<open>A \<open>pb_callback_t\<close> holds the function at offset 0 and the argument at offset 8.\<close>

definition encode_callback_field ::
    "'s pb_env \<Rightarrow> mem \<Rightarrow> 's pb_ostream \<Rightarrow> pb_field \<Rightarrow> nat \<Rightarrow> bool \<times> 's pb_ostream" where
  "encode_callback_field env m s field p =
     (let fn = load64 m p in
      if fn \<noteq> 0 then
        (case encode_cb env fn s field m (p + 8) of
           (False, s') \<Rightarrow> (False, pb_oset_error ''callback error'' s')
         | (True, s') \<Rightarrow> (True, s'))
      else (True, s))"

definition encode_field ::
    "nat \<Rightarrow> 's enc_msg \<Rightarrow> 's pb_env \<Rightarrow> mem \<Rightarrow> 's pb_ostream \<Rightarrow> pb_field \<Rightarrow> nat \<Rightarrow> 's enc_result" where
  "encode_field fuel rec env m s field p =
     (let a = PB_ATYPE (pf_type field) in
      if a = PB_ATYPE_STATIC \<or> a = PB_ATYPE_POINTER
        then encode_basic_field fuel rec env m s field p
      else if a = PB_ATYPE_CALLBACK then Some (encode_callback_field env m s field p)
      else Some (False, pb_oset_error ''invalid field type'' s))"

definition default_extension_encoder ::
    "nat \<Rightarrow> 's enc_msg \<Rightarrow> 's pb_env \<Rightarrow> mem \<Rightarrow> 's pb_ostream \<Rightarrow> nat \<Rightarrow> 's enc_result" where
  "default_extension_encoder fuel rec env m s x =
     (let field = xt_arg (ext_type_of env m x) in
      if PB_ATYPE (pf_type field) = PB_ATYPE_POINTER
        then encode_field fuel rec env m s field (x + 8)
        else encode_field fuel rec env m s field (ext_dest m x))"

fun encode_extensions ::
    "nat \<Rightarrow> nat \<Rightarrow> 's enc_msg \<Rightarrow> 's pb_env \<Rightarrow> mem \<Rightarrow> 's pb_ostream \<Rightarrow> nat \<Rightarrow> 's enc_result" where
  "encode_extensions 0 fuel rec env m s x = None"
| "encode_extensions (Suc n) fuel rec env m s x =
     (if x = 0 then Some (True, s)
      else
        let fn = xt_encode (ext_type_of env m x) in
        enc_then (if fn \<noteq> 0 then Some (ext_encode_cb env fn s m x)
                  else default_extension_encoder fuel rec env m s x)
          (\<lambda>s. encode_extensions n fuel rec env m s (ext_next m x)))"

definition encode_extension_field ::
    "nat \<Rightarrow> 's enc_msg \<Rightarrow> 's pb_env \<Rightarrow> mem \<Rightarrow> 's pb_ostream \<Rightarrow> nat \<Rightarrow> 's enc_result" where
  "encode_extension_field fuel rec env m s p =
     encode_extensions fuel fuel rec env m s (load_ptr m p)"

section \<open>Messages\<close>

fun encode_all ::
    "('s pb_ostream \<Rightarrow> 'f \<Rightarrow> 's enc_result) \<Rightarrow> 's pb_ostream \<Rightarrow> 'f list \<Rightarrow> 's enc_result" where
  "encode_all f s [] = Some (True, s)"
| "encode_all f s (x # xs) = enc_then (f s x) (\<lambda>s. encode_all f s xs)"

definition encode_iter_field ::
    "nat \<Rightarrow> 's enc_msg \<Rightarrow> 's pb_env \<Rightarrow> mem \<Rightarrow> 's pb_ostream \<Rightarrow> pb_field_iter \<Rightarrow> 's enc_result" where
  "encode_iter_field fuel rec env m s it =
     (if PB_LTYPE (pf_type (it_field it)) = PB_LTYPE_EXTENSION
      then encode_extension_field fuel rec env m s (pData it)
      else encode_field fuel rec env m s (it_field it) (pData it))"

fun pb_encode :: "nat \<Rightarrow> 's pb_env \<Rightarrow> mem \<Rightarrow> 's enc_msg" where
  "pb_encode 0 env m s flds src = None"
| "pb_encode (Suc fuel) env m s flds src =
     encode_all (encode_iter_field fuel (pb_encode fuel env m) env m) s (message_iters flds src)"

definition pb_encode_delimited :: "nat \<Rightarrow> 's pb_env \<Rightarrow> mem \<Rightarrow> 's enc_msg" where
  "pb_encode_delimited fuel env m s flds src =
     pb_encode_submessage (pb_encode fuel env m) s flds src"

text \<open>The result is the value returned and \<open>*size\<close>.\<close>

definition pb_get_encoded_size ::
    "nat \<Rightarrow> 's pb_env \<Rightarrow> mem \<Rightarrow> pb_field list \<Rightarrow> nat \<Rightarrow> nat option option" where
  "pb_get_encoded_size fuel env m flds src =
     (case pb_encode fuel env m PB_OSTREAM_SIZING flds src of
        None \<Rightarrow> None
      | Some (False, _) \<Rightarrow> Some None
      | Some (True, s) \<Rightarrow> Some (Some (bytes_written s)))"

end
