(* ===== verification/Pb_Encode_Spec.thy ===== *)
theory Pb_Encode_Spec
  imports Pb_Wire Pb_Iter Pb_Encode
begin

text \<open>
  What the message encoder of nanopb promises: \<open>message_bytes\<close> gives the bytes of the message at an
  address as a list, without streams, sizes or two passes, and \<open>pb_encode\<close> refines it on every stream
  that has no user callback. Callback fields and extensions with a user encoder have no specified
  bytes, so the specification is undefined for a message that uses one.
\<close>

section \<open>The bytes of a message\<close>

type_synonym msg_bytes = "pb_field list \<Rightarrow> nat \<Rightarrow> u8 list option"

definition string_at :: "pb_field \<Rightarrow> mem \<Rightarrow> nat \<Rightarrow> u8 list" where
  "string_at field m src =
     (if src = 0 then []
      else load_bytes m src (strnlen_loop m src 0
        (if PB_ATYPE (pf_type field) = PB_ATYPE_POINTER then size_max else pf_data_size field)))"

definition value_spec ::
    "msg_bytes \<Rightarrow> 's pb_env \<Rightarrow> mem \<Rightarrow> pb_field \<Rightarrow> nat \<Rightarrow> u8 list option" where
  "value_spec msg env m field src =
     (let l = PB_LTYPE (pf_type field); n = unat (load32 m src) in
      if l = PB_LTYPE_VARINT then map_option varint_bytes (enc_signed_value (pf_data_size field) m src)
      else if l = PB_LTYPE_UVARINT
        then map_option varint_bytes (enc_unsigned_value (pf_data_size field) m src)
      else if l = PB_LTYPE_SVARINT
        then map_option svarint_bytes (enc_signed_value (pf_data_size field) m src)
      else if l = PB_LTYPE_FIXED32 then Some (load_bytes m src 4)
      else if l = PB_LTYPE_FIXED64 then Some (load_bytes m src 8)
      else if l = PB_LTYPE_BYTES then
        (if src = 0 then Some (delimited [])
         else if PB_ATYPE (pf_type field) = PB_ATYPE_STATIC \<and> pf_data_size field < n + 4 then None
         else Some (delimited (load_bytes m (src + 4) n)))
      else if l = PB_LTYPE_STRING then Some (delimited (string_at field m src))
      else if l = PB_LTYPE_SUBMESSAGE then
        (case pf_ptr field of
           PFields t \<Rightarrow> map_option delimited (msg (tables env t) src)
         | _ \<Rightarrow> None)
      else if l = PB_LTYPE_FIXED_LENGTH_BYTES
        then Some (delimited (load_bytes m src (pf_data_size field)))
      else None)"

definition field_tag :: "pb_field \<Rightarrow> u8 list option" where
  "field_tag field = map_option (\<lambda>wt. tag_bytes wt (pf_tag field)) (wire_type_of (pf_type field))"

definition join :: "u8 list option \<Rightarrow> u8 list option \<Rightarrow> u8 list option" where
  "join a b = (case (a, b) of (Some xs, Some ys) \<Rightarrow> Some (xs @ ys) | _ \<Rightarrow> None)"

fun join_all :: "u8 list option list \<Rightarrow> u8 list option" where
  "join_all [] = Some []"
| "join_all (x # xs) = join x (join_all xs)"

definition array_spec ::
    "msg_bytes \<Rightarrow> 's pb_env \<Rightarrow> mem \<Rightarrow> pb_field \<Rightarrow> nat \<Rightarrow> nat \<Rightarrow> u8 list option" where
  "array_spec msg env m field p count =
     (let pointer = (PB_ATYPE (pf_type field) = PB_ATYPE_POINTER);
          items = map (\<lambda>i. p + pf_data_size field * i) [0..<count]
      in if count = 0 then Some []
         else if \<not> pointer \<and> pf_array_size field < count then None
         else if PB_LTYPE (pf_type field) \<le> PB_LTYPE_LAST_PACKABLE
           then map_option (\<lambda>bs. tag_bytes PB_WT_STRING (pf_tag field) @ delimited bs)
                  (join_all (map (value_spec msg env m field) items))
         else join_all (map (\<lambda>q. join (field_tag field)
                (value_spec msg env m field
                  (if pointer \<and> (PB_LTYPE (pf_type field) = PB_LTYPE_STRING \<or>
                                 PB_LTYPE (pf_type field) = PB_LTYPE_BYTES)
                   then load_ptr m q else q))) items))"

definition basic_spec ::
    "nat \<Rightarrow> msg_bytes \<Rightarrow> 's pb_env \<Rightarrow> mem \<Rightarrow> pb_field \<Rightarrow> nat \<Rightarrow> u8 list option" where
  "basic_spec fuel msg env m field p =
     (let h = PB_HTYPE (pf_type field);
          pointer = (PB_ATYPE (pf_type field) = PB_ATYPE_POINTER);
          q = (if pointer then load_ptr m p else p);
          size_addr = offset_addr p (pf_size_offset field);
          one = join (field_tag field) (value_spec msg env m field q)
      in if h = PB_HTYPE_REQUIRED then (if q = 0 then None else one)
         else if h = PB_HTYPE_OPTIONAL then
           (if pf_size_offset field \<noteq> 0 then (if m size_addr \<noteq> 0 then one else Some [])
            else case pb_check_proto3_default_value fuel env m field p of
                None \<Rightarrow> None
              | Some dflt \<Rightarrow>
                  if (if pointer then q \<noteq> 0 else \<not> dflt) then one else Some [])
         else
           (let sz = (if pf_size_offset field = 0 then of_bool (pointer \<longrightarrow> q \<noteq> 0)
                      else load32 m size_addr)
            in if h = PB_HTYPE_REPEATED then array_spec msg env m field q (unat sz)
               else if sz = pf_tag field then one else Some []))"

definition field_spec ::
    "nat \<Rightarrow> msg_bytes \<Rightarrow> 's pb_env \<Rightarrow> mem \<Rightarrow> pb_field \<Rightarrow> nat \<Rightarrow> u8 list option" where
  "field_spec fuel msg env m field p =
     (let a = PB_ATYPE (pf_type field) in
      if a = PB_ATYPE_STATIC \<or> a = PB_ATYPE_POINTER then basic_spec fuel msg env m field p
      else if a = PB_ATYPE_CALLBACK \<and> load64 m p = 0 then Some []
      else None)"

fun extensions_spec ::
    "nat \<Rightarrow> nat \<Rightarrow> msg_bytes \<Rightarrow> 's pb_env \<Rightarrow> mem \<Rightarrow> nat \<Rightarrow> u8 list option" where
  "extensions_spec 0 fuel msg env m x = None"
| "extensions_spec (Suc n) fuel msg env m x =
     (if x = 0 then Some []
      else let ty = ext_type_of env m x; field = xt_arg ty in
        if xt_encode ty \<noteq> 0 then None
        else join
          (field_spec fuel msg env m field
            (if PB_ATYPE (pf_type field) = PB_ATYPE_POINTER then x + 8 else ext_dest m x))
          (extensions_spec n fuel msg env m (ext_next m x)))"

fun message_bytes :: "nat \<Rightarrow> 's pb_env \<Rightarrow> mem \<Rightarrow> msg_bytes" where
  "message_bytes 0 env m flds src = None"
| "message_bytes (Suc fuel) env m flds src =
     join_all (map (\<lambda>it.
       if PB_LTYPE (pf_type (it_field it)) = PB_LTYPE_EXTENSION
       then extensions_spec fuel fuel (message_bytes fuel env m) env m (load_ptr m (pData it))
       else field_spec fuel (message_bytes fuel env m) env m (it_field it) (pData it))
       (message_iters flds src))"

section \<open>The encoder refines it\<close>

lemma sizing_stream_simps [simp]:
  "bytes_written PB_OSTREAM_SIZING = 0" "sink PB_OSTREAM_SIZING = NoCallback"
  "plain PB_OSTREAM_SIZING" "fits PB_OSTREAM_SIZING n"
  by (simp_all add: PB_OSTREAM_SIZING_def plain_def fits_def)

text \<open>\<open>implements e spec\<close>: when the specification gives bytes, the encoder writes them.\<close>

definition implements :: "('s pb_ostream \<Rightarrow> 's enc_result) \<Rightarrow> u8 list option \<Rightarrow> bool" where
  "implements e spec \<longleftrightarrow> (\<forall>bs. spec = Some bs \<longrightarrow> encodes e bs)"

named_theorems implements_intros

lemma implementsD: "implements e spec \<Longrightarrow> spec = Some bs \<Longrightarrow> encodes e bs"
  by (simp add: implements_def)

lemma implements_None [implements_intros]: "implements e None"
  by (simp add: implements_def)

lemma implements_Some: "encodes e bs \<Longrightarrow> implements e (Some bs)"
  by (simp add: implements_def)

lemma implements_join [implements_intros]:
  "implements e1 a \<Longrightarrow> implements e2 b \<Longrightarrow> implements (\<lambda>s. enc_then (e1 s) e2) (join a b)"
  by (auto simp: implements_def join_def split: option.splits intro: encodes_then)

lemma implements_Nil [implements_intros]: "implements (\<lambda>s. Some (True, s)) (Some [])"
  by (rule implements_Some [OF encodes_Nil])

lemma implements_map [implements_intros]:
  "(\<And>v. a = Some v \<Longrightarrow> encodes e (f v)) \<Longrightarrow> implements e (map_option f a)"
  by (auto simp: implements_def)

lemma implements_tag [implements_intros]:
  "implements (\<lambda>s. Some (pb_encode_tag_for_field s field)) (field_tag field)"
  by (auto simp: implements_def field_tag_def pb_encode_tag_for_field_def encodes_tag)

lemma implements_cong: "e = e' \<Longrightarrow> implements e' a \<Longrightarrow> implements e a"
  by simp

lemma implements_string [implements_intros]:
  "length bs = n \<Longrightarrow> implements (\<lambda>s. Some (pb_encode_string s bs n)) (Some (delimited bs))"
  using implements_Some [OF encodes_string] by blast

lemma encodes_submessage:
  assumes "encodes (\<lambda>s. rec s flds src) bs"
  shows "encodes (\<lambda>s. pb_encode_submessage rec s flds src) (delimited bs)"
proof -
  have sizing: "rec PB_OSTREAM_SIZING flds src = Some (True, put PB_OSTREAM_SIZING bs)"
    if "length bs < 2 ^ 64"
    using that by (intro encodes_True [OF assms])
      (auto simp: plain_def fits_def PB_OSTREAM_SIZING_def)
  have body: "encodes (\<lambda>s. if \<not> has_callback (sink s) then Some (pb_write s [] (length bs))
             else if max_size s < size_add (bytes_written s) (length bs)
               then Some (False, pb_oset_error ''stream full'' s)
             else case rec \<lparr>sink = sink s, max_size = length bs, bytes_written = 0, o_errmsg = None\<rparr>
                         flds src of
                 None \<Rightarrow> None
               | Some (status, sub) \<Rightarrow>
                   (let s' = s\<lparr>sink := sink sub,
                               bytes_written := size_add (bytes_written s) (bytes_written sub),
                               o_errmsg := o_errmsg sub\<rparr>
                    in if bytes_written sub \<noteq> length bs
                       then Some (False, pb_oset_error ''submsg size changed'' s')
                       else Some (status, s'))) bs" (is "encodes ?body bs")
  proof (rule encodesI)
    fix s :: "'a pb_ostream"
    assume s: "plain s" "bytes_written s + length bs < 2 ^ 64" "fits s (length bs)"
    let ?sub = "\<lparr>sink = sink s, max_size = length bs, bytes_written = 0, o_errmsg = None\<rparr>"
    have "plain ?sub" "fits ?sub (length bs)" using s(1) by (auto simp: plain_def fits_def)
    from encodes_True [OF assms this(1) _ this(2)] s(2)
    have "rec ?sub flds src = Some (True, put ?sub bs)" by simp
    with s show "?body s = Some (True, put s bs)"
      by (cases "sink s") (auto simp: pb_write_def put_def fits_def plain_def)
  next
    fix s :: "'a pb_ostream"
    assume s: "plain s" "bytes_written s + length bs < 2 ^ 64" "\<not> fits s (length bs)"
    then show "\<exists>s'. ?body s = Some (False, s')" by (auto simp: fits_def)
  qed
  have both: "encodes (\<lambda>s. enc_then (Some (pb_encode_varint s (of_nat (length bs)))) ?body) (delimited bs)"
    unfolding delimited_def by (rule encodes_then [OF encodes_varint body])
  have "pb_encode_submessage rec s flds src =
      enc_then (Some (pb_encode_varint s (of_nat (length bs)))) ?body" if "length bs < 2 ^ 64" for s
    by (simp add: pb_encode_submessage_def sizing [OF that] Let_def cong: if_cong option.case_cong)
  with both show ?thesis by (simp add: encodes_def delimited_def)
qed

lemma implements_submessage [implements_intros]:
  "implements (\<lambda>s. rec s flds src) a \<Longrightarrow>
     implements (\<lambda>s. pb_encode_submessage rec s flds src) (map_option delimited a)"
  by (auto simp: implements_def intro: encodes_submessage)

lemma encodes_fixed_load:
  "encodes (\<lambda>s. Some (pb_enc_fixed32 s field m src)) (load_bytes m src 4)"
  "encodes (\<lambda>s. Some (pb_enc_fixed64 s field m src)) (load_bytes m src 8)"
  using encodes_fixed32 [of "load32 m src"] encodes_fixed64 [of "load64 m src"]
  by (simp_all add: pb_enc_fixed32_def pb_enc_fixed64_def load32_def load64_def le_bytes_le_word)

lemma implements_varints:
  "implements (\<lambda>s. Some (pb_enc_varint s field m src))
     (map_option varint_bytes (enc_signed_value (pf_data_size field) m src))"
  "implements (\<lambda>s. Some (pb_enc_uvarint s field m src))
     (map_option varint_bytes (enc_unsigned_value (pf_data_size field) m src))"
  "implements (\<lambda>s. Some (pb_enc_svarint s field m src))
     (map_option svarint_bytes (enc_signed_value (pf_data_size field) m src))"
  by (rule implements_map, simp add: pb_enc_varint_def pb_enc_uvarint_def pb_enc_svarint_def
      encodes_varint encodes_svarint)+

lemma implements_bytes:
  "implements (\<lambda>s. Some (pb_enc_bytes s field m src))
     (if src = 0 then Some (delimited [])
      else if PB_ATYPE (pf_type field) = PB_ATYPE_STATIC \<and>
              pf_data_size field < unat (load32 m src) + 4 then None
      else Some (delimited (load_bytes m (src + 4) (unat (load32 m src)))))"
proof -
  have "PB_BYTES_ARRAY_T_ALLOCSIZE (unat (load32 m src)) = unat (load32 m src) + 4"
    using unat_u32_less [of "load32 m src"] by (simp add: PB_BYTES_ARRAY_T_ALLOCSIZE_def)
  then show ?thesis
    using implements_string [of "[]" 0] implements_string [OF length_load_bytes]
    by (auto simp: pb_enc_bytes_def implements_None Let_def)
qed

lemma implements_string_at:
  "implements (\<lambda>s. Some (pb_enc_string s field m src)) (Some (delimited (string_at field m src)))"
  by (simp add: pb_enc_string_def string_at_def Let_def implements_string)

lemma implements_value:
  assumes "\<And>flds src. implements (\<lambda>s. rec s flds src) (msg flds src)"
  shows "implements (\<lambda>s. call_encoder rec env m s field src) (value_spec msg env m field src)"
proof -
  have "implements (\<lambda>s. pb_enc_submessage rec env s field src)
      (case pf_ptr field of PFields t \<Rightarrow> map_option delimited (msg (tables env t) src) | _ \<Rightarrow> None)"
    using implements_submessage [OF assms]
    by (cases "pf_ptr field") (simp_all add: pb_enc_submessage_def implements_None)
  then show ?thesis
    by (simp add: call_encoder_def value_spec_def Let_def implements_varints implements_bytes
        implements_string_at implements_None implements_string pb_enc_fixed_length_bytes_def
        encodes_fixed_load [THEN implements_Some] split: if_split)
qed

section \<open>Arrays and fields\<close>

lemma map_stride_Suc:
  "map (\<lambda>i. p + w * i) [0..<Suc n] = p # map (\<lambda>i. p + w + w * i) [0..<n]"
  by (simp add: upt_conv_Cons map_Suc_upt [symmetric] comp_def algebra_simps del: upt_Suc map_Suc_upt)

lemma implements_items:
  assumes "\<And>q. implements (\<lambda>s. item s q) (f q)"
  shows "implements (\<lambda>s. encode_items item w n s p) (join_all (map f (map (\<lambda>i. p + w * i) [0..<n])))"
proof (induction n arbitrary: p)
  case (Suc n)
  show ?case
    unfolding map_stride_Suc list.map join_all.simps encode_items.simps
    by (rule implements_join [OF assms Suc.IH])
qed (simp add: implements_Nil)

lemma join_all_length:
  "join_all (map f xs) = Some bs \<Longrightarrow> (\<And>x b. f x = Some b \<Longrightarrow> length b = k) \<Longrightarrow>
     length bs = k * length xs"
  by (induction xs arbitrary: bs) (auto simp: join_def split: option.splits)

lemma packed_size_length:
  assumes "join_all (map (value_spec msg env m field) (map (\<lambda>i. p + pf_data_size field * i) [0..<n])) = Some bs"
    and "\<And>flds src. implements (\<lambda>s. rec s flds src) (msg flds src)" "length bs < 2 ^ 64"
  shows "packed_size (\<lambda>s q. call_encoder rec env m s field q) field n p = Some (True, length bs)"
proof -
  have "length bs = 4 * n" if "PB_LTYPE (pf_type field) = PB_LTYPE_FIXED32"
    using join_all_length [OF assms(1), of 4] that by (simp add: value_spec_def)
  moreover have "length bs = 8 * n" if "PB_LTYPE (pf_type field) = PB_LTYPE_FIXED64"
    using join_all_length [OF assms(1), of 8] that by (simp add: value_spec_def)
  moreover have "encode_items (\<lambda>s q. call_encoder rec env m s field q) (pf_data_size field) n
      PB_OSTREAM_SIZING p = Some (True, put PB_OSTREAM_SIZING bs)"
    using implements_items [OF implements_value [OF assms(2)], THEN implementsD, OF assms(1)]
      assms(3) by (intro encodes_True) auto
  ultimately show ?thesis by (simp add: packed_size_def)
qed

lemma encodes_packed:
  assumes "join_all (map (value_spec msg env m field) (map (\<lambda>i. p + pf_data_size field * i) [0..<n])) = Some bs"
    and "\<And>flds src. implements (\<lambda>s. rec s flds src) (msg flds src)"
  shows "encodes (\<lambda>s. case packed_size (\<lambda>s q. call_encoder rec env m s field q) field n p of
            None \<Rightarrow> None
          | Some (False, _) \<Rightarrow> Some (False, s)
          | Some (True, sz) \<Rightarrow>
              enc_then (Some (pb_encode_varint s (of_nat sz))) (\<lambda>s.
                if \<not> has_callback (sink s) then Some (pb_write s [] sz)
                else encode_items (\<lambda>s q. call_encoder rec env m s field q) (pf_data_size field) n s p))
      (delimited bs)" (is "encodes ?e _")
proof -
  let ?body = "\<lambda>s. if \<not> has_callback (sink s) then Some (pb_write s [] (length bs))
      else encode_items (\<lambda>s q. call_encoder rec env m s field q) (pf_data_size field) n s p"
  have items: "encodes (\<lambda>s. encode_items (\<lambda>s q. call_encoder rec env m s field q)
      (pf_data_size field) n s p) bs"
    by (rule implementsD [OF implements_items [OF implements_value [OF assms(2)]] assms(1)])
  have "encodes ?body bs"
  proof (rule encodesI)
    fix s :: "'a pb_ostream"
    assume s: "plain s" "bytes_written s + length bs < 2 ^ 64" "fits s (length bs)"
    then show "?body s = Some (True, put s bs)"
      using encodes_True [OF items s] by (cases "sink s") (auto simp: pb_write_def put_def)
  next
    fix s :: "'a pb_ostream"
    assume s: "plain s" "bytes_written s + length bs < 2 ^ 64" "\<not> fits s (length bs)"
    then show "\<exists>s'. ?body s = Some (False, s')"
      using encodes_False [OF items s] by (auto simp: fits_def)
  qed
  then have "encodes (\<lambda>s. enc_then (Some (pb_encode_varint s (of_nat (length bs)))) ?body) (delimited bs)"
    unfolding delimited_def by (rule encodes_then [OF encodes_varint])
  moreover have "?e s = enc_then (Some (pb_encode_varint s (of_nat (length bs)))) ?body"
    if "length bs < 2 ^ 64" for s
    using packed_size_length [OF assms that] by simp
  ultimately show ?thesis by (simp add: encodes_def delimited_def)
qed

lemma implements_array:
  assumes "\<And>flds src. implements (\<lambda>s. rec s flds src) (msg flds src)"
  shows "implements (\<lambda>s. encode_array rec env m s field p n) (array_spec msg env m field p n)"
proof -
  let ?items = "map (\<lambda>i. p + pf_data_size field * i) [0..<n]"
  have "implements (\<lambda>s. encode_items
          (\<lambda>s q. enc_then (Some (pb_encode_tag_for_field s field)) (\<lambda>s.
             if c then call_encoder rec env m s field (load_ptr m q) else call_encoder rec env m s field q))
          (pf_data_size field) n s p)
      (join_all (map (\<lambda>q. join (field_tag field)
                (value_spec msg env m field (if c then load_ptr m q else q))) ?items))" for c
    by (rule implements_items, rule implements_join [OF implements_tag])
      (simp add: implements_value [OF assms])
  moreover have "implements (\<lambda>s. enc_then (Some (pb_encode_tag s PB_WT_STRING (pf_tag field))) (\<lambda>s.
          case packed_size (\<lambda>s q. call_encoder rec env m s field q) field n p of
            None \<Rightarrow> None
          | Some (False, _) \<Rightarrow> Some (False, s)
          | Some (True, sz) \<Rightarrow>
              enc_then (Some (pb_encode_varint s (of_nat sz))) (\<lambda>s.
                if \<not> has_callback (sink s) then Some (pb_write s [] sz)
                else encode_items (\<lambda>s q. call_encoder rec env m s field q) (pf_data_size field) n s p)))
      (map_option (\<lambda>bs. tag_bytes PB_WT_STRING (pf_tag field) @ delimited bs)
         (join_all (map (value_spec msg env m field) ?items)))"
    by (rule implements_map, rule encodes_then [OF encodes_tag encodes_packed [OF _ assms]])
  ultimately show ?thesis
    by (simp only: encode_array_def array_spec_def Let_def implements_None implements_Nil split: if_split)
      (auto intro: implements_Nil)
qed

lemma implements_put:
  assumes "\<And>flds src. implements (\<lambda>s. rec s flds src) (msg flds src)"
  shows "implements (\<lambda>s. enc_then (Some (pb_encode_tag_for_field s field)) (\<lambda>s.
      call_encoder rec env m s field q)) (join (field_tag field) (value_spec msg env m field q))"
  by (rule implements_join [OF implements_tag implements_value [OF assms]])

lemma implements_basic:
  assumes "\<And>flds src. implements (\<lambda>s. rec s flds src) (msg flds src)"
  shows "implements (\<lambda>s. encode_basic_field fuel rec env m s field p)
    (basic_spec fuel msg env m field p)"
proof -
  note put = implements_put [OF assms] and array = implements_array [OF assms]
  show ?thesis
    by (rule PB_HTYPE_cases [of "pf_type field"])
      (auto simp: encode_basic_field_def basic_spec_def Let_def implements_None
        split: option.split intro: put array implements_Nil)
qed

lemma implements_field:
  assumes "\<And>flds src. implements (\<lambda>s. rec s flds src) (msg flds src)"
  shows "implements (\<lambda>s. encode_field fuel rec env m s field p) (field_spec fuel msg env m field p)"
  using implements_basic [OF assms]
  by (auto simp: encode_field_def field_spec_def encode_callback_field_def Let_def implements_None
      intro: implements_Nil)

lemma implements_extensions:
  assumes "\<And>flds src. implements (\<lambda>s. rec s flds src) (msg flds src)"
  shows "implements (\<lambda>s. encode_extensions n fuel rec env m s x) (extensions_spec n fuel msg env m x)"
proof (induction n arbitrary: x)
  case (Suc n)
  show ?case
    using implements_field [OF assms]
    by (auto simp: Let_def default_extension_encoder_def implements_None
        intro!: implements_Nil implements_join Suc.IH)
qed (simp add: implements_None)

lemma implements_all:
  assumes "\<And>x. implements (\<lambda>s. f s x) (g x)"
  shows "implements (\<lambda>s. encode_all f s xs) (join_all (map g xs))"
  by (induction xs) (auto intro: implements_Nil implements_join assms)

lemma implements_message: "implements (\<lambda>s. pb_encode fuel env m s flds src) (message_bytes fuel env m flds src)"
proof (induction fuel arbitrary: flds src)
  case (Suc fuel)
  show ?case
    unfolding pb_encode.simps message_bytes.simps
    by (rule implements_all)
      (simp add: encode_iter_field_def encode_extension_field_def implements_extensions [OF Suc.IH]
        implements_field [OF Suc.IH])
qed (simp add: implements_None)

section \<open>Properties of the encoder\<close>

definition example_mem :: mem where
  "example_mem = store_bytes (\<lambda>_. 0) 16 [150, 0, 0, 0, 2, 0, 0, 0, 7, 8, 0, 0, 9, 0, 0, 0]"

lemma example_load:
  "load32 example_mem 16 = 150" "load32 example_mem 20 = 2" "load32 example_mem 28 = 9"
  "example_mem 24 = 7" "example_mem 25 = 8"
  by (simp_all add: load32_def load_bytes_def example_mem_def store_bytes_def upt_rec)

lemma example_varints:
  "varint_bytes 150 = [150, 1]" "varint_bytes 7 = [7]" "varint_bytes 8 = [8]" "varint_bytes 9 = [9]"
  "varint_bytes 2 = [2]" "tag_bytes 0 1 = [8]" "tag_bytes 2 2 = [18]" "tag_bytes 2 3 = [26]"
  by (simp_all add: varint_bytes_def tag_bytes_def varint_buffer_def varint_fill.simps Let_def)

lemma example_inner_bytes:
  "message_bytes (Suc 0) example_env example_mem example_inner 28 = Some [8, 9]"
  by (simp add: example_inner_def iterator_simps field_spec_def basic_spec_def value_spec_def
      enc_unsigned_value_def example_load join_def field_tag_def wire_type_of_def example_varints)

lemma example_message_bytes:
  "message_bytes (Suc (Suc 0)) example_env example_mem example_outer 16 =
     Some [8, 150, 1, 18, 2, 7, 8, 26, 2, 8, 9]"
  by (subst message_bytes.simps)
    (simp add: example_outer_def iterator_simps field_spec_def basic_spec_def value_spec_def
      array_spec_def enc_unsigned_value_def example_load join_def field_tag_def wire_type_of_def
      example_varints example_tables example_inner_bytes upt_rec delimited_def
      del: message_bytes.simps)

text \<open>
  C6: \<open>pb_encode\<close> refines the specification of the message: on every stream without a user
  callback (a sizing stream, or a buffer at whatever position) it writes exactly the bytes that
  \<open>message_bytes\<close> gives and returns true when they fit; when they do not fit it returns false. The stream
  has no error yet, its byte counter is within its size and does not reach \<open>2 ^ 64\<close>.
\<close>

theorem encode_refines_message_bytes:
  assumes "message_bytes fuel env m flds src = Some bs" "plain s"
    and "bytes_written s + length bs < 2 ^ 64"
  shows "if fits s (length bs) then pb_encode fuel env m s flds src = Some (True, put s bs)
    else \<exists>s'. pb_encode fuel env m s flds src = Some (False, s')"
  using implementsD [OF implements_message assms(1)] assms(2,3) by (simp add: encodes_def)

theorem encode_refines_message_bytes_witness:
  "pb_encode (Suc (Suc 0)) example_env example_mem (pb_ostream_from_buffer (replicate 20 0) 20)
      example_outer 16 =
    Some (True, put (pb_ostream_from_buffer (replicate 20 0) 20) [8, 150, 1, 18, 2, 7, 8, 26, 2, 8, 9])"
  using encode_refines_message_bytes [OF example_message_bytes,
      of "pb_ostream_from_buffer (replicate 20 0) 20"] by simp

text \<open>
  \<open>pb_get_encoded_size\<close> gives the exact number of bytes that encoding the message takes: a
  buffer of that size is always enough, and no smaller one is.
\<close>

theorem encoded_size_exact:
  assumes "message_bytes fuel env m flds src = Some bs" "length bs < 2 ^ 64"
  shows "pb_get_encoded_size fuel env m flds src = Some (Some (length bs)) \<and>
    run_encoder (length bs) (\<lambda>s. pb_encode fuel env m s flds src) = Some bs \<and>
    (\<forall>n<length bs. run_encoder n (\<lambda>s. pb_encode fuel env m s flds src) = None)"
proof -
  note enc = implementsD [OF implements_message assms(1)]
  from encodes_True [OF enc, of PB_OSTREAM_SIZING] assms(2)
  have "pb_encode fuel env m PB_OSTREAM_SIZING flds src = Some (True, put PB_OSTREAM_SIZING bs)"
    by simp
  then show ?thesis
    using run_encoder_encodes [OF enc assms(2)]
    by (auto simp: pb_get_encoded_size_def)
qed

theorem encoded_size_exact_witness:
  "pb_get_encoded_size (Suc (Suc 0)) example_env example_mem example_outer 16 = Some (Some 11)"
  using encoded_size_exact [OF example_message_bytes] by simp

text \<open>
  \<open>pb_encode_delimited\<close> writes the message behind the varint of its exact length, as the
  substream reader of the decoder expects it.
\<close>

theorem encode_delimited_bytes:
  assumes "message_bytes fuel env m flds src = Some bs" "length bs < 2 ^ 63"
  shows "run_encoder n (\<lambda>s. pb_encode_delimited fuel env m s flds src) =
    (if length (delimited bs) \<le> n then Some (delimited bs) else None)"
proof -
  have "encodes (\<lambda>s. pb_encode_delimited fuel env m s flds src) (delimited bs)"
    unfolding pb_encode_delimited_def
    by (rule encodes_submessage) (rule implementsD [OF implements_message assms(1)])
  moreover have "length (delimited bs) < 2 ^ 64"
    using assms(2) length_varint_bytes_10 [of "of_nat (length bs)"] by (simp add: delimited_def)
  ultimately show ?thesis by (rule run_encoder_encodes)
qed

theorem encode_delimited_bytes_witness:
  "run_encoder 12 (\<lambda>s. pb_encode_delimited (Suc (Suc 0)) example_env example_mem s example_outer 16) =
     Some [11, 8, 150, 1, 18, 2, 7, 8, 26, 2, 8, 9]"
  using encode_delimited_bytes [OF example_message_bytes, of 12]
  by (simp add: delimited_def varint_bytes_def)

section \<open>Termination of the encoder\<close>

text \<open>\<open>rank\<close> bounds the nesting of submessages below a descriptor table; the fields of a table have
  types with an encoder, and their submessages have smaller ranks.\<close>

definition table_ok :: "(nat \<Rightarrow> nat) \<Rightarrow> nat \<Rightarrow> pb_field list \<Rightarrow> bool" where
  "table_ok rank k flds \<longleftrightarrow> terminated flds \<and>
     (\<forall>f\<in>set flds. PB_LTYPE (pf_type f) \<le> PB_LTYPE_FIXED_LENGTH_BYTES \<and>
        PB_LTYPE (pf_type f) \<noteq> PB_LTYPE_EXTENSION \<and>
        (PB_LTYPE (pf_type f) = PB_LTYPE_SUBMESSAGE \<longrightarrow> (\<exists>t. pf_ptr f = PFields t \<and> rank t < k)))"

definition returns :: "'a option \<Rightarrow> bool" where
  "returns r \<longleftrightarrow> r \<noteq> None"

lemma returns_simps [simp]: "returns (Some x)" "\<not> returns None"
  by (simp_all add: returns_def)

lemma returnsE: "returns r \<Longrightarrow> (\<And>x. r = Some x \<Longrightarrow> P) \<Longrightarrow> P"
  by (auto simp: returns_def)

lemma enc_then_returns [intro]: "returns r \<Longrightarrow> (\<And>s. returns (k s)) \<Longrightarrow> returns (enc_then r k)"
  by (cases "(r, k)" rule: enc_then.cases) auto

lemma encode_items_returns [intro]:
  "(\<And>s q. returns (item s q)) \<Longrightarrow> returns (encode_items item w n s p)"
  by (induction n arbitrary: s p) auto

lemma pb_encode_submessage_returns [intro]:
  assumes "\<And>s. returns (rec s flds src)"
  shows "returns (pb_encode_submessage rec s flds src)"
proof -
  define g where "g s = the (rec s flds src)" for s
  have g: "rec s flds src = Some (g s)" for s
    using assms [of s] by (auto simp: g_def elim: returnsE)
  show ?thesis
    unfolding pb_encode_submessage_def g
    by (cases "g PB_OSTREAM_SIZING"; cases "fst (g PB_OSTREAM_SIZING)")
      (auto simp: Let_def split: prod.split)
qed

lemma call_encoder_returns:
  assumes "PB_LTYPE (pf_type f) \<le> PB_LTYPE_FIXED_LENGTH_BYTES"
    and "PB_LTYPE (pf_type f) \<noteq> PB_LTYPE_EXTENSION"
    and "\<And>t s src. PB_LTYPE (pf_type f) = PB_LTYPE_SUBMESSAGE \<Longrightarrow> pf_ptr f = PFields t \<Longrightarrow>
      returns (rec s (tables env t) src)"
  shows "returns (call_encoder rec env m s f src)"
  using PB_LTYPE_cases [OF assms(1)] assms(2)
  by (auto simp: call_encoder_def Let_def pb_enc_submessage_def split: pb_ptr.split intro: assms(3))

lemma encode_array_returns:
  assumes "\<And>s q. returns (call_encoder rec env m s f q)"
  shows "returns (encode_array rec env m s f p n)"
proof -
  have items: "returns (encode_items (\<lambda>s. call_encoder rec env m s f) w n s p)" for w s
    by (rule encode_items_returns [OF assms])
  have "returns (packed_size (\<lambda>s q. call_encoder rec env m s f q) f n p)"
    using items [of "pf_data_size f" PB_OSTREAM_SIZING]
    by (auto simp: packed_size_def split: option.split bool.split)
  then obtain ok sz where "packed_size (\<lambda>s q. call_encoder rec env m s f q) f n p = Some (ok, sz)"
    by (auto elim: returnsE)
  then show ?thesis
    by (cases ok) (auto simp: encode_array_def Let_def assms items intro!: enc_then_returns encode_items_returns)
qed

lemma all_option_returns: "(\<And>x. x \<in> set xs \<Longrightarrow> returns (f x)) \<Longrightarrow> returns (all_option f xs)"
  by (induction xs) (fastforce elim: returnsE split: option.split bool.split)+

lemma message_iters_fields:
  assumes "terminated flds" "it \<in> set (message_iters flds d)"
  shows "it_field it \<in> set flds"
  using assms message_iters_at [OF assms(1)] real_fields_length [OF assms(1)] by auto

lemma pb_check_proto3_returns:
  assumes "\<And>t. table_ok rank (rank t) (tables env t)" "0 < fuel"
    and "\<And>t. PB_LTYPE (pf_type f) = PB_LTYPE_SUBMESSAGE \<Longrightarrow> pf_ptr f = PFields t \<Longrightarrow>
      rank t + 1 < fuel"
    and "PB_LTYPE (pf_type f) = PB_LTYPE_SUBMESSAGE \<Longrightarrow> \<exists>t. pf_ptr f = PFields t"
  shows "returns (pb_check_proto3_default_value fuel env m f p)"
  using assms(2-)
proof (induction fuel arbitrary: f p)
  case (Suc fuel)
  have "returns (all_option (\<lambda>it. pb_check_proto3_default_value fuel env m (it_field it) (pData it))
      (message_iters (tables env t) p))"
    if "PB_LTYPE (pf_type f) = PB_LTYPE_SUBMESSAGE" "pf_ptr f = PFields t" for t
  proof (rule all_option_returns, rule Suc.IH)
    fix it assume "it \<in> set (message_iters (tables env t) p)"
    then have f: "it_field it \<in> set (tables env t)"
      using assms(1) [of t] by (auto simp: table_ok_def intro: message_iters_fields)
    show "0 < fuel" using Suc.prems(2) [OF that] by simp
    show "rank t' + 1 < fuel"
      if "PB_LTYPE (pf_type (it_field it)) = PB_LTYPE_SUBMESSAGE" "pf_ptr (it_field it) = PFields t'" for t'
      using that f assms(1) [of t] Suc.prems(2) [OF \<open>PB_LTYPE (pf_type f) = _\<close> \<open>pf_ptr f = _\<close>]
      by (fastforce simp: table_ok_def)
    show "\<exists>t'. pf_ptr (it_field it) = PFields t'"
      if "PB_LTYPE (pf_type (it_field it)) = PB_LTYPE_SUBMESSAGE"
      using that f assms(1) [of t] by (auto simp: table_ok_def)
  qed
  with Suc.prems(3) show ?case by (auto simp: Let_def)
qed simp

lemma encode_field_returns:
  assumes "\<And>s q. returns (call_encoder rec env m s f q)"
    and "\<And>p. returns (pb_check_proto3_default_value fuel env m f p)"
  shows "returns (encode_field fuel rec env m s f p)"
proof -
  obtain d where "pb_check_proto3_default_value fuel env m f p = Some d"
    using assms(2) [of p] by (auto elim: returnsE)
  then have "returns (encode_basic_field fuel rec env m s f p)"
    using assms(1) encode_array_returns [OF assms(1)]
    by (auto simp: encode_basic_field_def Let_def intro!: enc_then_returns)
  then show ?thesis by (auto simp: encode_field_def Let_def)
qed

lemma encode_all_returns: "(\<And>s x. x \<in> set xs \<Longrightarrow> returns (f s x)) \<Longrightarrow> returns (encode_all f s xs)"
  by (induction xs arbitrary: s) auto

lemma pb_encode_returns_table:
  assumes "\<And>t. table_ok rank (rank t) (tables env t)"
  shows "table_ok rank k flds \<Longrightarrow> k + 1 < fuel \<Longrightarrow> returns (pb_encode fuel env m s flds src)"
proof (induction fuel arbitrary: k flds s src)
  case (Suc fuel)
  have "returns (encode_iter_field fuel (pb_encode fuel env m) env m s it)"
    if "it \<in> set (message_iters flds src)" for s it
  proof -
    let ?f = "it_field it"
    have "?f \<in> set flds"
      using that Suc.prems(1) by (auto simp: table_ok_def intro: message_iters_fields)
    then have f: "PB_LTYPE (pf_type ?f) \<le> PB_LTYPE_FIXED_LENGTH_BYTES"
      "PB_LTYPE (pf_type ?f) \<noteq> PB_LTYPE_EXTENSION"
      "PB_LTYPE (pf_type ?f) = PB_LTYPE_SUBMESSAGE \<Longrightarrow> \<exists>t. pf_ptr ?f = PFields t \<and> rank t < k"
      using Suc.prems(1) by (auto simp: table_ok_def)
    have "returns (call_encoder (pb_encode fuel env m) env m s ?f q)" for s q
      using f Suc.prems(2) by (intro call_encoder_returns) (auto intro!: Suc.IH [OF assms])
    moreover have "returns (pb_check_proto3_default_value fuel env m ?f p)" for p
      using f Suc.prems(2) by (intro pb_check_proto3_returns [OF assms]) auto
    ultimately show ?thesis using f(2) by (simp add: encode_iter_field_def encode_field_returns)
  qed
  then show ?case by (simp add: encode_all_returns)
qed simp

text \<open>
  C7: \<open>pb_encode\<close> returns, for every memory contents and every stream (a user's write callback that
  fails included), when the descriptor tables are terminated, of bounded nesting, and all their
  fields have encoders and are no extension fields (a list of extensions lies in the memory, where
  it may be cyclic, and is then never left): the fuel that bounds the recursion of the model is enough as soon as it exceeds that
  nesting by two.
\<close>

theorem encode_returns:
  assumes "\<And>t. table_ok rank (rank t) (tables env t)" "table_ok rank k flds" "k + 1 < fuel"
  shows "\<exists>ok s'. pb_encode fuel env m s flds src = Some (ok, s')"
  using pb_encode_returns_table [OF assms, of m s src] by (auto simp: returns_def)

theorem encode_returns_witness:
  "\<exists>ok s'. pb_encode 3 example_env (\<lambda>_. 0) (pb_ostream_from_buffer [] 0) example_outer 16 = Some (ok, s')"
  by (rule encode_returns [of "\<lambda>_. 0" _ 1])
    (auto simp: table_ok_def example_tables example_inner_def example_outer_def terminated_def
      PB_LAST_FIELD_def PB_LTYPE_def)

section \<open>Pointer fields in proto3 submessages\<close>






















end
