(* ===== verification/Pb_Decode.thy ===== *)
theory Pb_Decode
  imports Pb_Decode_Stream Pb_Common
begin

text \<open>
  The message decoder of nanopb (\<open>pb_decode.c\<close>), without \<open>PB_ENABLE_MALLOC\<close>. A call gives the
  value returned, the stream and the struct memory; or it uses up the fuel; or it reaches an operation
  that C leaves undefined. Fuel bounds the iterations of the decoding loop, the nesting of
  submessages, the calls of one decode callback and the length of a list of extensions. The functions
  that can reach \<open>pb_decode_noinit\<close> take it as the argument \<open>rec\<close>.
\<close>

datatype 'a outcome = Ret 'a | Out_Of_Fuel | Undefined

type_synonym 's dec_value = "bool \<times> 's pb_istream \<times> mem"
type_synonym 's dec_result = "'s dec_value outcome"
type_synonym 's dec_msg = "'s pb_istream \<Rightarrow> pb_field list \<Rightarrow> nat \<Rightarrow> mem \<Rightarrow> 's dec_result"

text \<open>\<open>if (!a) return false; b\<close>, and a sequence without the test.\<close>

fun dec_then :: "'s dec_result \<Rightarrow> ('s pb_istream \<Rightarrow> mem \<Rightarrow> 's dec_result) \<Rightarrow> 's dec_result" where
  "dec_then (Ret (ok, s, m)) k = (if ok then k s m else Ret (False, s, m))"
| "dec_then Out_Of_Fuel k = Out_Of_Fuel"
| "dec_then Undefined k = Undefined"

fun outcome_bind :: "'a outcome \<Rightarrow> ('a \<Rightarrow> 'b outcome) \<Rightarrow> 'b outcome" where
  "outcome_bind (Ret x) k = k x"
| "outcome_bind Out_Of_Fuel k = Out_Of_Fuel"
| "outcome_bind Undefined k = Undefined"

section \<open>Field decoders\<close>

text \<open>Storing a signed or an unsigned value in a field of 8, 4, 2 or 1 bytes: the new memory and the
  value as read back (\<open>clamped\<close>).\<close>

definition store_signed :: "nat \<Rightarrow> mem \<Rightarrow> nat \<Rightarrow> 64 word \<Rightarrow> (mem \<times> 64 word) option" where
  "store_signed sz m dest v =
     (if sz = 8 then Some (store64 m dest v, v)
      else if sz = 4 then Some (store32 m dest (ucast v), scast (ucast v :: 32 word))
      else if sz = 2 then Some (store16 m dest (ucast v), scast (ucast v :: 16 word))
      else if sz = 1 then Some (store_bytes m dest [ucast v], scast (ucast v :: 8 word))
      else None)"

definition store_unsigned :: "nat \<Rightarrow> mem \<Rightarrow> nat \<Rightarrow> 64 word \<Rightarrow> (mem \<times> 64 word) option" where
  "store_unsigned sz m dest v =
     (if sz = 8 then Some (store64 m dest v, v)
      else if sz = 4 then Some (store32 m dest (ucast v), ucast (ucast v :: 32 word))
      else if sz = 2 then Some (store16 m dest (ucast v), ucast (ucast v :: 16 word))
      else if sz = 1 then Some (store_bytes m dest [ucast v], ucast (ucast v :: 8 word))
      else None)"

definition pb_dec_varint :: "'s pb_istream \<Rightarrow> pb_field \<Rightarrow> nat \<Rightarrow> mem \<Rightarrow> 's dec_value" where
  "pb_dec_varint s field dest m =
     (case pb_decode_varint s of
        (None, s') \<Rightarrow> (False, s', m)
      | (Some v, s') \<Rightarrow>
          (let svalue = (if pf_data_size field = 8 then v else scast (ucast v :: 32 word)) in
           case store_signed (pf_data_size field) m dest svalue of
             None \<Rightarrow> (False, pb_iset_error ''invalid data_size'' s', m)
           | Some (m', clamped) \<Rightarrow>
               if clamped \<noteq> svalue then (False, pb_iset_error ''integer too large'' s', m')
               else (True, s', m')))"

definition pb_dec_uvarint :: "'s pb_istream \<Rightarrow> pb_field \<Rightarrow> nat \<Rightarrow> mem \<Rightarrow> 's dec_value" where
  "pb_dec_uvarint s field dest m =
     (case pb_decode_varint s of
        (None, s') \<Rightarrow> (False, s', m)
      | (Some v, s') \<Rightarrow>
          (case store_unsigned (pf_data_size field) m dest v of
             None \<Rightarrow> (False, pb_iset_error ''invalid data_size'' s', m)
           | Some (m', clamped) \<Rightarrow>
               if clamped \<noteq> v then (False, pb_iset_error ''integer too large'' s', m')
               else (True, s', m')))"

definition pb_dec_svarint :: "'s pb_istream \<Rightarrow> pb_field \<Rightarrow> nat \<Rightarrow> mem \<Rightarrow> 's dec_value" where
  "pb_dec_svarint s field dest m =
     (case pb_decode_svarint s of
        (None, s') \<Rightarrow> (False, s', m)
      | (Some v, s') \<Rightarrow>
          (case store_signed (pf_data_size field) m dest v of
             None \<Rightarrow> (False, pb_iset_error ''invalid data_size'' s', m)
           | Some (m', clamped) \<Rightarrow>
               if clamped \<noteq> v then (False, pb_iset_error ''integer too large'' s', m')
               else (True, s', m')))"

definition pb_dec_fixed32 :: "'s pb_istream \<Rightarrow> pb_field \<Rightarrow> nat \<Rightarrow> mem \<Rightarrow> 's dec_value" where
  "pb_dec_fixed32 s field dest m =
     (case pb_decode_fixed32 s of
        (None, s') \<Rightarrow> (False, s', m)
      | (Some v, s') \<Rightarrow> (True, s', store32 m dest v))"

definition pb_dec_fixed64 :: "'s pb_istream \<Rightarrow> pb_field \<Rightarrow> nat \<Rightarrow> mem \<Rightarrow> 's dec_value" where
  "pb_dec_fixed64 s field dest m =
     (case pb_decode_fixed64 s of
        (None, s') \<Rightarrow> (False, s', m)
      | (Some v, s') \<Rightarrow> (True, s', store64 m dest v))"

text \<open>\<open>pb_read\<close> into struct memory.\<close>

definition pb_read_into :: "'s pb_istream \<Rightarrow> nat \<Rightarrow> nat \<Rightarrow> mem \<Rightarrow> 's dec_value" where
  "pb_read_into s dest n m =
     (case pb_read s False n of
        (None, s') \<Rightarrow> (False, s', m)
      | (Some bs, s') \<Rightarrow> (True, s', store_bytes m dest bs))"

definition pb_dec_bytes :: "'s pb_istream \<Rightarrow> pb_field \<Rightarrow> nat \<Rightarrow> mem \<Rightarrow> 's dec_value" where
  "pb_dec_bytes s field dest m =
     (case pb_decode_varint32 s of
        (None, s') \<Rightarrow> (False, s', m)
      | (Some sz, s') \<Rightarrow>
          (let alloc_size = PB_BYTES_ARRAY_T_ALLOCSIZE (unat sz) in
           if PB_SIZE_MAX < sz then (False, pb_iset_error ''bytes overflow'' s', m)
           else if alloc_size < unat sz then (False, pb_iset_error ''size too large'' s', m)
           else if PB_ATYPE (pf_type field) = PB_ATYPE_POINTER
             then (False, pb_iset_error ''no malloc support'' s', m)
           else if pf_data_size field < alloc_size
             then (False, pb_iset_error ''bytes overflow'' s', m)
           else pb_read_into s' (dest + 4) (unat sz) (store32 m dest sz)))"

text \<open>\<open>size + 1\<close> is computed in 32 bits.\<close>

definition pb_dec_string :: "'s pb_istream \<Rightarrow> pb_field \<Rightarrow> nat \<Rightarrow> mem \<Rightarrow> 's dec_value" where
  "pb_dec_string s field dest m =
     (case pb_decode_varint32 s of
        (None, s') \<Rightarrow> (False, s', m)
      | (Some sz, s') \<Rightarrow>
          (let alloc_size = unat (sz + 1) in
           if alloc_size < unat sz then (False, pb_iset_error ''size too large'' s', m)
           else if PB_ATYPE (pf_type field) = PB_ATYPE_POINTER
             then (False, pb_iset_error ''no malloc support'' s', m)
           else if pf_data_size field < alloc_size
             then (False, pb_iset_error ''string overflow'' s', m)
           else case pb_read_into s' dest (unat sz) m of
               (status, s'', m') \<Rightarrow> (status, s'', store_bytes m' (dest + unat sz) [0])))"

definition pb_dec_fixed_length_bytes ::
    "'s pb_istream \<Rightarrow> pb_field \<Rightarrow> nat \<Rightarrow> mem \<Rightarrow> 's dec_value" where
  "pb_dec_fixed_length_bytes s field dest m =
     (case pb_decode_varint32 s of
        (None, s') \<Rightarrow> (False, s', m)
      | (Some sz, s') \<Rightarrow>
          if PB_SIZE_MAX < sz then (False, pb_iset_error ''bytes overflow'' s', m)
          else if sz = 0
            then (True, s', store_bytes m dest (replicate (pf_data_size field) 0))
          else if unat sz \<noteq> pf_data_size field
            then (False, pb_iset_error ''incorrect fixed length bytes size'' s', m)
          else pb_read_into s' dest (pf_data_size field) m)"

section \<open>Default values\<close>

definition iter_from_extension :: "'s pb_env \<Rightarrow> mem \<Rightarrow> nat \<Rightarrow> pb_field_iter" where
  "iter_from_extension env m x =
     (let field = xt_arg (ext_type_of env m x);
          it = (snd (pb_field_iter_begin [field] (ext_dest m x)))
                 \<lparr>pData := ext_dest m x, pSize := ext_found_addr x\<rparr>
      in if PB_ATYPE (pf_type field) = PB_ATYPE_POINTER then it\<lparr>pData := x + 8\<rparr> else it)"

fun fold_outcome :: "('a \<Rightarrow> mem \<Rightarrow> mem outcome) \<Rightarrow> 'a list \<Rightarrow> mem \<Rightarrow> mem outcome" where
  "fold_outcome f [] m = Ret m"
| "fold_outcome f (x # xs) m = outcome_bind (f x m) (fold_outcome f xs)"

text \<open>The list of extensions: \<open>found\<close> is cleared and the field set to its default.\<close>

fun default_extensions ::
    "nat \<Rightarrow> (pb_field_iter \<Rightarrow> mem \<Rightarrow> mem outcome) \<Rightarrow> 's pb_env \<Rightarrow> nat \<Rightarrow> mem \<Rightarrow> mem outcome" where
  "default_extensions 0 dflt env x m = Out_Of_Fuel"
| "default_extensions (Suc n) dflt env x m =
     (if x = 0 then Ret m
      else let m1 = store_bytes m (ext_found_addr x) [0] in
        outcome_bind (dflt (iter_from_extension env m1 x) m1)
          (\<lambda>m2. default_extensions n dflt env (ext_next m2 x) m2))"

definition default_data ::
    "(nat \<Rightarrow> nat \<Rightarrow> mem \<Rightarrow> mem outcome) \<Rightarrow> pb_field_iter \<Rightarrow> mem \<Rightarrow> mem outcome" where
  "default_data msg it m =
     (let field = it_field it; n = pf_data_size field in
      if PB_LTYPE (pf_type field) = PB_LTYPE_SUBMESSAGE then
        (case pf_ptr field of PFields t \<Rightarrow> msg t (pData it) m | _ \<Rightarrow> Undefined)
      else case pf_ptr field of
          PDefault bs \<Rightarrow> Ret (store_bytes m (pData it) (take n bs))
        | PFields t \<Rightarrow> Undefined
        | PNull \<Rightarrow> Ret (store_bytes m (pData it) (replicate n 0)))"

text \<open>\<open>pb_field_set_to_default\<close>; \<open>pb_message_set_to_defaults\<close> on a table is \<open>msg\<close>.\<close>

fun pb_field_set_to_default ::
    "nat \<Rightarrow> 's pb_env \<Rightarrow> pb_field_iter \<Rightarrow> mem \<Rightarrow> mem outcome" where
  "pb_field_set_to_default 0 env it m = Out_Of_Fuel"
| "pb_field_set_to_default (Suc fuel) env it m =
     (let t = pf_type (it_field it);
          msg = (\<lambda>n dest m. fold_outcome (pb_field_set_to_default fuel env)
                   (message_iters (tables env n) dest) m)
      in if PB_LTYPE t = PB_LTYPE_EXTENSION then
           default_extensions fuel (pb_field_set_to_default fuel env) env (load_ptr m (pData it)) m
         else if PB_ATYPE t = PB_ATYPE_STATIC then
           (if PB_HTYPE t = PB_HTYPE_OPTIONAL \<and> pSize it \<noteq> pData it
            then default_data msg it (store_bytes m (pSize it) [0])
            else if PB_HTYPE t = PB_HTYPE_REPEATED \<or> PB_HTYPE t = PB_HTYPE_ONEOF
            then Ret (store32 m (pSize it) 0)
            else default_data msg it m)
         else if PB_ATYPE t = PB_ATYPE_POINTER then
           (let m1 = store64 m (pData it) 0 in
            Ret (if PB_HTYPE t = PB_HTYPE_REPEATED \<or> PB_HTYPE t = PB_HTYPE_ONEOF
                 then store32 m1 (pSize it) 0 else m1))
         else Ret m)"

definition pb_message_set_to_defaults ::
    "nat \<Rightarrow> 's pb_env \<Rightarrow> pb_field list \<Rightarrow> nat \<Rightarrow> mem \<Rightarrow> mem outcome" where
  "pb_message_set_to_defaults fuel env flds dest m =
     fold_outcome (pb_field_set_to_default fuel env) (message_iters flds dest) m"

section \<open>Decoding a single field\<close>

text \<open>\<open>pb_decode\<close>, from \<open>pb_decode_noinit\<close>.\<close>

definition pb_decode_with :: "'s dec_msg \<Rightarrow> nat \<Rightarrow> 's pb_env \<Rightarrow> 's dec_msg" where
  "pb_decode_with rec fuel env s flds dest m =
     outcome_bind (pb_message_set_to_defaults fuel env flds dest m) (\<lambda>m'. rec s flds dest m')"

definition close_after ::
    "'s pb_istream \<Rightarrow> 's dec_result \<Rightarrow> 's dec_result" where
  "close_after s r =
     outcome_bind r (\<lambda>(status, sub, m).
       case pb_close_string_substream s sub of
         (None, s') \<Rightarrow> Ret (False, s', m)
       | (Some _, s') \<Rightarrow> Ret (status, s', m))"

definition pb_dec_submessage ::
    "'s dec_msg \<Rightarrow> nat \<Rightarrow> 's pb_env \<Rightarrow> 's pb_istream \<Rightarrow> pb_field \<Rightarrow> nat \<Rightarrow> mem \<Rightarrow> 's dec_result" where
  "pb_dec_submessage rec fuel env s field dest m =
     (case pb_make_string_substream s of
        (None, s') \<Rightarrow> Ret (False, s', m)
      | (Some sub, s') \<Rightarrow>
          (case pf_ptr field of
             PFields t \<Rightarrow>
               close_after s'
                 (if PB_HTYPE (pf_type field) = PB_HTYPE_REPEATED
                  then pb_decode_with rec fuel env sub (tables env t) dest m
                  else rec sub (tables env t) dest m)
           | _ \<Rightarrow> Ret (False, pb_iset_error ''invalid field descriptor'' s', m)))"

text \<open>The call through \<open>PB_DECODERS\<close>, whose entry 8 is null and which has ten entries.\<close>

definition call_decoder ::
    "'s dec_msg \<Rightarrow> nat \<Rightarrow> 's pb_env \<Rightarrow> 's pb_istream \<Rightarrow> pb_field \<Rightarrow> nat \<Rightarrow> mem \<Rightarrow> 's dec_result" where
  "call_decoder rec fuel env s field dest m =
     (let l = PB_LTYPE (pf_type field) in
      if l = PB_LTYPE_VARINT then Ret (pb_dec_varint s field dest m)
      else if l = PB_LTYPE_UVARINT then Ret (pb_dec_uvarint s field dest m)
      else if l = PB_LTYPE_SVARINT then Ret (pb_dec_svarint s field dest m)
      else if l = PB_LTYPE_FIXED32 then Ret (pb_dec_fixed32 s field dest m)
      else if l = PB_LTYPE_FIXED64 then Ret (pb_dec_fixed64 s field dest m)
      else if l = PB_LTYPE_BYTES then Ret (pb_dec_bytes s field dest m)
      else if l = PB_LTYPE_STRING then Ret (pb_dec_string s field dest m)
      else if l = PB_LTYPE_SUBMESSAGE then pb_dec_submessage rec fuel env s field dest m
      else if l = PB_LTYPE_FIXED_LENGTH_BYTES then Ret (pb_dec_fixed_length_bytes s field dest m)
      else Undefined)"

text \<open>The loop over a packed array: items are stored while the substream has bytes and the array has
  room. The result holds \<open>status\<close>.\<close>

fun packed_loop ::
    "nat \<Rightarrow> ('s pb_istream \<Rightarrow> nat \<Rightarrow> mem \<Rightarrow> 's dec_result) \<Rightarrow> pb_field_iter \<Rightarrow> 's pb_istream \<Rightarrow> mem \<Rightarrow>
      's dec_result" where
  "packed_loop 0 func it sub m = Out_Of_Fuel"
| "packed_loop (Suc fuel) func it sub m =
     (let count = unat (load32 m (pSize it)); field = it_field it in
      if 0 < bytes_left sub \<and> count < pf_array_size field then
        dec_then (func sub (pData it + pf_data_size field * count) m) (\<lambda>sub m.
          packed_loop fuel func it sub (store32 m (pSize it) (load32 m (pSize it) + 1)))
      else Ret (True, sub, m))"

definition decode_static_field ::
    "'s dec_msg \<Rightarrow> nat \<Rightarrow> 's pb_env \<Rightarrow> 's pb_istream \<Rightarrow> pb_wire_type_t \<Rightarrow> pb_field_iter \<Rightarrow> mem \<Rightarrow>
      's dec_result" where
  "decode_static_field rec fuel env s wire_type it m =
     (let field = it_field it; t = pf_type field; h = PB_HTYPE t;
          func = (\<lambda>s dest m. call_decoder rec fuel env s field dest m)
      in if h = PB_HTYPE_REQUIRED then func s (pData it) m
         else if h = PB_HTYPE_OPTIONAL then
           func s (pData it) (if pSize it \<noteq> pData it then store_bytes m (pSize it) [1] else m)
         else if h = PB_HTYPE_REPEATED then
           (if wire_type = PB_WT_STRING \<and> PB_LTYPE t \<le> PB_LTYPE_LAST_PACKABLE then
              (case pb_make_string_substream s of
                 (None, s') \<Rightarrow> Ret (False, s', m)
               | (Some sub, s') \<Rightarrow>
                   outcome_bind (packed_loop fuel func it sub m) (\<lambda>(status, sub', m').
                     if bytes_left sub' \<noteq> 0
                     then Ret (False, pb_iset_error ''array overflow'' s', m')
                     else close_after s' (Ret (status, sub', m'))))
            else
              (let count = load32 m (pSize it) in
               if pf_array_size field \<le> unat count
               then Ret (False, pb_iset_error ''array overflow'' s, m)
               else func s (pData it + pf_data_size field * unat count)
                      (store32 m (pSize it) (count + 1))))
         else
           (let m1 = store32 m (pSize it) (pf_tag field) in
            if PB_LTYPE t = PB_LTYPE_SUBMESSAGE then
              (case pf_ptr field of
                 PFields n \<Rightarrow>
                   outcome_bind
                     (pb_message_set_to_defaults fuel env (tables env n) (pData it)
                       (store_bytes m1 (pData it) (replicate (pf_data_size field) 0)))
                     (\<lambda>m2. func s (pData it) m2)
               | _ \<Rightarrow> Undefined)
            else func s (pData it) m1))"

definition decode_pointer_field ::
    "'s pb_istream \<Rightarrow> pb_wire_type_t \<Rightarrow> pb_field_iter \<Rightarrow> mem \<Rightarrow> 's dec_value" where
  "decode_pointer_field s wire_type it m = (False, pb_iset_error ''no malloc support'' s, m)"

text \<open>The user's callback is called until the substream is empty.\<close>

fun callback_loop ::
    "nat \<Rightarrow> ('s pb_istream \<Rightarrow> mem \<Rightarrow> bool \<times> 's pb_istream \<times> mem) \<Rightarrow> 's pb_istream \<Rightarrow> mem \<Rightarrow>
      's dec_result" where
  "callback_loop 0 f sub m = Out_Of_Fuel"
| "callback_loop (Suc fuel) f sub m =
     (case f sub m of
        (False, sub', m') \<Rightarrow> Ret (False, sub', m')
      | (True, sub', m') \<Rightarrow>
          if bytes_left sub' \<noteq> 0 then callback_loop fuel f sub' m' else Ret (True, sub', m'))"

definition decode_callback_field ::
    "nat \<Rightarrow> 's pb_env \<Rightarrow> 's pb_istream \<Rightarrow> pb_wire_type_t \<Rightarrow> pb_field_iter \<Rightarrow> mem \<Rightarrow> 's dec_result" where
  "decode_callback_field fuel env s wire_type it m =
     (let fn = load64 m (pData it);
          call = (\<lambda>sub m. decode_cb env fn sub (it_field it) m (pData it + 8))
      in if fn = 0 then
           (case pb_skip_field s wire_type of (r, s') \<Rightarrow> Ret (r \<noteq> None, s', m))
         else if wire_type = PB_WT_STRING then
           (case pb_make_string_substream s of
              (None, s') \<Rightarrow> Ret (False, s', m)
            | (Some sub, s') \<Rightarrow>
                outcome_bind (callback_loop fuel call sub m) (\<lambda>(ok, sub', m').
                  if \<not> ok then Ret (False, pb_iset_error ''callback failed'' s', m')
                  else close_after s' (Ret (True, sub', m'))))
         else
           (case read_raw_value s wire_type 10 of
              (None, s') \<Rightarrow> Ret (False, s', m)
            | (Some buffer, s') \<Rightarrow>
                (case call (pb_istream_from_buffer (mem_of buffer) 0 (length buffer)) m of
                   (ok, _, m') \<Rightarrow> Ret (ok, s', m'))))"

definition decode_field ::
    "'s dec_msg \<Rightarrow> nat \<Rightarrow> 's pb_env \<Rightarrow> 's pb_istream \<Rightarrow> pb_wire_type_t \<Rightarrow> pb_field_iter \<Rightarrow> mem \<Rightarrow>
      's dec_result" where
  "decode_field rec fuel env s wire_type it m =
     (let a = PB_ATYPE (pf_type (it_field it)) in
      if a = PB_ATYPE_STATIC then decode_static_field rec fuel env s wire_type it m
      else if a = PB_ATYPE_POINTER then Ret (decode_pointer_field s wire_type it m)
      else if a = PB_ATYPE_CALLBACK then decode_callback_field fuel env s wire_type it m
      else Ret (False, pb_iset_error ''invalid field type'' s, m))"

section \<open>Extensions\<close>

definition default_extension_decoder ::
    "'s dec_msg \<Rightarrow> nat \<Rightarrow> 's pb_env \<Rightarrow> 's pb_istream \<Rightarrow> nat \<Rightarrow> u32 \<Rightarrow> pb_wire_type_t \<Rightarrow> mem \<Rightarrow>
      's dec_result" where
  "default_extension_decoder rec fuel env s x tg wire_type m =
     (if pf_tag (xt_arg (ext_type_of env m x)) \<noteq> tg then Ret (True, s, m)
      else decode_field rec fuel env s wire_type (iter_from_extension env m x)
             (store_bytes m (ext_found_addr x) [1]))"

fun decode_extensions ::
    "nat \<Rightarrow> nat \<Rightarrow> 's dec_msg \<Rightarrow> nat \<Rightarrow> 's pb_env \<Rightarrow> u32 \<Rightarrow> pb_wire_type_t \<Rightarrow> nat \<Rightarrow>
      's pb_istream \<Rightarrow> mem \<Rightarrow> 's dec_result" where
  "decode_extensions 0 pos rec fuel env tg wire_type x s m = Out_Of_Fuel"
| "decode_extensions (Suc n) pos rec fuel env tg wire_type x s m =
     (if x \<noteq> 0 \<and> pos = bytes_left s then
        let fn = xt_decode (ext_type_of env m x) in
        dec_then
          (if fn \<noteq> 0 then Ret (ext_decode_cb env fn s m x tg wire_type)
           else default_extension_decoder rec fuel env s x tg wire_type m)
          (\<lambda>s m. decode_extensions n pos rec fuel env tg wire_type (ext_next m x) s m)
      else Ret (True, s, m))"

definition decode_extension ::
    "'s dec_msg \<Rightarrow> nat \<Rightarrow> 's pb_env \<Rightarrow> 's pb_istream \<Rightarrow> u32 \<Rightarrow> pb_wire_type_t \<Rightarrow> pb_field_iter \<Rightarrow>
      mem \<Rightarrow> 's dec_result" where
  "decode_extension rec fuel env s tg wire_type it m =
     decode_extensions fuel (bytes_left s) rec fuel env tg wire_type (load_ptr m (pData it)) s m"

definition find_extension_field :: "pb_field_iter \<Rightarrow> (bool \<times> pb_field_iter) option" where
  "find_extension_field it =
     find_loop (length (it_start it)) (\<lambda>f. PB_LTYPE (pf_type f) = PB_LTYPE_EXTENSION) (it_pos it) it"

section \<open>Decoding all fields\<close>

abbreviation (input) PB_MAX_REQUIRED_FIELDS :: nat where "PB_MAX_REQUIRED_FIELDS \<equiv> 64"
abbreviation (input) allbits :: u32 where "allbits \<equiv> - 1"

text \<open>Noting a required field in \<open>fields_seen\<close>.\<close>

definition mark_seen :: "pb_field_iter \<Rightarrow> u32 list \<Rightarrow> u32 list" where
  "mark_seen it seen =
     (let r = required_field_index it in
      if PB_HTYPE (pf_type (it_field it)) = PB_HTYPE_REQUIRED \<and> r < PB_MAX_REQUIRED_FIELDS
      then seen[r div 32 := seen ! (r div 32) OR push_bit (r mod 32) 1] else seen)"

text \<open>The test for missing required fields: \<open>fields_seen\<close> has two words, and shifting a 32-bit word by
  32 is undefined.\<close>

fun whole_words :: "u32 list \<Rightarrow> nat \<Rightarrow> nat \<Rightarrow> bool outcome" where
  "whole_words seen i 0 = Ret True"
| "whole_words seen i (Suc n) =
     (if length seen \<le> i then Undefined
      else if seen ! i \<noteq> allbits then Ret False else whole_words seen (Suc i) n)"

definition required_present :: "u32 list \<Rightarrow> nat \<Rightarrow> bool outcome" where
  "required_present seen req_field_count =
     (if 0 < req_field_count then
        outcome_bind (whole_words seen 0 (req_field_count div 32)) (\<lambda>ok.
          if \<not> ok then Ret False
          else if length seen \<le> req_field_count div 32 \<or> req_field_count mod 32 = 0 then Undefined
          else Ret (seen ! (req_field_count div 32) =
                    drop_bit (32 - req_field_count mod 32) allbits))
      else Ret True)"

text \<open>Seeking to the end of the descriptors: \<open>req_field_count\<close>, \<open>last_type\<close> and the iterator.\<close>

fun seek_end :: "nat \<Rightarrow> pb_field_iter \<Rightarrow> (nat \<times> u8 \<times> pb_field_iter) option" where
  "seek_end 0 it = None"
| "seek_end (Suc fuel) it =
     (case pb_field_iter_next it of
        (again, it') \<Rightarrow> if again then seek_end fuel it'
                     else Some (required_field_index it, pf_type (it_field it), it'))"

definition check_required :: "pb_field_iter \<Rightarrow> u32 list \<Rightarrow> bool outcome" where
  "check_required it seen =
     (case seek_end (Suc (length (it_start it))) it of
        None \<Rightarrow> Out_Of_Fuel
      | Some (count, last_type, it') \<Rightarrow>
          required_present seen
            (if PB_HTYPE last_type = PB_HTYPE_REQUIRED \<and> pf_tag (it_field it') \<noteq> 0
             then Suc count else count))"

text \<open>The loop returns \<open>false\<close> (with the stream and memory), or ends with the iterator and
  \<open>fields_seen\<close> for the test of required fields.\<close>

datatype 's loop_end =
  Loop_False "'s pb_istream" mem
| Loop_Done "'s pb_istream" mem pb_field_iter "u32 list"

fun loop_then :: "'s dec_result \<Rightarrow> ('s pb_istream \<Rightarrow> mem \<Rightarrow> 's loop_end outcome) \<Rightarrow>
    's loop_end outcome" where
  "loop_then (Ret (ok, s, m)) k = (if ok then k s m else Ret (Loop_False s m))"
| "loop_then Out_Of_Fuel k = Out_Of_Fuel"
| "loop_then Undefined k = Undefined"

definition noinit_with ::
    "('s pb_istream \<Rightarrow> pb_field_iter \<Rightarrow> u32 list \<Rightarrow> u32 \<Rightarrow> mem \<Rightarrow> 's loop_end outcome) \<Rightarrow> 's dec_msg"
  where
  "noinit_with loop s flds dest m =
     outcome_bind (loop s (snd (pb_field_iter_begin flds dest)) [0, 0] 0 m) (\<lambda>r.
       case r of
         Loop_False s' m' \<Rightarrow> Ret (False, s', m')
       | Loop_Done s' m' it seen \<Rightarrow>
           outcome_bind (check_required it seen) (\<lambda>ok.
             if ok then Ret (True, s', m')
             else Ret (False, pb_iset_error ''missing required field'' s', m')))"

text \<open>A tag that no field has: extensions, then skipping. \<open>continue\<close> is the loop.\<close>

definition decode_unknown ::
    "'s dec_msg \<Rightarrow> nat \<Rightarrow> 's pb_env \<Rightarrow>
      ('s pb_istream \<Rightarrow> pb_field_iter \<Rightarrow> u32 \<Rightarrow> mem \<Rightarrow> 's loop_end outcome) \<Rightarrow>
      's pb_istream \<Rightarrow> u32 \<Rightarrow> pb_wire_type_t \<Rightarrow> pb_field_iter \<Rightarrow> u32 \<Rightarrow> mem \<Rightarrow> 's loop_end outcome" where
  "decode_unknown rec fuel env continue s tg wire_type it ext_start m =
     (let skip = (\<lambda>s it ext_start m.
            case pb_skip_field s wire_type of
              (None, s') \<Rightarrow> Ret (Loop_False s' m)
            | (Some _, s') \<Rightarrow> continue s' it ext_start m)
      in if ext_start \<le> tg then
           (case find_extension_field it of
              None \<Rightarrow> Out_Of_Fuel
            | Some (found, it') \<Rightarrow>
                (let ext_start' = (if found then pf_tag (it_field it') else - 1) in
                 if ext_start' \<le> tg then
                   loop_then (decode_extension rec fuel env s tg wire_type it' m) (\<lambda>s' m'.
                     if bytes_left s \<noteq> bytes_left s' then continue s' it' ext_start' m'
                     else skip s' it' ext_start' m')
                 else skip s it' ext_start' m))
         else skip s it ext_start m)"

fun decode_fields ::
    "nat \<Rightarrow> 's pb_env \<Rightarrow> 's pb_istream \<Rightarrow> pb_field_iter \<Rightarrow> u32 list \<Rightarrow> u32 \<Rightarrow> mem \<Rightarrow>
      's loop_end outcome" where
  "decode_fields 0 env s it seen ext_start m = Out_Of_Fuel"
| "decode_fields (Suc fuel) env s it seen ext_start m =
     (if bytes_left s = 0 then Ret (Loop_Done s m it seen)
      else case pb_decode_tag s of
          ((False, _, _, eof), s') \<Rightarrow>
            Ret (if eof then Loop_Done s' m it seen else Loop_False s' m)
        | ((True, wire_type, tg, _), s') \<Rightarrow>
            (let rec = noinit_with (decode_fields fuel env) in
             case pb_field_iter_find it tg of
               None \<Rightarrow> Out_Of_Fuel
             | Some (False, it') \<Rightarrow>
                 decode_unknown rec fuel env
                   (\<lambda>s it ext_start m. decode_fields fuel env s it seen ext_start m)
                   s' tg wire_type it' ext_start m
             | Some (True, it') \<Rightarrow>
                 loop_then (decode_field rec fuel env s' wire_type it' m) (\<lambda>s'' m'.
                   decode_fields fuel env s'' it' (mark_seen it' seen) ext_start m')))"

definition pb_decode_noinit :: "nat \<Rightarrow> 's pb_env \<Rightarrow> 's dec_msg" where
  "pb_decode_noinit fuel env = noinit_with (decode_fields fuel env)"

definition pb_decode :: "nat \<Rightarrow> 's pb_env \<Rightarrow> 's dec_msg" where
  "pb_decode fuel env = pb_decode_with (pb_decode_noinit fuel env) fuel env"

definition pb_decode_delimited :: "nat \<Rightarrow> 's pb_env \<Rightarrow> 's dec_msg" where
  "pb_decode_delimited fuel env s flds dest m =
     (case pb_make_string_substream s of
        (None, s') \<Rightarrow> Ret (False, s', m)
      | (Some sub, s') \<Rightarrow> close_after s' (pb_decode fuel env sub flds dest m))"

end
