(* ===== verification/Pb_Decode_Safe.thy ===== *)
theory Pb_Decode_Safe
  imports Pb_Iter Pb_Decode
begin

text \<open>
  The message decoder of nanopb never leaves its bounds: for descriptors that describe the struct they
  are used with, \<open>pb_decode\<close> returns on every input and every stream, takes from its source only the
  bytes it was given, and writes only inside the struct. The lemmas go up the call graph, one per function.
\<close>

section \<open>Memory and streams\<close>

definition same_outside :: "nat set \<Rightarrow> mem \<Rightarrow> mem \<Rightarrow> bool" where
  "same_outside A m m' \<longleftrightarrow> (\<forall>x. x \<notin> A \<longrightarrow> m' x = m x)"

lemma same_outside_refl [simp]: "same_outside A m m"
  by (simp add: same_outside_def)

lemma same_outside_trans: "same_outside A m m' \<Longrightarrow> same_outside A m' m'' \<Longrightarrow> same_outside A m m''"
  by (simp add: same_outside_def)

lemma same_outside_store: "{a..<a + length bs} \<subseteq> A \<Longrightarrow> same_outside A m (store_bytes m a bs)"
  by (auto simp: same_outside_def store_bytes_def)

lemma same_outside_words:
  "{a..<a + 2} \<subseteq> A \<Longrightarrow> same_outside A m (store16 m a v2)"
  "{a..<a + 4} \<subseteq> A \<Longrightarrow> same_outside A m (store32 m a v4)"
  "{a..<a + 8} \<subseteq> A \<Longrightarrow> same_outside A m (store64 m a v8)"
  unfolding store16_def store32_def store64_def by (rule same_outside_store, simp)+

text \<open>A call that returns, takes bytes from its stream only, and writes only inside \<open>A\<close>.\<close>

definition safe_value :: "nat set \<Rightarrow> 's pb_istream \<Rightarrow> mem \<Rightarrow> 's dec_value \<Rightarrow> bool" where
  "safe_value A s m r \<longleftrightarrow>
     (case r of (ok, s', m') \<Rightarrow> advances s s' \<and> same_outside A m m')"

definition safe :: "nat set \<Rightarrow> 's pb_istream \<Rightarrow> mem \<Rightarrow> 's dec_result \<Rightarrow> bool" where
  "safe A s m r \<longleftrightarrow> (\<exists>v. r = Ret v \<and> safe_value A s m v)"

lemma safe_Ret [simp]: "safe A s m (Ret v) \<longleftrightarrow> safe_value A s m v"
  by (simp add: safe_def)

lemma safe_value_simp [simp]:
  "safe_value A s m (ok, s', m') \<longleftrightarrow> advances s s' \<and> same_outside A m m'"
  by (simp add: safe_value_def)

lemma safeE:
  assumes "safe A s m r"
  obtains ok s' m' where "r = Ret (ok, s', m')" "advances s s'" "same_outside A m m'"
  using assms by (auto simp: safe_def)

lemma safe_mono:
  assumes "safe A s m r" "advances t s" "same_outside A m0 m"
  shows "safe A t m0 r"
  using assms by (auto elim!: safeE intro: same_outside_trans advances_trans)

lemma safe_then:
  assumes "safe A s m r"
    and "\<And>s' m'. advances s s' \<Longrightarrow> same_outside A m m' \<Longrightarrow> safe A s' m' (k s' m')"
  shows "safe A s m (dec_then r k)"
proof -
  from assms(1) obtain ok s' m' where r: "r = Ret (ok, s', m')" "advances s s'"
    "same_outside A m m'" by (rule safeE)
  with safe_mono [OF assms(2) [OF r(2,3)] r(2,3)] show ?thesis by simp
qed

section \<open>The decoders of single values\<close>

lemma pb_read_into_safe:
  assumes "{dest..<dest + n} \<subseteq> A"
  shows "safe_value A s m (pb_read_into s dest n m)"
proof (cases "pb_read s False n")
  case (Pair r s')
  have "length bs = n" if "r = Some bs" for bs
    using Pair that by (auto simp: pb_read_def dest: pb_read_checked_decreases split: if_splits)
  then show ?thesis
    using Pair assms pb_read_advances [of s False n]
    by (auto simp: pb_read_into_def intro!: same_outside_store split: option.split)
qed

lemma store_signed_outside:
  "store_signed n m dest v = Some (m', c) \<Longrightarrow> {dest..<dest + n} \<subseteq> A \<Longrightarrow> same_outside A m m'"
  by (auto simp: store_signed_def same_outside_words same_outside_store split: if_splits)

lemma store_unsigned_outside:
  "store_unsigned n m dest v = Some (m', c) \<Longrightarrow> {dest..<dest + n} \<subseteq> A \<Longrightarrow> same_outside A m m'"
  by (auto simp: store_unsigned_def same_outside_words same_outside_store split: if_splits)

text \<open>Where the size of a fixed-width value is given by its type, the field has the room.\<close>

definition room_for_type :: "pb_field \<Rightarrow> bool" where
  "room_for_type f \<longleftrightarrow>
     (PB_LTYPE (pf_type f) = PB_LTYPE_FIXED32 \<longrightarrow> 4 \<le> pf_data_size f) \<and>
     (PB_LTYPE (pf_type f) = PB_LTYPE_FIXED64 \<longrightarrow> 8 \<le> pf_data_size f)"

lemma pb_dec_varints_safe:
  assumes "{dest..<dest + pf_data_size f} \<subseteq> A"
  shows "safe_value A s m (pb_dec_varint s f dest m)" "safe_value A s m (pb_dec_uvarint s f dest m)"
    "safe_value A s m (pb_dec_svarint s f dest m)"
  using pb_decode_varint_advances [of s] pb_decode_svarint_advances [of s] assms
  by (auto simp: pb_dec_varint_def pb_dec_uvarint_def pb_dec_svarint_def Let_def
      split: prod.split option.split intro: store_signed_outside store_unsigned_outside)

lemma pb_dec_fixed_safe:
  assumes "{dest..<dest + pf_data_size f} \<subseteq> A"
  shows "4 \<le> pf_data_size f \<Longrightarrow> safe_value A s m (pb_dec_fixed32 s f dest m)"
    and "8 \<le> pf_data_size f \<Longrightarrow> safe_value A s m (pb_dec_fixed64 s f dest m)"
  using pb_decode_fixed_advances [of s] assms
  by (auto simp: pb_dec_fixed32_def pb_dec_fixed64_def same_outside_words subset_eq
      split: prod.split option.split)

lemma pb_dec_bytes_safe:
  assumes "{dest..<dest + pf_data_size f} \<subseteq> A"
  shows "safe_value A s m (pb_dec_bytes s f dest m)"
proof (cases "pb_decode_varint32 s")
  case (Pair r s')
  have left: "advances s s'" using pb_decode_varint32_advances [of s] Pair by simp
  have "safe_value A s m (pb_read_into s' (dest + 4) (unat sz) (store32 m dest sz))"
    if "unat sz + 4 \<le> pf_data_size f" for sz
  proof -
    have "same_outside A m (store32 m dest sz)"
      using assms that by (intro same_outside_words) auto
    moreover have "safe_value A s' (store32 m dest sz) (pb_read_into s' (dest + 4) (unat sz) (store32 m dest sz))"
      using assms that by (intro pb_read_into_safe) auto
    ultimately show ?thesis using left by (auto simp: safe_value_def intro: same_outside_trans advances_trans)
  qed
  moreover have "PB_BYTES_ARRAY_T_ALLOCSIZE (unat sz) = unat sz + 4" for sz :: u32
    using unat_u32_less [of sz] by (simp add: PB_BYTES_ARRAY_T_ALLOCSIZE_def)
  ultimately show ?thesis
    using Pair left by (auto simp: pb_dec_bytes_def Let_def not_less split: option.split)
qed

lemma pb_dec_string_safe:
  assumes "{dest..<dest + pf_data_size f} \<subseteq> A"
  shows "safe_value A s m (pb_dec_string s f dest m)"
proof (cases "pb_decode_varint32 s")
  case (Pair r s')
  have left: "advances s s'" using pb_decode_varint32_advances [of s] Pair by simp
  have "safe_value A s m (case pb_read_into s' dest (unat sz) m of
      (status, s'', m') \<Rightarrow> (status, s'', store_bytes m' (dest + unat sz) [0]))"
    if "unat sz < pf_data_size f" for sz
  proof -
    have "safe_value A s' m (pb_read_into s' dest (unat sz) m)"
      using assms that by (intro pb_read_into_safe) auto
    moreover have "same_outside A m' (store_bytes m' (dest + unat sz) [0])" for m'
      using assms that by (intro same_outside_store) auto
    ultimately show ?thesis
      using left by (cases "pb_read_into s' dest (unat sz) m") (auto intro: same_outside_trans advances_trans)
  qed
  moreover have "unat sz < n" if "\<not> n < unat (sz + 1)" "\<not> unat (sz + 1) < unat sz" for sz :: u32 and n
  proof -
    have "unat (sz + 1) = (if unat sz + 1 < 2 ^ 32 then unat sz + 1 else 0)"
      using unat_u32_less [of sz] by (cases "unat sz = 4294967295") (auto simp: unat_word_ariths)
    with that show ?thesis by (auto split: if_splits)
  qed
  ultimately show ?thesis
    using Pair left by (auto simp: pb_dec_string_def Let_def split: option.split)
qed

lemma pb_dec_fixed_length_bytes_safe:
  assumes "{dest..<dest + pf_data_size f} \<subseteq> A"
  shows "safe_value A s m (pb_dec_fixed_length_bytes s f dest m)"
proof (cases "pb_decode_varint32 s")
  case (Pair r s')
  have left: "advances s s'" using pb_decode_varint32_advances [of s] Pair by simp
  have "safe_value A s m (pb_read_into s' dest (pf_data_size f) m)"
    using pb_read_into_safe [OF assms, of s' m] left by (auto simp: safe_value_def intro: advances_trans)
  then show ?thesis
    using Pair left assms by (auto simp: pb_dec_fixed_length_bytes_def split: option.split
        intro!: same_outside_store)
qed

section \<open>Well-formed descriptors\<close>

text \<open>
  \<open>rank t\<close> bounds the nesting of static submessages below the table \<open>t\<close> and \<open>ssize t\<close> is the size of
  its struct. A table is well formed when it ends with \<open>PB_LAST_FIELD\<close>, has no extension field, the
  fields lie inside the struct, and the number of its required fields is one that \<open>pb_decode\<close> can
  check.
\<close>

definition element_ok :: "(nat \<Rightarrow> nat) \<Rightarrow> (nat \<Rightarrow> nat) \<Rightarrow> nat \<Rightarrow> pb_field \<Rightarrow> bool" where
  "element_ok rank ssize k f \<longleftrightarrow>
     room_for_type f \<and> PB_LTYPE (pf_type f) \<le> PB_LTYPE_FIXED_LENGTH_BYTES \<and>
     (if PB_LTYPE (pf_type f) = PB_LTYPE_SUBMESSAGE
      then \<exists>t. pf_ptr f = PFields t \<and> rank t < k \<and> ssize t \<le> pf_data_size f
      else \<forall>t. pf_ptr f \<noteq> PFields t)"

definition placed :: "pb_field list \<Rightarrow> nat \<Rightarrow> nat \<Rightarrow> bool" where
  "placed flds len i \<longleftrightarrow>
     (let f = flds ! i; h = PB_HTYPE (pf_type f) in
      0 \<le> int (field_addr flds 0 i) + pf_size_offset f \<and>
      (PB_ATYPE (pf_type f) \<noteq> PB_ATYPE_CALLBACK \<longrightarrow> field_addr flds 0 i + storage_size f \<le> len) \<and>
      (h = PB_HTYPE_OPTIONAL \<and> size_addr flds 0 i \<noteq> field_addr flds 0 i \<longrightarrow>
         size_addr flds 0 i + 1 \<le> len) \<and>
      (h = PB_HTYPE_REPEATED \<or> h = PB_HTYPE_ONEOF \<longrightarrow> size_addr flds 0 i + 4 \<le> len))"

definition required_ok :: "pb_field list \<Rightarrow> bool" where
  "required_ok flds \<longleftrightarrow>
     (let r = required_before flds (length (real_fields flds)) in r < 64 \<and> (r mod 32 \<noteq> 0 \<or> r = 0))"

definition struct_ok ::
    "(nat \<Rightarrow> nat) \<Rightarrow> (nat \<Rightarrow> nat) \<Rightarrow> nat \<Rightarrow> nat \<Rightarrow> pb_field list \<Rightarrow> bool" where
  "struct_ok rank ssize k len flds \<longleftrightarrow>
     flds \<noteq> [] \<and> last flds = PB_LAST_FIELD \<and> (\<forall>f\<in>set (butlast flds). pf_tag f \<noteq> 0) \<and>
     required_ok flds \<and>
     (\<forall>i<length (real_fields flds). placed flds len i \<and>
        PB_LTYPE (pf_type (flds ! i)) \<noteq> PB_LTYPE_EXTENSION \<and>
        (PB_ATYPE (pf_type (flds ! i)) = PB_ATYPE_STATIC \<longrightarrow> element_ok rank ssize k (flds ! i)))"

lemma struct_ok_terminated: "struct_ok rank ssize k len flds \<Longrightarrow> terminated flds"
  using last_in_set [of flds] by (auto simp: struct_ok_def terminated_def intro!: bexI [of _ PB_LAST_FIELD])

lemma struct_ok_real:
  assumes "struct_ok rank ssize k len flds"
  shows "real_fields flds = butlast flds"
proof -
  have "flds = butlast flds @ [PB_LAST_FIELD]"
    using assms append_butlast_last_id [of flds] by (simp add: struct_ok_def)
  moreover have "real_fields (butlast flds @ [PB_LAST_FIELD]) = butlast flds"
    using assms by (subst takeWhile_append2) (auto simp: struct_ok_def)
  ultimately show ?thesis by simp
qed

lemma field_addr_offset: "field_addr flds d i = d + field_addr flds 0 i"
  by (induction i) (auto simp: Let_def)

lemma size_addr_offset:
  assumes "\<forall>j\<le>i. 0 \<le> int (field_addr flds 0 j) + pf_size_offset (flds ! j)"
  shows "size_addr flds d i = d + size_addr flds 0 i"
  using assms
proof (induction i)
  case 0
  then show ?case by (simp add: offset_addr_def nat_add_distrib)
next
  case (Suc i)
  have "0 \<le> int (field_addr flds 0 (Suc i)) + pf_size_offset (flds ! Suc i)"
    using Suc.prems by blast
  then have "offset_addr (field_addr flds d (Suc i)) (pf_size_offset (flds ! Suc i)) =
      d + offset_addr (field_addr flds 0 (Suc i)) (pf_size_offset (flds ! Suc i))"
    unfolding offset_addr_def field_addr_offset [of flds d "Suc i"] by simp
  moreover have "size_addr flds d i = d + size_addr flds 0 i" using Suc by simp
  ultimately show ?case by (simp del: field_addr.simps)
qed

text \<open>What a well-formed field gives for the addresses that the iterator holds.\<close>

lemma placed_facts:
  assumes "struct_ok rank ssize k len flds" "i < length (real_fields flds)" "{d..<d + len} \<subseteq> A"
  shows "PB_ATYPE (pf_type (flds ! i)) \<noteq> PB_ATYPE_CALLBACK \<Longrightarrow>
      {field_addr flds d i..<field_addr flds d i + storage_size (flds ! i)} \<subseteq> A"
    and "PB_HTYPE (pf_type (flds ! i)) = PB_HTYPE_OPTIONAL \<Longrightarrow>
      size_addr flds d i \<noteq> field_addr flds d i \<Longrightarrow> {size_addr flds d i..<size_addr flds d i + 1} \<subseteq> A"
    and "PB_HTYPE (pf_type (flds ! i)) = PB_HTYPE_REPEATED \<or> PB_HTYPE (pf_type (flds ! i)) = PB_HTYPE_ONEOF \<Longrightarrow>
      {size_addr flds d i..<size_addr flds d i + 4} \<subseteq> A"
proof -
  have p: "\<forall>j<length (real_fields flds). placed flds len j" using assms(1) by (simp add: struct_ok_def)
  then have pi: "placed flds len i" using assms(2) by simp
  have sz: "size_addr flds d i = d + size_addr flds 0 i"
    using p assms(2) by (intro size_addr_offset) (auto simp: placed_def Let_def)
  note addr = field_addr_offset [of flds d i]
  show "{field_addr flds d i..<field_addr flds d i + storage_size (flds ! i)} \<subseteq> A"
    if "PB_ATYPE (pf_type (flds ! i)) \<noteq> PB_ATYPE_CALLBACK"
    using pi that assms(3) unfolding addr by (fastforce simp: placed_def Let_def)
  show "{size_addr flds d i..<size_addr flds d i + 1} \<subseteq> A"
    if "PB_HTYPE (pf_type (flds ! i)) = PB_HTYPE_OPTIONAL" "size_addr flds d i \<noteq> field_addr flds d i"
    using pi that assms(3) unfolding addr sz by (fastforce simp: placed_def Let_def)
  show "{size_addr flds d i..<size_addr flds d i + 4} \<subseteq> A"
    if "PB_HTYPE (pf_type (flds ! i)) = PB_HTYPE_REPEATED \<or> PB_HTYPE (pf_type (flds ! i)) = PB_HTYPE_ONEOF"
    using pi that assms(3) unfolding sz by (fastforce simp: placed_def Let_def)
qed

section \<open>Default values\<close>

definition writes_in :: "nat set \<Rightarrow> mem \<Rightarrow> mem outcome \<Rightarrow> bool" where
  "writes_in A m r \<longleftrightarrow> (\<exists>m'. r = Ret m' \<and> same_outside A m m')"

lemma writes_in_Ret [simp]: "writes_in A m (Ret m') \<longleftrightarrow> same_outside A m m'"
  by (simp add: writes_in_def)

lemma writes_in_trans: "same_outside A m m' \<Longrightarrow> writes_in A m' r \<Longrightarrow> writes_in A m r"
  by (auto simp: writes_in_def intro: same_outside_trans advances_trans)

lemma fold_outcome_writes_in:
  "(\<And>x m. x \<in> set xs \<Longrightarrow> writes_in A m (f x m)) \<Longrightarrow> writes_in A m (fold_outcome f xs m)"
proof (induction xs arbitrary: m)
  case (Cons x xs)
  have "writes_in A m (f x m)" by (rule Cons.prems) simp
  then obtain m' where m': "f x m = Ret m'" "same_outside A m m'" by (auto simp: writes_in_def)
  have "writes_in A m' (fold_outcome f xs m')" by (rule Cons.IH) (simp add: Cons.prems)
  with m' show ?case by (auto intro: writes_in_trans)
qed simp

abbreviation tables_ok :: "(nat \<Rightarrow> nat) \<Rightarrow> (nat \<Rightarrow> nat) \<Rightarrow> 's pb_env \<Rightarrow> bool" where
  "tables_ok rank ssize env \<equiv> (\<forall>t. struct_ok rank ssize (rank t) (ssize t) (tables env t))"

lemma field_default_writes_in:
  assumes "tables_ok rank ssize env"
  shows "struct_ok rank ssize k len flds \<Longrightarrow> i < length (real_fields flds) \<Longrightarrow> {d..<d + len} \<subseteq> A \<Longrightarrow>
    k < fuel \<Longrightarrow> writes_in A m (pb_field_set_to_default fuel env (iter_at flds d i) m)"
proof (induction fuel arbitrary: k len flds i d m)
  case (Suc fuel)
  let ?f = "flds ! i" and ?p = "field_addr flds d i" and ?q = "size_addr flds d i"
  let ?msg = "\<lambda>n dest m. fold_outcome (pb_field_set_to_default fuel env)
                   (message_iters (tables env n) dest) m"
  note facts = placed_facts [OF Suc.prems(1-3)]
  have f: "PB_LTYPE (pf_type ?f) \<noteq> PB_LTYPE_EXTENSION"
    "PB_ATYPE (pf_type ?f) = PB_ATYPE_STATIC \<Longrightarrow> element_ok rank ssize k ?f"
    using Suc.prems(1,2) by (auto simp: struct_ok_def)
  have msg: "writes_in A m (?msg t a m)" if "rank t < k" "{a..<a + ssize t} \<subseteq> A" for t a m
  proof (rule fold_outcome_writes_in)
    fix it m assume it: "it \<in> set (message_iters (tables env t) a)"
    have ok: "struct_ok rank ssize (rank t) (ssize t) (tables env t)" using assms by simp
    from it obtain j where "it = iter_at (tables env t) a j" "j < length (real_fields (tables env t))"
      using message_iters_at [OF struct_ok_terminated [OF ok]] by auto
    with Suc.IH [OF ok _ that(2)] that(1) Suc.prems(4)
    show "writes_in A m (pb_field_set_to_default fuel env it m)" by auto
  qed
  have data: "writes_in A m (default_data ?msg (iter_at flds d i) m)"
    if static: "PB_ATYPE (pf_type ?f) = PB_ATYPE_STATIC" "PB_HTYPE (pf_type ?f) \<noteq> PB_HTYPE_REPEATED" for m
  proof -
    have room: "{?p..<?p + pf_data_size ?f} \<subseteq> A"
      using facts(1) static by (simp add: storage_size_def)
    show ?thesis
    proof (cases "PB_LTYPE (pf_type ?f) = PB_LTYPE_SUBMESSAGE")
      case True
      then obtain t where t: "pf_ptr ?f = PFields t" "rank t < k" "ssize t \<le> pf_data_size ?f"
        using f(2) [OF static(1)] by (auto simp: element_ok_def)
      have "{?p..<?p + ssize t} \<subseteq> A" using room t(3) by (auto simp: subset_eq)
      with msg [OF t(2)] True t(1) show ?thesis by (simp add: default_data_def)
    next
      case False
      have "same_outside A m (store_bytes m ?p bs)" if "length bs \<le> pf_data_size ?f" for bs
        using room that by (intro same_outside_store) (auto simp: subset_eq)
      with False f(2) [OF static(1)] show ?thesis
        by (auto simp: default_data_def element_ok_def Let_def split: pb_ptr.split)
    qed
  qed
  have "writes_in A m (default_data ?msg (iter_at flds d i) (store_bytes m ?q [0]))"
    if "PB_ATYPE (pf_type ?f) = PB_ATYPE_STATIC" "PB_HTYPE (pf_type ?f) = PB_HTYPE_OPTIONAL" "?q \<noteq> ?p"
  proof (rule writes_in_trans)
    show "same_outside A m (store_bytes m ?q [0])"
      using facts(2) that by (intro same_outside_store) auto
    show "writes_in A (store_bytes m ?q [0]) (default_data ?msg (iter_at flds d i) (store_bytes m ?q [0]))"
      using data that by simp
  qed
  moreover have "same_outside A m (store32 m ?q 0)"
    if "PB_HTYPE (pf_type ?f) = PB_HTYPE_REPEATED \<or> PB_HTYPE (pf_type ?f) = PB_HTYPE_ONEOF" for m
    using facts(3) that by (intro same_outside_words) auto
  moreover have "same_outside A m (store64 m ?p 0)" if "PB_ATYPE (pf_type ?f) = PB_ATYPE_POINTER"
    using facts(1) that by (intro same_outside_words) (simp add: storage_size_def)
  ultimately show ?case
    using data f(1) by (auto simp: Let_def intro: same_outside_trans advances_trans)
qed simp

lemma message_defaults_writes_in:
  assumes "tables_ok rank ssize env" "struct_ok rank ssize k len flds" "{d..<d + len} \<subseteq> A" "k < fuel"
  shows "writes_in A m (pb_message_set_to_defaults fuel env flds d m)"
  unfolding pb_message_set_to_defaults_def
  using message_iters_at [OF struct_ok_terminated [OF assms(2)]]
  by (intro fold_outcome_writes_in) (auto intro: field_default_writes_in [OF assms(1,2) _ assms(3,4)])

section \<open>Fields\<close>

text \<open>What the recursive call gives for submessages with a smaller rank in a shorter stream.\<close>

definition rec_safe ::
    "nat set \<Rightarrow> (nat \<Rightarrow> nat) \<Rightarrow> (nat \<Rightarrow> nat) \<Rightarrow> 's pb_env \<Rightarrow> nat \<Rightarrow> nat \<Rightarrow> 's dec_msg \<Rightarrow> bool" where
  "rec_safe A rank ssize env k left rec \<longleftrightarrow>
     (\<forall>t s dest m. rank t < k \<longrightarrow> {dest..<dest + ssize t} \<subseteq> A \<longrightarrow> bytes_left s < left \<longrightarrow>
        safe A s m (rec s (tables env t) dest m))"

lemma rec_safeD:
  "rec_safe A rank ssize env k left rec \<Longrightarrow> rank t < k \<Longrightarrow> {dest..<dest + ssize t} \<subseteq> A \<Longrightarrow>
     bytes_left s < left \<Longrightarrow> safe A s m (rec s (tables env t) dest m)"
  by (simp add: rec_safe_def)

lemma rec_safe_mono: "rec_safe A rank ssize env k left rec \<Longrightarrow> l' \<le> left \<Longrightarrow> rec_safe A rank ssize env k l' rec"
  by (auto simp: rec_safe_def)

lemma close_after_safe:
  assumes "pb_make_string_substream s = (Some sub, s')" "safe A sub m r"
  shows "safe A s m (close_after s' r)"
proof -
  from assms(2) obtain ok sub' m' where r: "r = Ret (ok, sub', m')" "advances sub sub'" "same_outside A m m'"
    by (rule safeE)
  show ?thesis
    using r(3) pb_close_string_substream_advances [OF assms(1) r(2)]
    by (cases "pb_close_string_substream s' sub'") (auto simp: close_after_def r(1) split: option.split)
qed

lemma pb_decode_with_safe:
  assumes "tables_ok rank ssize env" "rec_safe A rank ssize env k left rec" "rank t < k" "k \<le> fuel"
    and "{dest..<dest + ssize t} \<subseteq> A" "bytes_left s < left"
  shows "safe A s m (pb_decode_with rec fuel env s (tables env t) dest m)"
proof -
  have "struct_ok rank ssize (rank t) (ssize t) (tables env t)" using assms(1) by simp
  from message_defaults_writes_in [OF assms(1) this assms(5), of fuel m] assms(3,4)
  obtain m' where m': "pb_message_set_to_defaults fuel env (tables env t) dest m = Ret m'"
    "same_outside A m m'" by (auto simp: writes_in_def)
  have "safe A s m' (rec s (tables env t) dest m')" by (rule rec_safeD [OF assms(2,3,5,6)])
  with m' show ?thesis by (auto simp: pb_decode_with_def intro: safe_mono)
qed

lemma pb_dec_submessage_safe:
  assumes "tables_ok rank ssize env" "rec_safe A rank ssize env k (bytes_left s) rec" "k \<le> fuel"
    and "pf_ptr f = PFields t" "rank t < k" "ssize t \<le> pf_data_size f"
    and "{dest..<dest + pf_data_size f} \<subseteq> A"
  shows "safe A s m (pb_dec_submessage rec fuel env s f dest m)"
proof (cases "pb_make_string_substream s")
  case (Pair r s')
  have left: "advances s s'"
    using pb_make_string_substream_advances [of s] Pair by simp
  show ?thesis
  proof (cases r)
    case None
    with Pair left show ?thesis by (simp add: pb_dec_submessage_def)
  next
    case (Some sub)
    from pb_make_string_substream_bounds [OF Pair [unfolded Some]]
    have sub: "bytes_left sub < bytes_left s" by simp
    have A: "{dest..<dest + ssize t} \<subseteq> A" using assms(6,7) by (auto simp: subset_eq)
    have "safe A s m (close_after s'
        (if PB_HTYPE (pf_type f) = PB_HTYPE_REPEATED
         then pb_decode_with rec fuel env sub (tables env t) dest m
         else rec sub (tables env t) dest m))"
      using pb_decode_with_safe [OF assms(1,2,5,3) A sub] rec_safeD [OF assms(2,5) A sub]
      by (auto intro: close_after_safe [OF Pair [unfolded Some]])
    with Pair Some assms(4) show ?thesis
      by (simp add: pb_dec_submessage_def)
  qed
qed

text \<open>The types that a packed array may hold; their decoders take at least one byte.\<close>

lemma packable_cases: "l \<le> PB_LTYPE_LAST_PACKABLE \<Longrightarrow> l = PB_LTYPE_VARINT \<or> l = PB_LTYPE_UVARINT \<or>
    l = PB_LTYPE_SVARINT \<or> l = PB_LTYPE_FIXED32 \<or> l = PB_LTYPE_FIXED64"
proof -
  assume "l \<le> PB_LTYPE_LAST_PACKABLE"
  then have "unat l < 5" by (simp add: word_le_nat_alt)
  then have "unat l \<in> {0, 1, 2, 3, 4}" by auto
  then show ?thesis by (auto simp: word_unat_eq_iff)
qed

lemma call_decoder_safe:
  assumes "tables_ok rank ssize env" "rec_safe A rank ssize env k (bytes_left s) rec" "k \<le> fuel"
    and "element_ok rank ssize k f" "PB_LTYPE (pf_type f) \<noteq> PB_LTYPE_EXTENSION"
    and "{dest..<dest + pf_data_size f} \<subseteq> A"
  shows "safe A s m (call_decoder rec fuel env s f dest m)"
proof -
  have "safe A s m (pb_dec_submessage rec fuel env s f dest m)"
    if "PB_LTYPE (pf_type f) = PB_LTYPE_SUBMESSAGE"
    using that assms(4) pb_dec_submessage_safe [OF assms(1-3) _ _ _ assms(6)]
    by (auto simp: element_ok_def)
  moreover have "PB_LTYPE (pf_type f) \<le> PB_LTYPE_FIXED_LENGTH_BYTES" "room_for_type f"
    using assms(4) by (auto simp: element_ok_def)
  ultimately show ?thesis
    using PB_LTYPE_cases [of "PB_LTYPE (pf_type f)"] assms(5)
      pb_dec_varints_safe [OF assms(6)] pb_dec_fixed_safe [OF assms(6)]
      pb_dec_bytes_safe [OF assms(6)] pb_dec_string_safe [OF assms(6)]
      pb_dec_fixed_length_bytes_safe [OF assms(6)]
    by (auto simp: call_decoder_def Let_def room_for_type_def)
qed

lemma varint_decreases: "pb_decode_varint s = (Some v, s') \<Longrightarrow> bytes_left s' < bytes_left s"
  using varint_loop_left [of 0 0 s] by (simp add: pb_decode_varint_def)

lemma call_decoder_progress:
  assumes "PB_LTYPE (pf_type f) \<le> PB_LTYPE_LAST_PACKABLE"
    and "call_decoder rec fuel env s f dest m = Ret (True, s', m')"
  shows "bytes_left s' < bytes_left s"
proof -
  consider "pb_dec_varint s f dest m = (True, s', m')" | "pb_dec_uvarint s f dest m = (True, s', m')"
    | "pb_dec_svarint s f dest m = (True, s', m')" | "pb_dec_fixed32 s f dest m = (True, s', m')"
    | "pb_dec_fixed64 s f dest m = (True, s', m')"
    using packable_cases [OF assms(1)] assms(2) by (auto simp: call_decoder_def)
  then show ?thesis
    by cases (auto simp: pb_dec_varint_def pb_dec_uvarint_def pb_dec_svarint_def pb_dec_fixed32_def
        pb_dec_fixed64_def pb_decode_svarint_def pb_decode_fixed32_def pb_decode_fixed64_def Let_def
        dest!: varint_decreases pb_read_decreases
        split: prod.splits option.splits if_splits)
qed

lemma outcome_bind_safe:
  assumes "safe A s m r"
    and "\<And>ok s' m'. advances s s' \<Longrightarrow> same_outside A m m' \<Longrightarrow> safe A t m' (k (ok, s', m'))"
  shows "safe A t m (outcome_bind r k)"
proof -
  from assms(1) obtain ok s' m' where r: "r = Ret (ok, s', m')" "advances s s'"
    "same_outside A m m'" by (rule safeE)
  with safe_mono [OF assms(2) [OF r(2,3)] advances_refl r(3)] show ?thesis by simp
qed

lemma array_element:
  assumes "{a..<a + w * n} \<subseteq> A" "i < n"
  shows "{a + w * i..<a + w * i + w} \<subseteq> (A :: nat set)"
proof -
  have "w * i + w \<le> w * n" using assms(2) by (metis Suc_leI add.commute mult_Suc_right mult_le_mono2)
  with assms(1) show ?thesis by (auto simp: subset_eq)
qed

lemma packed_loop_safe:
  assumes "\<And>s m dest. {dest..<dest + pf_data_size (it_field it)} \<subseteq> A \<Longrightarrow> bytes_left s \<le> left \<Longrightarrow>
      safe A s m (func s dest m)"
    and "\<And>s m dest s' m'. func s dest m = Ret (True, s', m') \<Longrightarrow> bytes_left s' < bytes_left s"
    and "{pData it..<pData it + pf_data_size (it_field it) * pf_array_size (it_field it)} \<subseteq> A"
    and "{pSize it..<pSize it + 4} \<subseteq> A" "bytes_left sub < fuel"
    and "bytes_left sub \<le> left"
  shows "safe A sub m (packed_loop fuel func it sub m)"
  using assms(5,6)
proof (induction fuel arbitrary: sub m)
  case (Suc fuel)
  let ?w = "pf_data_size (it_field it)" and ?n = "unat (load32 m (pSize it))"
  show ?case
  proof (cases "0 < bytes_left sub \<and> ?n < pf_array_size (it_field it)")
    case True
    have item: "safe A sub m (func sub (pData it + ?w * ?n) m)"
      using assms(1) [OF array_element [OF assms(3)]] True Suc.prems(2) by simp
    then obtain ok s' m' where r: "func sub (pData it + ?w * ?n) m = Ret (ok, s', m')"
      "advances sub s'" "same_outside A m m'" by (rule safeE)
    show ?thesis
    proof (cases ok)
      case True
      let ?m = "store32 m' (pSize it) (load32 m' (pSize it) + 1)"
      have "bytes_left s' < fuel" "bytes_left s' \<le> left"
        using assms(2) r(1) True Suc.prems by fastforce+
      then have "safe A s' ?m (packed_loop fuel func it s' ?m)" by (rule Suc.IH)
      moreover have "same_outside A m ?m"
        using r(3) same_outside_words(2) [OF assms(4)] by (rule same_outside_trans advances_trans)
      ultimately have "safe A sub m (packed_loop fuel func it s' ?m)"
        using safe_mono [OF _ r(2)] by blast
      with r(1) True \<open>0 < bytes_left sub \<and> _\<close> show ?thesis by (simp add: Let_def)
    next
      case False
      with r \<open>0 < bytes_left sub \<and> _\<close> show ?thesis by (simp add: Let_def)
    qed
  next
    case False
    then show ?thesis by (auto simp: Let_def)
  qed
qed simp

lemma packed_field_safe:
  assumes "\<And>s m dest. {dest..<dest + pf_data_size (it_field it)} \<subseteq> A \<Longrightarrow> bytes_left s \<le> left \<Longrightarrow>
      safe A s m (func s dest m)"
    and "\<And>s m dest s' m'. func s dest m = Ret (True, s', m') \<Longrightarrow> bytes_left s' < bytes_left s"
    and "{pData it..<pData it + pf_data_size (it_field it) * pf_array_size (it_field it)} \<subseteq> A"
    and "{pSize it..<pSize it + 4} \<subseteq> A" "bytes_left s < fuel" "bytes_left s \<le> left"
  shows "safe A s m (case pb_make_string_substream s of
      (None, s') \<Rightarrow> Ret (False, s', m)
    | (Some sub, s') \<Rightarrow>
        outcome_bind (packed_loop fuel func it sub m) (\<lambda>(status, sub', m').
          if bytes_left sub' \<noteq> 0
          then Ret (False, pb_iset_error ''array overflow'' s', m')
          else close_after s' (Ret (status, sub', m'))))"
proof (cases "pb_make_string_substream s")
  case (Pair r s')
  have left: "advances s s'"
    using pb_make_string_substream_advances [of s] Pair by simp
  show ?thesis
  proof (cases r)
    case None
    with Pair left show ?thesis by simp
  next
    case (Some sub)
    from pb_make_string_substream_bounds [OF Pair [unfolded Some]]
    have "bytes_left sub < bytes_left s" by simp
    then have loop: "safe A sub m (packed_loop fuel func it sub m)"
      using packed_loop_safe [of it A left func sub fuel m] assms by simp
    have "safe A s m (outcome_bind (packed_loop fuel func it sub m) (\<lambda>(status, sub', m').
          if bytes_left sub' \<noteq> 0
          then Ret (False, pb_iset_error ''array overflow'' s', m')
          else close_after s' (Ret (status, sub', m'))))"
      using left by (intro outcome_bind_safe [OF loop]) (auto intro!: close_after_safe [OF Pair [unfolded Some]])
    then show ?thesis using Pair Some by simp
  qed
qed

lemma unpacked_field_safe:
  assumes "\<And>m dest. {dest..<dest + w} \<subseteq> A \<Longrightarrow> safe A s m (func s dest m)"
    and "{p..<p + w * n} \<subseteq> A" "{q..<q + 4} \<subseteq> A"
  shows "safe A s m (let count = load32 m q in
     if n \<le> unat count then Ret (False, pb_iset_error ''array overflow'' s, m)
     else func s (p + w * unat count) (store32 m q (count + 1)))"
proof -
  have "safe A s m (func s (p + w * unat c) (store32 m q v))" if "unat c < n" for c :: u32 and v
    using assms(1) [OF array_element [OF assms(2) that], of "store32 m q v"]
      same_outside_words(2) [OF assms(3)] by (blast intro: safe_mono)
  then show ?thesis by (simp add: Let_def not_le)
qed

lemma decode_static_field_safe:
  assumes "tables_ok rank ssize env" "rec_safe A rank ssize env k (Suc (bytes_left s)) rec"
    and "k \<le> fuel" "bytes_left s < fuel"
    and "struct_ok rank ssize k len flds" "i < length (real_fields flds)" "{d..<d + len} \<subseteq> A"
    and "PB_ATYPE (pf_type (flds ! i)) = PB_ATYPE_STATIC"
  shows "safe A s m (decode_static_field rec fuel env s wt (iter_at flds d i) m)"
proof -
  let ?f = "flds ! i" and ?p = "field_addr flds d i" and ?q = "size_addr flds d i"
  let ?t = "pf_type ?f" and ?func = "\<lambda>s dest m. call_decoder rec fuel env s (flds ! i) dest m"
  note facts = placed_facts [OF assms(5-7)]
  have f: "PB_LTYPE ?t \<noteq> PB_LTYPE_EXTENSION" "element_ok rank ssize k ?f"
    using assms(5,6,8) by (auto simp: struct_ok_def)
  have func: "safe A s' m (?func s' dest m)"
    if "{dest..<dest + pf_data_size ?f} \<subseteq> A" "bytes_left s' \<le> bytes_left s" for s' dest m
    using that(2) by (intro call_decoder_safe [OF assms(1) rec_safe_mono [OF assms(2)] assms(3) f(2,1) that(1)]) simp
  have room: "{?p..<?p + storage_size ?f} \<subseteq> A" using facts(1) assms(8) by simp
  have one: "{?p..<?p + pf_data_size ?f} \<subseteq> A" if "PB_HTYPE ?t \<noteq> PB_HTYPE_REPEATED"
    using room that assms(8) by (simp add: storage_size_def)
  have all: "{?p..<?p + pf_data_size ?f * pf_array_size ?f} \<subseteq> A" if "PB_HTYPE ?t = PB_HTYPE_REPEATED"
    using room that assms(8) by (simp add: storage_size_def)
  show ?thesis
  proof (rule PB_HTYPE_cases [of ?t])
    assume h: "PB_HTYPE ?t = PB_HTYPE_REQUIRED"
    then show ?thesis using func [OF one] assms(8) by (simp add: decode_static_field_def)
  next
    assume h: "PB_HTYPE ?t = PB_HTYPE_OPTIONAL"
    let ?m = "if ?q \<noteq> ?p then store_bytes m ?q [1] else m"
    have "same_outside A m ?m" using facts(2) h by (auto intro!: same_outside_store)
    moreover have "safe A s ?m (?func s ?p ?m)" using func [OF one] h by simp
    ultimately show ?thesis using h
      by (cases "?q = ?p") (auto simp: decode_static_field_def Let_def intro: safe_mono)
  next
    assume h: "PB_HTYPE ?t = PB_HTYPE_ONEOF"
    let ?m = "store32 m ?q (pf_tag ?f)"
    have q: "same_outside A m ?m" using facts(3) h by (intro same_outside_words) auto
    have "safe A s m (?func s ?p ?m)" using func [OF one] h q by (auto intro: safe_mono)
    moreover have "safe A s m (outcome_bind (pb_message_set_to_defaults fuel env (tables env t) ?p
        (store_bytes ?m ?p (replicate (pf_data_size ?f) 0))) (\<lambda>m2. ?func s ?p m2))"
      if t: "pf_ptr ?f = PFields t" "PB_LTYPE ?t = PB_LTYPE_SUBMESSAGE" for t
    proof -
      let ?m1 = "store_bytes ?m ?p (replicate (pf_data_size ?f) 0)"
      have r: "rank t < k" "ssize t \<le> pf_data_size ?f" using f(2) t by (auto simp: element_ok_def)
      have m1: "same_outside A m ?m1"
        using q same_outside_store [of ?p "replicate (pf_data_size ?f) 0" A ?m] one h
        by (auto intro: same_outside_trans advances_trans)
      have A: "{?p..<?p + ssize t} \<subseteq> A" using one h r(2) by (auto simp: subset_eq)
      have ok: "struct_ok rank ssize (rank t) (ssize t) (tables env t)" using assms(1) by simp
      have "writes_in A ?m1 (pb_message_set_to_defaults fuel env (tables env t) ?p ?m1)"
        by (rule message_defaults_writes_in [OF assms(1) ok A]) (use r(1) assms(3) in simp)
      then obtain m2 where m2: "pb_message_set_to_defaults fuel env (tables env t) ?p ?m1 = Ret m2"
        "same_outside A ?m1 m2" by (auto simp: writes_in_def)
      have "safe A s m2 (?func s ?p m2)" using func [OF one] h by simp
      then show ?thesis
        using m2 same_outside_trans [OF m1 m2(2)] by (auto intro: safe_mono)
    qed
    ultimately show ?thesis
      using h f(2) by (auto simp: decode_static_field_def Let_def element_ok_def split: pb_ptr.split)
  next
    assume h: "PB_HTYPE ?t = PB_HTYPE_REPEATED"
    have q: "{?q..<?q + 4} \<subseteq> A" using facts(3) h by simp
    have "safe A s m (case pb_make_string_substream s of
        (None, s') \<Rightarrow> Ret (False, s', m)
      | (Some sub, s') \<Rightarrow>
          outcome_bind (packed_loop fuel ?func (iter_at flds d i) sub m) (\<lambda>(status, sub', m').
            if bytes_left sub' \<noteq> 0
            then Ret (False, pb_iset_error ''array overflow'' s', m')
            else close_after s' (Ret (status, sub', m'))))"
      if "PB_LTYPE ?t \<le> PB_LTYPE_LAST_PACKABLE"
      using func call_decoder_progress [OF that] all [OF h] q assms(4)
      by (intro packed_field_safe [where left = "bytes_left s"]) auto
    moreover have "safe A s m (let count = load32 m ?q in
       if pf_array_size ?f \<le> unat count then Ret (False, pb_iset_error ''array overflow'' s, m)
       else ?func s (?p + pf_data_size ?f * unat count) (store32 m ?q (count + 1)))"
      using func all [OF h] q by (intro unpacked_field_safe) auto
    ultimately show ?thesis
      using h by (cases "wt = PB_WT_STRING \<and> PB_LTYPE ?t \<le> PB_LTYPE_LAST_PACKABLE")
        (auto simp: decode_static_field_def Let_def split del: if_split cong: if_cong)
  qed
qed

text \<open>The contract of a user's decode callback: it does not put bytes back, takes at least one when it
  succeeds on a stream that has one (the decoder calls it until the substream is empty), and writes
  only inside \<open>A\<close>.\<close>

definition callbacks_ok :: "'s pb_env \<Rightarrow> nat set \<Rightarrow> bool" where
  "callbacks_ok env A \<longleftrightarrow>
     (\<forall>fn s f m a. case decode_cb env fn s f m a of (ok, s', m') \<Rightarrow>
        advances s s' \<and> (ok \<and> bytes_left s \<noteq> 0 \<longrightarrow> bytes_left s' < bytes_left s) \<and>
        same_outside A m m')"

lemma callback_loop_safe:
  assumes "\<And>s m. case f s m of (ok, s', m') \<Rightarrow>
        advances s s' \<and> (ok \<and> bytes_left s \<noteq> 0 \<longrightarrow> bytes_left s' < bytes_left s) \<and>
        same_outside A m m'"
    and "bytes_left s < fuel"
  shows "safe A s m (callback_loop fuel f s m)"
  using assms(2)
proof (induction fuel arbitrary: s m)
  case (Suc fuel)
  obtain ok s' m' where f: "f s m = (ok, s', m')" by (cases "f s m")
  then have s': "advances s s'" "ok \<and> bytes_left s \<noteq> 0 \<longrightarrow> bytes_left s' < bytes_left s"
    "same_outside A m m'" using assms(1) [of s m] by auto
  have "safe A s' m' (callback_loop fuel f s' m')" if "ok" "bytes_left s' \<noteq> 0"
    using that advances_left [OF s'(1)] s'(2) Suc.prems by (intro Suc.IH) simp
  then show ?case using f s' by (cases ok) (auto intro: safe_mono)
qed simp

lemma decode_callback_field_safe:
  assumes "callbacks_ok env A" "bytes_left s < fuel"
  shows "safe A s m (decode_callback_field fuel env s wt it m)"
proof -
  let ?call = "\<lambda>fn sub m. decode_cb env fn sub (it_field it) m (pData it + 8)"
  have cb: "case ?call fn t m of (ok, s', m') \<Rightarrow>
        advances t s' \<and> (ok \<and> bytes_left t \<noteq> 0 \<longrightarrow> bytes_left s' < bytes_left t) \<and>
        same_outside A m m'" for fn t m
    using assms(1) by (simp add: callbacks_ok_def)
  have skip: "safe A s m (case pb_skip_field s wt of (r, s') \<Rightarrow> Ret (r \<noteq> None, s', m))"
    using pb_skip_field_advances [of s wt] by (cases "pb_skip_field s wt") simp
  have string: "safe A s m (case pb_make_string_substream s of
        (None, s') \<Rightarrow> Ret (False, s', m)
      | (Some sub, s') \<Rightarrow>
          outcome_bind (callback_loop fuel (?call fn) sub m) (\<lambda>(ok, sub', m').
            if \<not> ok then Ret (False, pb_iset_error ''callback failed'' s', m')
            else close_after s' (Ret (True, sub', m'))))" for fn
  proof (cases "pb_make_string_substream s")
    case (Pair r s')
    have left: "advances s s'"
      using pb_make_string_substream_advances [of s] Pair by simp
    show ?thesis
    proof (cases r)
      case None
      with Pair left show ?thesis by simp
    next
      case (Some sub)
      from pb_make_string_substream_bounds [OF Pair [unfolded Some]] assms(2)
      have "bytes_left sub < fuel" by simp
      then have "safe A sub m (callback_loop fuel (?call fn) sub m)"
        by (intro callback_loop_safe) (rule cb)
      then have "safe A s m (outcome_bind (callback_loop fuel (?call fn) sub m) (\<lambda>(ok, sub', m').
            if \<not> ok then Ret (False, pb_iset_error ''callback failed'' s', m')
            else close_after s' (Ret (True, sub', m'))))"
        using left by (elim outcome_bind_safe) (auto intro!: close_after_safe [OF Pair [unfolded Some]])
      then show ?thesis using Pair Some by simp
    qed
  qed
  have raw: "safe A s m (case read_raw_value s wt 10 of
        (None, s') \<Rightarrow> Ret (False, s', m)
      | (Some buffer, s') \<Rightarrow>
          (case ?call fn (pb_istream_from_buffer (mem_of buffer) 0 (length buffer)) m of
             (ok, _, m') \<Rightarrow> Ret (ok, s', m')))" for fn
  proof (cases "read_raw_value s wt 10")
    case (Pair r s')
    then have left: "advances s s'" using read_raw_value_advances [of s wt 10] by simp
    show ?thesis
    proof (cases r)
      case (Some buffer)
      let ?t = "pb_istream_from_buffer (mem_of buffer) 0 (length buffer)"
      show ?thesis using cb [of ?t m fn] Pair Some left
        by (auto split: prod.splits)
    qed (use Pair left in simp)
  qed
  show ?thesis using skip string raw by (simp add: decode_callback_field_def Let_def)
qed

section \<open>The iterator in the decoding loop\<close>

text \<open>An empty message has only the terminator, where the iterator then stands.\<close>

definition valid_pos :: "pb_field list \<Rightarrow> nat \<Rightarrow> bool" where
  "valid_pos flds i \<longleftrightarrow> i < length (real_fields flds) \<or> (real_fields flds = [] \<and> i = 0)"

lemma struct_ok_empty:
  assumes "struct_ok rank ssize k len flds" "real_fields flds = []"
  shows "flds = [PB_LAST_FIELD]"
  using assms(1) struct_ok_real [OF assms(1)] assms(2) append_butlast_last_id [of flds]
  by (auto simp: struct_ok_def)

lemma iter_next_empty: "pb_field_iter_next (iter_at [PB_LAST_FIELD] d 0) = (False, iter_at [PB_LAST_FIELD] d 0)"
  by (simp add: pb_field_iter_next_def)

lemma find_valid:
  assumes "struct_ok rank ssize k len flds" "valid_pos flds i"
  shows "\<exists>found j. pb_field_iter_find (iter_at flds d i) tg = Some (found, iter_at flds d j) \<and> valid_pos flds j"
proof (cases "real_fields flds = []")
  case True
  note flds = struct_ok_empty [OF assms(1) True]
  have "i = 0" using assms(2) True by (simp add: valid_pos_def)
  then show ?thesis
    by (auto simp: pb_field_iter_find_def flds iter_next_empty valid_pos_def intro!: exI [of _ 0])
next
  case False
  then have i: "i < length (real_fields flds)" using assms(2) by (simp add: valid_pos_def)
  from pb_field_iter_find_at [OF struct_ok_terminated [OF assms(1)] i, of d tg] i show ?thesis
    by (auto simp: valid_pos_def split: option.splits dest: find_circuit_Some [OF _ i])
qed

lemma find_extension_none:
  assumes "struct_ok rank ssize k len flds" "valid_pos flds i"
  shows "find_extension_field (iter_at flds d i) = Some (False, iter_at flds d i)"
proof (cases "real_fields flds = []")
  case True
  note flds = struct_ok_empty [OF assms(1) True]
  have "i = 0" using assms(2) True by (simp add: valid_pos_def)
  then show ?thesis by (simp add: find_extension_field_def flds iter_next_empty PB_LTYPE_def)
next
  case False
  then have i: "i < length (real_fields flds)" using assms(2) by (simp add: valid_pos_def)
  have "List.find (\<lambda>j. PB_LTYPE (pf_type (flds ! j)) = PB_LTYPE_EXTENSION)
      (circuit (length (real_fields flds)) i i) = None"
    using assms(1) by (simp add: find_circuit_None [OF i] struct_ok_def)
  with find_loop_at [OF struct_ok_terminated [OF assms(1)] i, of "\<lambda>f. PB_LTYPE (pf_type f) = PB_LTYPE_EXTENSION" d]
  show ?thesis by (simp add: find_extension_field_def)
qed

lemma decode_tag_less: "pb_decode_tag s = ((True, wt, tg, e), s') \<Longrightarrow> \<not> (- 1 :: u32) \<le> tg"
proof -
  have "\<not> (- 1 :: u32) \<le> drop_bit 3 v" for v :: u32
  proof
    assume "(- 1 :: u32) \<le> drop_bit 3 v"
    then have "drop_bit 3 v = - 1" by (simp add: word_order.extremum_unique)
    moreover have "\<not> bit (drop_bit 3 v) 31" using bit_imp_le_length [of v 34] by (auto simp: bit_drop_bit_eq)
    ultimately show False by simp
  qed
  then show "pb_decode_tag s = ((True, wt, tg, e), s') \<Longrightarrow> \<not> (- 1 :: u32) \<le> tg"
    by (auto simp: pb_decode_tag_def split: prod.splits option.splits if_splits)
qed

lemma seek_end_at:
  assumes "terminated flds" "i < length (real_fields flds)" "length (real_fields flds) - i \<le> fuel"
  shows "seek_end fuel (iter_at flds d i) =
    (let n = length (real_fields flds) in
     Some (required_before flds (n - 1), pf_type (flds ! (n - 1)), iter_at flds d 0))"
  using assms(2,3)
proof (induction fuel arbitrary: i)
  case (Suc fuel)
  show ?case
  proof (cases "Suc i < length (real_fields flds)")
    case True
    with Suc show ?thesis by (simp add: iter_next [OF assms(1)])
  next
    case False
    then have "length (real_fields flds) = Suc i" using Suc.prems(1) by simp
    with Suc.prems(1) show ?thesis by (simp add: iter_next [OF assms(1)])
  qed
qed simp

text \<open>The test for missing fields looks at the number of required fields of the message, wherever
  the iterator stands.\<close>

lemma check_required_at:
  assumes "terminated flds" "i < length (real_fields flds)"
  shows "check_required (iter_at flds d i) seen =
    required_present seen (required_before flds (length (real_fields flds)))"
proof -
  define n where "n = length (real_fields flds) - 1"
  have n: "length (real_fields flds) = Suc n" "n < length flds"
    using assms(2) real_fields_length [OF assms(1)] by (auto simp: n_def)
  have "pf_tag (flds ! 0) \<noteq> 0" using real_field_tag [of 0 flds] n by simp
  with seek_end_at [OF assms, of "Suc (length flds)" d] real_fields_length [OF assms(1)] n
  show ?thesis by (simp add: check_required_def Let_def required_before_Suc)
qed

lemma check_required_count:
  assumes "struct_ok rank ssize k len flds" "valid_pos flds i"
  shows "check_required (iter_at flds d i) seen =
    required_present seen (required_before flds (length (real_fields flds)))"
proof (cases "real_fields flds = []")
  case True
  note flds = struct_ok_empty [OF assms(1) True]
  have "i = 0" using assms(2) True by (simp add: valid_pos_def)
  then show ?thesis
    by (simp add: check_required_def flds iter_next_empty required_before_def)
next
  case False
  then show ?thesis
    using assms(2) check_required_at [OF struct_ok_terminated [OF assms(1)]] by (simp add: valid_pos_def)
qed

lemma whole_words_returns: "i + n \<le> length seen \<Longrightarrow> \<exists>b. whole_words seen i n = Ret b"
  by (induction n arbitrary: i) auto

lemma required_present_returns:
  assumes "c < 64" "c mod 32 \<noteq> 0 \<or> c = 0" "length seen = 2"
  shows "\<exists>b. required_present seen c = Ret b"
proof -
  have c: "c div 32 < 2" using assms(1) by (simp add: less_mult_imp_div_less)
  then obtain b where "whole_words seen 0 (c div 32) = Ret b"
    using whole_words_returns [of 0 "c div 32" seen] assms(3) by auto
  with c assms show ?thesis by (auto simp: required_present_def)
qed

lemma check_required_returns:
  assumes "struct_ok rank ssize k len flds" "valid_pos flds i" "length seen = 2"
  shows "\<exists>b. check_required (iter_at flds d i) seen = Ret b"
  using assms(1) check_required_count [OF assms(1,2)]
    required_present_returns [OF _ _ assms(3), of "required_before flds (length (real_fields flds))"]
  by (auto simp: struct_ok_def required_ok_def Let_def)

section \<open>The decoding loop\<close>

lemma decode_field_safe:
  assumes "tables_ok rank ssize env" "rec_safe A rank ssize env k (Suc (bytes_left s)) rec"
    and "k \<le> fuel" "bytes_left s < fuel" "callbacks_ok env A"
    and "struct_ok rank ssize k len flds" "valid_pos flds i" "{d..<d + len} \<subseteq> A"
  shows "safe A s m (decode_field rec fuel env s wt (iter_at flds d i) m)"
proof (cases "real_fields flds = []")
  case True
  note flds = struct_ok_empty [OF assms(6) True]
  have "i = 0" using assms(7) True by (simp add: valid_pos_def)
  then show ?thesis
    using pb_dec_varints_safe(1) [of d "PB_LAST_FIELD" A s m]
    by (simp add: flds decode_field_def decode_static_field_def call_decoder_def PB_ATYPE_def
        PB_HTYPE_def PB_LTYPE_def)
      (simp add: PB_LAST_FIELD_def)
next
  case False
  then have i: "i < length (real_fields flds)" using assms(7) by (simp add: valid_pos_def)
  show ?thesis
    using decode_static_field_safe [OF assms(1-4,6) i assms(8)]
      decode_callback_field_safe [OF assms(5,4)]
    by (auto simp: decode_field_def Let_def decode_pointer_field_def)
qed

definition loop_safe ::
    "pb_field list \<Rightarrow> nat \<Rightarrow> nat set \<Rightarrow> 's pb_istream \<Rightarrow> mem \<Rightarrow> 's loop_end outcome \<Rightarrow> bool" where
  "loop_safe flds d A s m r \<longleftrightarrow>
     (\<exists>s' m'. advances s s' \<and> same_outside A m m' \<and>
        (r = Ret (Loop_False s' m') \<or>
         (\<exists>i seen. r = Ret (Loop_Done s' m' (iter_at flds d i) seen) \<and> valid_pos flds i \<and>
            length seen = 2)))"

lemma loop_safe_False [simp]:
  "loop_safe flds d A s m (Ret (Loop_False s' m')) \<longleftrightarrow>
     advances s s' \<and> same_outside A m m'"
  by (auto simp: loop_safe_def)

lemma loop_safe_Done [simp]:
  "loop_safe flds d A s m (Ret (Loop_Done s' m' it seen)) \<longleftrightarrow>
     advances s s' \<and> same_outside A m m' \<and> length seen = 2 \<and>
     (\<exists>i. it = iter_at flds d i \<and> valid_pos flds i)"
  by (auto simp: loop_safe_def)

lemma loop_safe_mono:
  assumes "loop_safe flds d A s m r" "advances t s" "same_outside A m0 m"
  shows "loop_safe flds d A t m0 r"
proof -
  from assms(1) obtain s' m' where sm: "advances s s'" "same_outside A m m'"
    and r: "r = Ret (Loop_False s' m') \<or>
      (\<exists>i seen. r = Ret (Loop_Done s' m' (iter_at flds d i) seen) \<and> valid_pos flds i \<and> length seen = 2)"
    unfolding loop_safe_def by blast
  with same_outside_trans [OF assms(3) sm(2)] advances_trans [OF assms(2) sm(1)] show ?thesis by auto
qed

lemma loop_then_safe:
  assumes "safe A s m r"
    and "\<And>s' m'. advances s s' \<Longrightarrow> same_outside A m m' \<Longrightarrow>
      loop_safe flds d A s' m' (k s' m')"
  shows "loop_safe flds d A s m (loop_then r k)"
proof -
  from assms(1) obtain ok s' m' where r: "r = Ret (ok, s', m')" "advances s s'"
    "same_outside A m m'" by (rule safeE)
  with loop_safe_mono [OF assms(2) [OF r(2,3)] r(2,3)] show ?thesis by simp
qed

lemma noinit_with_safe:
  assumes "struct_ok rank ssize k len flds"
    and "loop_safe flds d A s m (loop s (iter_at flds d 0) [0, 0] 0 m)"
  shows "safe A s m (noinit_with loop s flds d m)"
proof -
  from assms(2) obtain s' m' where sm: "advances s s'" "same_outside A m m'"
    and r: "loop s (iter_at flds d 0) [0, 0] 0 m = Ret (Loop_False s' m') \<or>
      (\<exists>i seen. loop s (iter_at flds d 0) [0, 0] 0 m = Ret (Loop_Done s' m' (iter_at flds d i) seen) \<and>
         valid_pos flds i \<and> length seen = 2)"
    unfolding loop_safe_def by blast
  from r show ?thesis
  proof
    assume "\<exists>i seen. loop s (iter_at flds d 0) [0, 0] 0 m = Ret (Loop_Done s' m' (iter_at flds d i) seen) \<and>
         valid_pos flds i \<and> length seen = 2"
    then obtain i seen where l: "loop s (iter_at flds d 0) [0, 0] 0 m =
        Ret (Loop_Done s' m' (iter_at flds d i) seen)" and v: "valid_pos flds i" "length seen = 2"
      by blast
    from check_required_returns [OF assms(1) v] obtain b where
      "check_required (iter_at flds d i) seen = Ret b" by blast
    with l sm show ?thesis by (simp add: noinit_with_def iter_begin)
  qed (use sm in \<open>simp add: noinit_with_def iter_begin\<close>)
qed

lemma decode_unknown_safe:
  assumes "struct_ok rank ssize k len flds" "valid_pos flds i" "\<not> (- 1 :: u32) \<le> tg"
    and "\<And>s' ext. advances s s' \<Longrightarrow> loop_safe flds d A s' m (continue s' (iter_at flds d i) ext m)"
  shows "loop_safe flds d A s m (decode_unknown rec fuel env continue s tg wt (iter_at flds d i) ext m)"
proof -
  have "loop_safe flds d A s m
      (case pb_skip_field s wt of
         (None, s') \<Rightarrow> Ret (Loop_False s' m)
       | (Some _, s') \<Rightarrow> continue s' (iter_at flds d i) ext' m)" for ext'
  proof (cases "pb_skip_field s wt")
    case (Pair r s')
    then have left: "advances s s'" using pb_skip_field_advances [of s wt] by simp
    with Pair loop_safe_mono [OF assms(4) [OF left] left] show ?thesis
      by (simp split: option.split)
  qed
  then show ?thesis
    using assms(3) by (simp add: decode_unknown_def Let_def find_extension_none [OF assms(1,2)])
qed

lemma length_mark_seen [simp]: "length (mark_seen it seen) = length seen"
  by (simp add: mark_seen_def Let_def)

lemma decode_fields_safe:
  assumes "tables_ok rank ssize env" "callbacks_ok env A"
  shows "struct_ok rank ssize k len flds \<Longrightarrow> valid_pos flds i \<Longrightarrow> {d..<d + len} \<subseteq> A \<Longrightarrow>
    length seen = 2 \<Longrightarrow> bytes_left s + k < fuel \<Longrightarrow>
    loop_safe flds d A s m (decode_fields fuel env s (iter_at flds d i) seen ext m)"
proof (induction fuel arbitrary: k len flds i d seen s ext m)
  case (Suc fuel)
  let ?rec = "noinit_with (decode_fields fuel env)"
  have rec: "rec_safe A rank ssize env k (bytes_left s) ?rec"
    unfolding rec_safe_def
  proof (intro allI impI)
    fix t and s' :: "'a pb_istream" and dest m'
    assume t: "rank t < k" "{dest..<dest + ssize t} \<subseteq> A" "bytes_left s' < bytes_left s"
    have ok: "struct_ok rank ssize (rank t) (ssize t) (tables env t)" using assms(1) by simp
    show "safe A s' m' (?rec s' (tables env t) dest m')"
      using t Suc.prems(5)
      by (intro noinit_with_safe [OF ok] Suc.IH [OF ok]) (auto simp: valid_pos_def)
  qed
  show ?case
  proof (cases "bytes_left s = 0")
    case True
    with Suc.prems show ?thesis by auto
  next
    case False
    obtain ok wt tg eof s' where tag: "pb_decode_tag s = ((ok, wt, tg, eof), s')"
      by (metis prod.exhaust)
    then have left: "advances s s'" using pb_decode_tag_advances [of s] by simp
    show ?thesis
    proof (cases ok)
      case notag: False
      with tag False left Suc.prems show ?thesis by (cases eof) auto
    next
      case True
      note tag = tag [unfolded True [THEN eqTrueI]]
      have less: "bytes_left s' < bytes_left s" by (rule pb_decode_tag_decreases [OF tag])
      from find_valid [OF Suc.prems(1,2), of d tg] obtain found j where
        j: "pb_field_iter_find (iter_at flds d i) tg = Some (found, iter_at flds d j)" "valid_pos flds j"
        by blast
      note more = Suc.IH [OF Suc.prems(1) j(2) Suc.prems(3)]
      have onward: "loop_safe flds d A t m' (decode_fields fuel env t (iter_at flds d j) seen' ext' m')"
        if "advances s' t" "length seen' = 2" for t m' seen' ext'
        using that advances_left [OF that(1)] less Suc.prems(5) by (intro more) auto
      have "loop_safe flds d A s' m
          (if found then loop_then (decode_field ?rec fuel env s' wt (iter_at flds d j) m) (\<lambda>s'' m'.
             decode_fields fuel env s'' (iter_at flds d j) (mark_seen (iter_at flds d j) seen) ext m')
           else decode_unknown ?rec fuel env
             (\<lambda>s it ext_start m. decode_fields fuel env s it seen ext_start m)
             s' tg wt (iter_at flds d j) ext m)"
      proof (cases found)
        case True
        have "safe A s' m (decode_field ?rec fuel env s' wt (iter_at flds d j) m)"
          using less Suc.prems(5)
          by (intro decode_field_safe [OF assms(1) rec_safe_mono [OF rec] _ _ assms(2) Suc.prems(1) j(2) Suc.prems(3)])
            auto
        then have "loop_safe flds d A s' m (loop_then (decode_field ?rec fuel env s' wt (iter_at flds d j) m)
            (\<lambda>s'' m'. decode_fields fuel env s'' (iter_at flds d j) (mark_seen (iter_at flds d j) seen) ext m'))"
          by (rule loop_then_safe) (use Suc.prems(4) in \<open>auto intro!: onward\<close>)
        with True show ?thesis by simp
      next
        case False
        have "loop_safe flds d A s' m (decode_unknown ?rec fuel env
             (\<lambda>s it ext_start m. decode_fields fuel env s it seen ext_start m)
             s' tg wt (iter_at flds d j) ext m)"
          using Suc.prems(4)
          by (intro decode_unknown_safe [OF Suc.prems(1) j(2) decode_tag_less [OF tag]] onward)
        with False show ?thesis by simp
      qed
      then have "loop_safe flds d A s m
          (if found then loop_then (decode_field ?rec fuel env s' wt (iter_at flds d j) m) (\<lambda>s'' m'.
             decode_fields fuel env s'' (iter_at flds d j) (mark_seen (iter_at flds d j) seen) ext m')
           else decode_unknown ?rec fuel env
             (\<lambda>s it ext_start m. decode_fields fuel env s it seen ext_start m)
             s' tg wt (iter_at flds d j) ext m)"
        using left by (rule loop_safe_mono) simp
      with False tag j(1) show ?thesis by (cases found) (simp_all add: Let_def)
    qed
  qed
qed simp

text \<open>
  C9: decoding is safe on every input. For descriptors that describe the struct (every field inside
  it, fixed-width fields with their room, bounded nesting, no extension fields, fewer than 64 required
  fields and no positive multiple of 32 of them) and callbacks that keep their contract, \<open>pb_decode\<close>
  returns, whatever bytes the stream has and whether it reads a buffer or calls the user; it reaches no
  undefined operation and writes only inside the struct (and where the callbacks may write). The source of
  the stream never hands out more bytes than \<open>bytes_left\<close> goes down by: nothing behind the end of the input
  is read. The fuel of the model is enough when it exceeds the bytes by the nesting.
\<close>

theorem decode_memory_safe:
  assumes "\<forall>t. struct_ok rank ssize (rank t) (ssize t) (tables env t)"
    and "struct_ok rank ssize k len flds" "{d..<d + len} \<subseteq> A" "callbacks_ok env A"
    and "bytes_left s + k < fuel"
  shows "\<exists>ok s' m'. pb_decode fuel env s flds d m = Ret (ok, s', m') \<and>
    (\<exists>n. delivers n (i_source s) (i_source s') \<and> n + bytes_left s' \<le> bytes_left s) \<and>
    (\<forall>x. x \<notin> A \<longrightarrow> m' x = m x)"
proof -
  obtain m1 where m1: "pb_message_set_to_defaults fuel env flds d m = Ret m1" "same_outside A m m1"
    using message_defaults_writes_in [OF assms(1-3), of fuel m] assms(5) by (auto simp: writes_in_def)
  have "safe A s m1 (noinit_with (decode_fields fuel env) s flds d m1)"
    using assms(5)
    by (intro noinit_with_safe [OF assms(2)] decode_fields_safe [OF assms(1,4,2) _ assms(3)])
      (auto simp: valid_pos_def)
  then have "safe A s m (pb_decode fuel env s flds d m)"
    using m1 by (auto simp: pb_decode_def pb_decode_with_def pb_decode_noinit_def intro: safe_mono)
  then show ?thesis by (auto elim!: safeE simp: same_outside_def advances_def)
qed

lemma example_struct_ok:
  "struct_ok (\<lambda>_. 0) (\<lambda>_. 4) 1 16 example_outer" "struct_ok (\<lambda>_. 0) (\<lambda>_. 4) 0 4 example_inner"
  by (auto simp: struct_ok_def example_outer_def example_inner_def required_ok_def required_before_def
      placed_def element_ok_def room_for_type_def storage_size_def shares_union_def offset_addr_def
      PB_ATYPE_def PB_HTYPE_def PB_LTYPE_def less_Suc_eq Let_def)

theorem decode_memory_safe_witness:
  "\<exists>ok s' m'. pb_decode 6 example_env (pb_istream_from_buffer (mem_of [8, 150, 1, 18]) 0 4) example_outer 16 (\<lambda>_. 7) =
      Ret (ok, s', m') \<and>
    (\<exists>n. delivers n (Buffer (mem_of [8, 150, 1, 18]) 0) (i_source s') \<and> n + bytes_left s' \<le> 4) \<and>
    (\<forall>x. x \<notin> {16..<32} \<longrightarrow> m' x = 7)"
  using decode_memory_safe [of "\<lambda>_. 0" "\<lambda>_. 4" example_env 1 16 example_outer 16 "{16..<32}"
      "pb_istream_from_buffer (mem_of [8, 150, 1, 18]) 0 4" 6 "\<lambda>_. 7"] example_struct_ok
  by (simp add: example_tables callbacks_ok_def example_env_def pb_istream_from_buffer_def)

end
