(* ===== verification/Pb_Values.thy ===== *)
theory Pb_Values
  imports Pb_Encode_Spec Pb_Decode_Safe
begin

text \<open>
  The encoder and the decoder of nanopb against each other: scalar and string fields survive the way
  from one struct through the wire into another; what the test for required fields accepts and where
  it goes wrong; and what happens to a message that ends inside a tag.
\<close>

section \<open>Values through struct memory\<close>

lemma scast_ucast_32:
  assumes "LENGTH('a) \<le> 32"
  shows "(scast (ucast (scast (w :: 'a::len word) :: u64) :: u32) :: u64) = scast w"
  by (rule bit_word_eqI) (use assms in \<open>auto simp: bit_simps min_def not_less dest: bit_imp_le_length\<close>)

lemma ucast_scast_down: "LENGTH('a) \<le> 64 \<Longrightarrow> (ucast (scast (w :: 'a::len word) :: u64) :: 'a word) = w"
proof (rule bit_word_eqI)
  fix n assume "LENGTH('a) \<le> 64" "n < LENGTH('a)"
  then show "bit (ucast (scast w :: u64) :: 'a word) n = bit w n"
    by (cases "n = LENGTH('a) - 1") (auto simp: bit_simps min_def)
qed

lemma ucast_ucast_down: "LENGTH('a) \<le> 64 \<Longrightarrow> (ucast (ucast (w :: 'a::len word) :: u64) :: 'a word) = w"
  by (rule bit_word_eqI) (auto simp: bit_simps min_def)

lemma stored_load:
  "store16 m2 d (load16 m a) = store_bytes m2 d (load_bytes m a 2)"
  "store32 m2 d (load32 m a) = store_bytes m2 d (load_bytes m a 4)"
  "store64 m2 d (load64 m a) = store_bytes m2 d (load_bytes m a 8)"
  by (simp_all add: store16_def load16_def store32_def load32_def store64_def load64_def
      le_bytes_le_word)

lemma store_signed_loaded:
  "enc_signed_value n m src = Some v \<Longrightarrow>
     store_signed n m2 dest v = Some (store_bytes m2 dest (load_bytes m src n), v) \<and>
     (n \<noteq> 8 \<longrightarrow> scast (ucast v :: u32) = v)"
  by (auto simp: enc_signed_value_def store_signed_def scast_ucast_32 ucast_scast_down stored_load
      load_bytes_def split: if_splits)

lemma store_unsigned_loaded:
  "enc_unsigned_value n m src = Some v \<Longrightarrow>
     store_unsigned n m2 dest v = Some (store_bytes m2 dest (load_bytes m src n), v)"
  by (auto simp: enc_unsigned_value_def store_unsigned_def ucast_ucast_down stored_load
      load_bytes_def split: if_splits)

text \<open>Decoding the bytes that the encoder specifies for a field.\<close>

lemma dec_signed_varint:
  assumes "enc_signed_value (pf_data_size f) m src = Some v" "buffered s"
    and "ibytes s = varint_bytes v @ rest"
  shows "pb_dec_varint s f dest m2 =
    (True, advance (length (varint_bytes v)) s, store_bytes m2 dest (load_bytes m src (pf_data_size f)))"
proof -
  have "pb_decode_varint s = (Some v, advance (length (varint_bytes v)) s)"
    using varint_result_Some [OF assms(2) one_varint_bytes length_varint_bytes_10 assms(3), where 'b = 64]
      assms(2) by (simp add: pb_decode_varint_result groups_value_varint_bytes)
  with store_signed_loaded [OF assms(1)] show ?thesis by (auto simp: pb_dec_varint_def)
qed

lemma dec_unsigned_varint:
  assumes "enc_unsigned_value (pf_data_size f) m src = Some v" "buffered s"
    and "ibytes s = varint_bytes v @ rest"
  shows "pb_dec_uvarint s f dest m2 =
    (True, advance (length (varint_bytes v)) s, store_bytes m2 dest (load_bytes m src (pf_data_size f)))"
proof -
  have "pb_decode_varint s = (Some v, advance (length (varint_bytes v)) s)"
    using varint_result_Some [OF assms(2) one_varint_bytes length_varint_bytes_10 assms(3), where 'b = 64]
      assms(2) by (simp add: pb_decode_varint_result groups_value_varint_bytes)
  with store_unsigned_loaded [OF assms(1)] show ?thesis by (auto simp: pb_dec_uvarint_def)
qed

lemma pb_decode_svarint_bytes:
  assumes "buffered s" "ibytes s = svarint_bytes v @ rest"
  shows "pb_decode_svarint s = (Some v, advance (length (svarint_bytes v)) s)"
proof -
  define z where "z = (if v <s 0 then NOT (push_bit 1 v) else push_bit 1 v)"
  have b: "ibytes s = varint_bytes z @ rest" "svarint_bytes v = varint_bytes z"
    using assms(2) by (simp_all add: svarint_bytes_def z_def)
  have "pb_decode_varint s = (Some z, advance (length (varint_bytes z)) s)"
    using varint_result_Some [OF assms(1) one_varint_bytes length_varint_bytes_10 b(1), where 'b = 64]
      assms(1) by (simp add: pb_decode_varint_result groups_value_varint_bytes)
  moreover have "(if z AND 1 \<noteq> 0 then NOT (drop_bit 1 z) else drop_bit 1 z) = v"
    unfolding z_def by (rule zigzag_inverse)
  ultimately show ?thesis by (cases "z AND 1 = 0") (simp_all add: pb_decode_svarint_def b(2))
qed

lemma dec_signed_svarint:
  assumes "enc_signed_value (pf_data_size f) m src = Some v" "buffered s"
    and "ibytes s = svarint_bytes v @ rest"
  shows "pb_dec_svarint s f dest m2 =
    (True, advance (length (svarint_bytes v)) s, store_bytes m2 dest (load_bytes m src (pf_data_size f)))"
  using pb_decode_svarint_bytes [OF assms(2,3)] store_signed_loaded [OF assms(1)]
  by (auto simp: pb_dec_svarint_def)

lemma dec_fixed:
  assumes "buffered s" "ibytes s = load_bytes m src n @ rest"
  shows "n = 4 \<Longrightarrow> pb_dec_fixed32 s f dest m2 = (True, advance 4 s, store_bytes m2 dest (load_bytes m src 4))"
    and "n = 8 \<Longrightarrow> pb_dec_fixed64 s f dest m2 = (True, advance 8 s, store_bytes m2 dest (load_bytes m src 8))"
proof -
  have left: "bytes_left s = n + length rest" using length_ibytes [OF assms(1)] assms(2) by simp
  show "pb_dec_fixed32 s f dest m2 = (True, advance 4 s, store_bytes m2 dest (load_bytes m src 4))" if "n = 4"
    using that left assms stored_load(2) [of m2 dest m src]
    by (simp add: pb_dec_fixed32_def pb_decode_fixed32_result load32_def)
  show "pb_dec_fixed64 s f dest m2 = (True, advance 8 s, store_bytes m2 dest (load_bytes m src 8))" if "n = 8"
    using that left assms stored_load(3) [of m2 dest m src]
    by (simp add: pb_dec_fixed64_def pb_decode_fixed64_result load64_def)
qed

text \<open>The field types whose bytes in memory determine the value.\<close>

definition scalar_field :: "pb_field \<Rightarrow> bool" where
  "scalar_field f \<longleftrightarrow> PB_LTYPE (pf_type f) \<le> PB_LTYPE_LAST_PACKABLE \<and>
     (PB_LTYPE (pf_type f) = PB_LTYPE_FIXED32 \<longrightarrow> pf_data_size f = 4) \<and>
     (PB_LTYPE (pf_type f) = PB_LTYPE_FIXED64 \<longrightarrow> pf_data_size f = 8)"

lemma decode_scalar:
  assumes "scalar_field f" "value_spec msg env m f src = Some bs" "buffered s" "ibytes s = bs @ rest"
  shows "call_decoder rec fuel env' s f dest m2 =
    Ret (True, advance (length bs) s, store_bytes m2 dest (load_bytes m src (pf_data_size f)))"
  using assms packable_cases [of "PB_LTYPE (pf_type f)"]
    dec_signed_varint [OF _ assms(3)] dec_unsigned_varint [OF _ assms(3)]
    dec_signed_svarint [OF _ assms(3)] dec_fixed [OF assms(3)]
  by (auto simp: scalar_field_def call_decoder_def value_spec_def)

lemma scalar_spec_length:
  "scalar_field f \<Longrightarrow> value_spec msg env m f src = Some bs \<Longrightarrow> length bs \<le> 10"
  using packable_cases [of "PB_LTYPE (pf_type f)"] length_varint_bytes_10 length_svarint_bytes
  by (auto simp: scalar_field_def value_spec_def Let_def)

lemma scalar_spec_None:
  "scalar_field f \<Longrightarrow> value_spec msg env m f src = None \<Longrightarrow>
     \<exists>s'. call_encoder rec env m s f src = Some (False, s')"
  using packable_cases [of "PB_LTYPE (pf_type f)"]
  by (auto simp: scalar_field_def value_spec_def call_encoder_def Let_def pb_enc_varint_def
      pb_enc_uvarint_def pb_enc_svarint_def)

text \<open>
  C10: a scalar field (int32, int64, uint32, uint64, sint32, sint64, bool, enum, fixed32, fixed64,
  float, double, of any size in memory that the encoder accepts) comes back as it was: decoding what
  the encoder writes for the bytes of the field in one struct succeeds, takes exactly those bytes,
  and stores the same bytes in the other struct and nothing else.
\<close>

theorem scalar_field_roundtrip:
  assumes "scalar_field f"
    and "run_encoder n (\<lambda>s. call_encoder recE envE m s f src) = Some bs"
  shows "call_decoder recD fuel envD (stream_of (bs @ rest)) f dest m2 =
    Ret (True, advance (length bs) (stream_of (bs @ rest)),
      store_bytes m2 dest (load_bytes m src (pf_data_size f)))"
proof -
  let ?spec = "value_spec (\<lambda>_ _. None) envE m f src"
  have enc: "call_encoder recE envE m s f src = call_encoder (\<lambda>_ _ _. None) envE m s f src" for s
    using assms(1) packable_cases [of "PB_LTYPE (pf_type f)"]
    by (auto simp: call_encoder_def scalar_field_def)
  have impl: "implements (\<lambda>s. call_encoder (\<lambda>_ _ _. None) envE m s f src) ?spec"
    by (rule implements_value) (simp add: implements_None)
  have "?spec = Some bs"
  proof (cases ?spec)
    case None
    from scalar_spec_None [OF assms(1) None] obtain s' where
      "call_encoder recE envE m (pb_ostream_from_buffer (replicate n 0) n) f src = Some (False, s')"
      by (metis enc)
    with assms(2) show ?thesis by (simp add: run_encoder_def)
  next
    case (Some bs')
    have "length bs' < 2 ^ 64" using scalar_spec_length [OF assms(1) Some] by simp
    from run_encoder_encodes [OF implementsD [OF impl Some] this, of n] assms(2) Some show ?thesis
      by (simp add: enc split: if_splits)
  qed
  from decode_scalar [OF assms(1) this, of "stream_of (bs @ rest)" rest]
  show ?thesis by simp
qed

theorem scalar_field_roundtrip_witness:
  "let f = \<lparr>pf_tag = 1, pf_type = 0x02, pf_data_offset = 0, pf_size_offset = 0, pf_data_size = 1,
        pf_array_size = 0, pf_ptr = PNull\<rparr>; m = (\<lambda>_. 0xFF); s = stream_of [1, 7]
   in call_decoder (\<lambda>s _ _ m. Ret (True, s, m)) 0 example_env s f 5 (\<lambda>_. 0) =
     Ret (True, advance 1 s, store_bytes (\<lambda>_. 0) 5 [0xFF])"
proof -
  let ?f = "\<lparr>pf_tag = 1, pf_type = 0x02, pf_data_offset = 0, pf_size_offset = 0, pf_data_size = 1,
        pf_array_size = 0, pf_ptr = PNull\<rparr>"
  have "run_encoder 10 (\<lambda>s. call_encoder (\<lambda>_ _ _. None) example_env (\<lambda>_. 0xFF) s ?f 0) = Some [1]"
    using run_encoder_encodes [OF encodes_svarint, of "- 1" 10]
    by (simp add: call_encoder_def PB_LTYPE_def pb_enc_svarint_def enc_signed_value_def
        svarint_bytes_def varint_bytes_def)
  from scalar_field_roundtrip [OF _ this, of "\<lambda>s _ _ m. Ret (True, s, m)" 0 example_env "[7]" 5 "\<lambda>_. 0"]
  show ?thesis by (simp add: scalar_field_def PB_LTYPE_def load_bytes_def Let_def)
qed

text \<open>
  A string field with static allocation comes back as it was: decoding what \<open>pb_enc_string\<close>
  writes for a terminated string gives a string field with the same characters and the terminator,
  in a buffer of the same size, and leaves the memory outside the buffer alone.
\<close>

theorem string_field_roundtrip:
  assumes "PB_LTYPE (pf_type f) = PB_LTYPE_STRING" "PB_ATYPE (pf_type f) = PB_ATYPE_STATIC"
    and "cs = string_at f m src" "length cs < pf_data_size f" "length cs < 2 ^ 32 - 1"
  shows "run_encoder (length cs + 10) (\<lambda>s. Some (pb_enc_string s f m src)) = Some (delimited cs) \<and>
    pb_dec_string (stream_of (delimited cs @ rest) :: 's pb_istream) f dest m2 =
      (True, advance (length (delimited cs)) (stream_of (delimited cs @ rest)),
       store_bytes m2 dest (cs @ [0]))"
proof
  have "length (delimited cs) < 2 ^ 64" "length (delimited cs) \<le> length cs + 10"
    using assms(5) length_varint_bytes_10 [of "of_nat (length cs)"] by (simp_all add: delimited_def)
  then show "run_encoder (length cs + 10) (\<lambda>s. Some (pb_enc_string s f m src)) = Some (delimited cs)"
    using run_encoder_encodes [OF implementsD [OF implements_string_at refl], of f m src "length cs + 10"]
      assms(3) by simp
next
  let ?s = "stream_of (delimited cs @ rest) :: 's pb_istream" and ?n = "of_nat (length cs) :: u32"
  let ?t = "advance (length (delimited cs) - length cs) ?s"
  have d: "pb_decode_varint32 ?s = (Some ?n, ?t)" "unat ?n = length cs"
    "bytes_left ?t = length cs + length rest" "ibytes ?t = cs @ rest" "buffered ?t"
    using decode_length_delimited [of ?s cs rest] assms(5) by simp_all
  have n1: "unat (?n + 1) = Suc (length cs)"
    using assms(5) d(2) by (simp add: unat_word_ariths)
  have "length (delimited cs) - length cs + length cs = length (delimited cs)"
    by (simp add: delimited_def)
  then have "pb_read_into ?t dest (length cs) m2 =
      (True, advance (length (delimited cs)) ?s, store_bytes m2 dest cs)"
    using d(3-5) by (simp add: pb_read_into_def pb_read_buffer del: advance_simps)
  moreover have "store_bytes (store_bytes m2 dest cs) (dest + length cs) [0] = store_bytes m2 dest (cs @ [0])"
    by (rule ext) (auto simp: store_bytes_def nth_append)
  ultimately show "pb_dec_string ?s f dest m2 =
      (True, advance (length (delimited cs)) ?s, store_bytes m2 dest (cs @ [0]))"
    using d(1,2) n1 assms(2,4) by (simp add: pb_dec_string_def Let_def del: advance_simps)
qed

lemma example_string:
  "string_at \<lparr>pf_tag = 1, pf_type = 0x06, pf_data_offset = 0, pf_size_offset = 0, pf_data_size = 4,
        pf_array_size = 0, pf_ptr = PNull\<rparr> (store_bytes (\<lambda>_. 0) 16 [72, 105]) 16 = [72, 105]"
  by (simp add: string_at_def PB_ATYPE_def strnlen_loop.simps store_bytes_def load_bytes_def upt_rec)

theorem string_field_roundtrip_witness:
  "let f = \<lparr>pf_tag = 1, pf_type = 0x06, pf_data_offset = 0, pf_size_offset = 0, pf_data_size = 4,
        pf_array_size = 0, pf_ptr = PNull\<rparr>; s = stream_of (delimited [72, 105] @ [9]) :: unit pb_istream in
   pb_dec_string s f 32 (\<lambda>_. 7) =
     (True, advance (length (delimited [72, 105])) s, store_bytes (\<lambda>_. 7) 32 [72, 105, 0])"
  using string_field_roundtrip [where 's = unit, OF _ _ example_string [symmetric], of "[9]" 32 "\<lambda>_. 7"]
  by (simp add: PB_LTYPE_def PB_ATYPE_def Let_def)

section \<open>Required fields\<close>

text \<open>The fields noted so far, as a set of indexes.\<close>

definition noted :: "u32 list \<Rightarrow> nat set" where
  "noted seen = {r. r < 32 * length seen \<and> bit (seen ! (r div 32)) (r mod 32)}"

lemma noted_mark_seen:
  assumes "length seen = 2"
  shows "noted (mark_seen it seen) =
    (if PB_HTYPE (pf_type (it_field it)) = PB_HTYPE_REQUIRED \<and> required_field_index it < 64
     then insert (required_field_index it) (noted seen) else noted seen)"
proof (cases "PB_HTYPE (pf_type (it_field it)) = PB_HTYPE_REQUIRED \<and> required_field_index it < 64")
  case True
  let ?r = "required_field_index it"
  have r: "?r div 32 < 2" using True by (simp add: less_mult_imp_div_less)
  have "x \<in> noted (mark_seen it seen) \<longleftrightarrow> x = ?r \<or> x \<in> noted seen" for x
  proof (cases "x div 32 = ?r div 32")
    case same: True
    have "x = ?r \<longleftrightarrow> x mod 32 = ?r mod 32" using same by (metis div_mult_mod_eq)
    then show ?thesis using True r assms same
      by (auto simp: noted_def mark_seen_def Let_def bit_simps)
  next
    case False
    then have "x \<noteq> ?r" by auto
    with False True r assms show ?thesis by (auto simp: noted_def mark_seen_def Let_def)
  qed
  with True show ?thesis by auto
qed (auto simp: mark_seen_def Let_def)

lemma word_noted:
  assumes "i < length seen" "b < 32"
  shows "32 * i + b \<in> noted seen \<longleftrightarrow> bit (seen ! i) b"
  using assms by (auto simp: noted_def)

lemma full_word: "(w :: u32) = - 1 \<longleftrightarrow> (\<forall>b<32. bit w b)"
  by (auto intro!: bit_word_eqI)

lemma full_word_noted:
  assumes "i < length seen"
  shows "seen ! i = - 1 \<longleftrightarrow> {32 * i..<32 * Suc i} \<subseteq> noted seen"
proof -
  have "{32 * i..<32 * Suc i} \<subseteq> noted seen \<longleftrightarrow> (\<forall>b<32. 32 * i + b \<in> noted seen)"
  proof (intro iffI subsetI allI impI)
    fix x assume all: "\<forall>b<32. 32 * i + b \<in> noted seen" and "x \<in> {32 * i..<32 * Suc i}"
    then have "x - 32 * i < 32" "32 * i + (x - 32 * i) = x" by auto
    with all show "x \<in> noted seen" by metis
  qed auto
  then show ?thesis using word_noted [OF assms] by (simp add: full_word)
qed

lemma whole_words_noted:
  "i + n \<le> length seen \<Longrightarrow> whole_words seen i n = Ret ({32 * i..<32 * (i + n)} \<subseteq> noted seen)"
proof (induction n arbitrary: i)
  case (Suc n)
  have "{32 * i..<32 * (i + Suc n)} = {32 * i..<32 * Suc i} \<union> {32 * Suc i..<32 * (Suc i + n)}" by auto
  with Suc full_word_noted [of i seen] show ?case by (simp add: add.assoc)
qed simp

lemma required_present_noted:
  assumes "length seen = 2" "c < 64" "c mod 32 \<noteq> 0" "noted seen \<subseteq> {0..<c}"
  shows "required_present seen c = Ret ({0..<c} \<subseteq> noted seen)"
proof -
  let ?q = "c div 32" and ?r = "c mod 32"
  have q: "?q < 2" using assms(2) by (simp add: less_mult_imp_div_less)
  have c: "c = 32 * ?q + ?r" by simp
  have last: "seen ! ?q = drop_bit (32 - ?r) (- 1) \<longleftrightarrow> {32 * ?q..<c} \<subseteq> noted seen"
  proof -
    have "seen ! ?q = drop_bit (32 - ?r) (- 1) \<longleftrightarrow> (\<forall>b<32. bit (seen ! ?q) b \<longleftrightarrow> b < ?r)"
      by (auto simp: bit_simps intro!: bit_word_eqI)
    also have "\<dots> \<longleftrightarrow> (\<forall>b<32. 32 * ?q + b \<in> noted seen \<longleftrightarrow> b < ?r)"
      using word_noted [of ?q seen] q assms(1) by simp
    also have "\<dots> \<longleftrightarrow> (\<forall>b<?r. 32 * ?q + b \<in> noted seen)"
    proof -
      have "b < ?r" if "32 * ?q + b \<in> noted seen" for b
        using that assms(4) c by (metis atLeastLessThan_iff nat_add_left_cancel_less subsetD)
      moreover have "?r < 32" by simp
      ultimately show ?thesis by (meson less_trans)
    qed
    also have "\<dots> \<longleftrightarrow> {32 * ?q..<c} \<subseteq> noted seen"
    proof (intro iffI subsetI allI impI)
      fix x assume all: "\<forall>b<?r. 32 * ?q + b \<in> noted seen" and x: "x \<in> {32 * ?q..<c}"
      then have "x - 32 * ?q < ?r" "32 * ?q + (x - 32 * ?q) = x"
        unfolding atLeastLessThan_iff using c by linarith+
      with all show "x \<in> noted seen" by metis
    next
      fix b assume "{32 * ?q..<c} \<subseteq> noted seen" "b < ?r"
      moreover from \<open>b < ?r\<close> have "32 * ?q + b < c" using c by linarith
      ultimately show "32 * ?q + b \<in> noted seen" by auto
    qed
    finally show ?thesis .
  qed
  have "{0..<c} = {0..<32 * ?q} \<union> {32 * ?q..<c}" using c by auto
  moreover have "0 < c" using assms(3) by (cases c) auto
  ultimately show ?thesis
    using whole_words_noted [of 0 ?q seen] last q assms(1,3)
    by (auto simp: required_present_def)
qed

text \<open>
  C11: the test for missing required fields is right whenever the number of required fields is less
  than 64 and no multiple of 32: noting the fields with the given indexes one after the other and then
  testing accepts exactly when every required field was noted.
\<close>

theorem required_check_correct:
  assumes "c < 64" "c mod 32 \<noteq> 0"
    and "\<forall>it\<in>set its. PB_HTYPE (pf_type (it_field it)) = PB_HTYPE_REQUIRED \<longrightarrow> required_field_index it < c"
  shows "required_present (fold mark_seen its [0, 0]) c =
    Ret (\<forall>r<c. \<exists>it\<in>set its. PB_HTYPE (pf_type (it_field it)) = PB_HTYPE_REQUIRED \<and>
      required_field_index it = r)"
proof -
  let ?idx = "\<lambda>its. required_field_index ` {it \<in> set its. PB_HTYPE (pf_type (it_field it)) = PB_HTYPE_REQUIRED}"
  have "length (fold mark_seen its seen) = 2 \<and> noted (fold mark_seen its seen) = noted seen \<union> ?idx its"
    if "length seen = 2" for seen
    using that assms(3)
  proof (induction its arbitrary: seen)
    case (Cons it its)
    then have "PB_HTYPE (pf_type (it_field it)) = PB_HTYPE_REQUIRED \<Longrightarrow> required_field_index it < 64"
      using assms(1) by force
    with Cons noted_mark_seen [of seen it] show ?case by auto
  qed simp
  moreover have "noted [0, 0] = {}" by (auto simp: noted_def less_Suc_eq nth_Cons')
  ultimately have f: "length (fold mark_seen its [0, 0]) = 2" "noted (fold mark_seen its [0, 0]) = ?idx its"
    by simp_all
  moreover have "?idx its \<subseteq> {0..<c}" using assms(3) by auto
  ultimately have "required_present (fold mark_seen its [0, 0]) c = Ret ({0..<c} \<subseteq> ?idx its)"
    using required_present_noted [OF f(1) assms(1,2)] by simp
  moreover have "{0..<c} \<subseteq> ?idx its \<longleftrightarrow> (\<forall>r<c. \<exists>it\<in>set its.
      PB_HTYPE (pf_type (it_field it)) = PB_HTYPE_REQUIRED \<and> required_field_index it = r)"
    by (auto simp: subset_eq image_iff Ball_def)
  ultimately show ?thesis by simp
qed

theorem required_check_correct_witness:
  "required_present (fold mark_seen [iter_at example_outer 16 0] [0, 0]) 2 = Ret False"
proof -
  let ?its = "[iter_at example_outer 16 0]"
  have idx: "required_field_index (iter_at example_outer 16 0) = 0" by (simp add: required_before_def)
  then have "\<not> (\<forall>r<2. \<exists>it\<in>set ?its. PB_HTYPE (pf_type (it_field it)) = PB_HTYPE_REQUIRED \<and>
      required_field_index it = r)" by (auto intro!: exI [of _ 1])
  with required_check_correct [of 2 ?its] idx show ?thesis by simp
qed

lemma required_present_undefined:
  assumes "length seen = 2"
  shows "required_present seen n = Undefined \<longleftrightarrow> (n = 32 \<or> 64 \<le> n) \<and> {0..<min n 64} \<subseteq> noted seen"
proof -
  obtain v w where seen: "seen = [v, w]" using assms by (auto simp: numeral_2_eq_2 length_Suc_conv)
  have f: "v = - 1 \<longleftrightarrow> {0..<32} \<subseteq> noted seen" "w = - 1 \<longleftrightarrow> {32..<64} \<subseteq> noted seen"
    using full_word_noted [of 0 seen] full_word_noted [of 1 seen] by (simp_all add: seen)
  consider "n < 32" | "n = 32" | "32 < n" "n < 64" | "64 \<le> n" by linarith
  then show ?thesis
  proof cases
    case 1
    then show ?thesis by (simp add: required_present_def seen)
  next
    case 2
    then have "n div 32 = Suc 0" "n mod 32 = 0" by simp_all
    then show ?thesis using 2 f(1) by (simp add: required_present_def seen)
  next
    case 3
    then have q: "n div 32 = Suc 0" by (intro div_nat_eqI) simp_all
    moreover have "n mod 32 \<noteq> 0" using 3 q mult_div_mod_eq [of 32 n] by simp
    ultimately show ?thesis using 3 by (simp add: required_present_def seen)
  next
    case 4
    then have "n div 32 = Suc (Suc ((n - 64) div 32))" using div_add_self2 [of 32 "n - 32"] div_add_self2 [of 32 "n - 64"] by simp
    moreover have "whole_words seen 2 k = Undefined \<or> k = 0" for k by (cases k) (simp_all add: seen)
    moreover have "{0..<min n 64} = {0..<32} \<union> {32..<64}" using 4 by auto
    ultimately show ?thesis using 4 f
      by (cases "(n - 64) div 32") (auto simp: required_present_def seen)
  qed
qed

text \<open>
  C12: when all fields were seen, the test for missing required fields shifts a 32-bit word by 32 if there are 32
  of them, and reads past the end of \<open>fields_seen\<close> if there are 64 or more: both are undefined in C. It happens
  for every descriptor table with that many required fields, wherever the iterator stands when the
  loop of \<open>pb_decode_noinit\<close> ends, and for no other number of fields. (The index of a field behind the first 64
  is not noted, so only those count.)
\<close>

theorem required_check_undefined:
  assumes "terminated flds" "i < length (real_fields flds)" "length seen = 2"
  defines "n \<equiv> length (filter (\<lambda>f. PB_HTYPE (pf_type f) = PB_HTYPE_REQUIRED) (real_fields flds))"
  shows "(check_required (iter_at flds d i) seen = Undefined \<longleftrightarrow>
      (n = 32 \<or> 64 \<le> n) \<and> {0..<min n 64} \<subseteq> noted seen) \<and>
    (decode_fields fuel env s (iter_at flds d 0) [0, 0] 0 m = Ret (Loop_Done s' m' (iter_at flds d i) seen) \<longrightarrow>
      (pb_decode_noinit fuel env s flds d m = Undefined \<longleftrightarrow> (n = 32 \<or> 64 \<le> n) \<and> {0..<min n 64} \<subseteq> noted seen))"
proof -
  have "required_before flds (length (real_fields flds)) = n"
    by (simp add: n_def required_before_def takeWhile_eq_take [symmetric])
  then have c: "check_required (iter_at flds d i) seen = Undefined \<longleftrightarrow>
      (n = 32 \<or> 64 \<le> n) \<and> {0..<min n 64} \<subseteq> noted seen"
    using check_required_at [OF assms(1,2)] required_present_undefined [OF assms(3)] by simp
  moreover have "pb_decode_noinit fuel env s flds d m = Undefined \<longleftrightarrow> check_required (iter_at flds d i) seen = Undefined"
    if "decode_fields fuel env s (iter_at flds d 0) [0, 0] 0 m = Ret (Loop_Done s' m' (iter_at flds d i) seen)"
    using that by (cases "check_required (iter_at flds d i) seen")
      (simp_all add: pb_decode_noinit_def noinit_with_def iter_begin)
  ultimately show ?thesis by blast
qed

text \<open>A message type with 32 required fields, and a complete message, on which \<open>pb_decode\<close> is undefined.\<close>

definition thirty_two :: "pb_field list" where
  "thirty_two = map (\<lambda>i. \<lparr>pf_tag = of_nat (Suc i), pf_type = 0x01, pf_data_offset = 0, pf_size_offset = 0,
     pf_data_size = 1, pf_array_size = 0, pf_ptr = PNull\<rparr>) [0..<32] @ [PB_LAST_FIELD]"

definition complete_message :: "u8 list" where
  "complete_message = [8, 1, 16, 1, 24, 1, 32, 1, 40, 1, 48, 1, 56, 1, 64, 1, 72, 1, 80, 1, 88, 1, 96, 1, 104, 1, 112, 1, 120, 1, 128, 1, 1, 136, 1, 1, 144, 1, 1, 152, 1, 1, 160, 1, 1, 168, 1, 1, 176, 1, 1, 184, 1, 1, 192, 1, 1, 200, 1, 1, 208, 1, 1, 216, 1, 1, 224, 1, 1, 232, 1, 1, 240, 1, 1, 248, 1, 1, 128, 2, 1]"

lemma thirty_two_undefined:
  "case pb_decode 33 example_env (pb_istream_from_buffer (mem_of complete_message) 0 (length complete_message))
     thirty_two 16 (\<lambda>_. 7) of Undefined \<Rightarrow> True | _ \<Rightarrow> False"
  by code_simp

lemma thirty_two_facts:
  "terminated thirty_two" "length (real_fields thirty_two) = 32"
  "length (filter (\<lambda>f. PB_HTYPE (pf_type f) = PB_HTYPE_REQUIRED) (real_fields thirty_two)) = 32"
  by code_simp+

theorem required_check_undefined_witness:
  "check_required (iter_at thirty_two 16 31) [- 1, 0] = Undefined \<and>
   check_required (iter_at thirty_two 16 31) [1, 0] \<noteq> Undefined \<and>
   pb_decode 33 example_env (pb_istream_from_buffer (mem_of complete_message) 0 (length complete_message))
     thirty_two 16 (\<lambda>_. 7) = Undefined"
proof -
  have "{0..<32} \<subseteq> noted [- 1, 0]" using full_word_noted [of 0 "[- 1, 0]"] by simp
  moreover have "1 \<notin> noted [1, 0]" by (simp add: noted_def)
  then have "\<not> {0..<32} \<subseteq> noted [1, 0]" using subsetD [of "{0..<32}" "noted [1, 0]" 1] by auto
  moreover have "31 < length (real_fields thirty_two)" by (simp add: thirty_two_facts)
  note general = conjunct1 [OF required_check_undefined [OF thirty_two_facts(1) this]]
  ultimately have "check_required (iter_at thirty_two 16 31) [- 1, 0] = Undefined"
    "check_required (iter_at thirty_two 16 31) [1, 0] \<noteq> Undefined"
    using general [of "[- 1, 0]" 16] general [of "[1, 0]" 16] by (simp_all add: thirty_two_facts)
  then show ?thesis using thirty_two_undefined by (auto split: outcome.splits)
qed

text \<open>
  C13: a message cut off in the middle of a tag is not noticed: \<open>pb_decode_tag\<close> reports the end of the
  message whenever no bytes are left. When all that is left of a buffer are one to five bytes that begin
  a tag and do not end it, the loop of \<open>pb_decode\<close> ends as it does with nothing left, in every state that it
  may be in after the fields before them: with the same struct, and with the same required fields noted.
  A message that consists of such bytes has the verdict and the struct of the empty message.
\<close>

theorem truncated_tag_accepted:
  assumes "buffered s" "0 < bytes_left s" "bytes_left s \<le> 5" "\<forall>b \<in> set (ibytes s). b AND 0x80 \<noteq> 0"
  shows "(\<exists>s'. decode_fields (Suc fuel) env s it seen ext m = Ret (Loop_Done s' m it seen)) \<and>
    decode_fields (Suc fuel) env (s\<lparr>bytes_left := 0\<rparr>) it seen ext m =
      Ret (Loop_Done (s\<lparr>bytes_left := 0\<rparr>) m it seen) \<and>
    ((\<exists>s'. pb_decode (Suc fuel) env s flds d m = Ret (ok, s', m')) \<longleftrightarrow>
     (\<exists>s'. pb_decode (Suc fuel) env (s\<lparr>bytes_left := 0\<rparr>) flds d m = Ret (ok, s', m')))"
proof -
  have all: "\<forall>b \<in> set (ibytes s). continues b" using assms(4) by simp
  then have tw: "takeWhile continues (ibytes s) = ibytes s" "dropWhile continues (ibytes s) = []" by simp_all
  have "\<exists>e. pb_decode_varint32 s = (None, pb_iset_error e (advance (bytes_left s) s))"
    unfolding pb_decode_varint32_result [OF assms(1)] varint_result_def Let_def tw length_ibytes [OF assms(1)] list.case
    using assms(3) by (cases "bytes_left s = 5") auto
  then obtain s1 where tag: "pb_decode_tag s = ((False, 0, 0, True), s1)"
    by (auto simp: pb_decode_tag_def)
  have loop: "decode_fields (Suc fuel) env s it seen ext m1 = Ret (Loop_Done s1 m1 it seen)" for it seen ext m1
    using assms(2) by (simp add: tag)
  have empty: "decode_fields (Suc fuel) env (s\<lparr>bytes_left := 0\<rparr>) it seen ext m1 =
      Ret (Loop_Done (s\<lparr>bytes_left := 0\<rparr>) m1 it seen)" for it seen ext m1
    by simp
  have "(\<exists>s'. pb_decode (Suc fuel) env s flds d m = Ret (ok, s', m')) \<longleftrightarrow>
     (\<exists>s'. pb_decode (Suc fuel) env (s\<lparr>bytes_left := 0\<rparr>) flds d m = Ret (ok, s', m'))"
    unfolding pb_decode_def pb_decode_with_def pb_decode_noinit_def noinit_with_def loop empty
    by (cases "pb_message_set_to_defaults (Suc fuel) env flds d m";
      cases "check_required (snd (pb_field_iter_begin flds d)) [0, 0]") (auto split: if_splits)
  then show ?thesis using loop empty by blast
qed

theorem truncated_tag_accepted_witness:
  "\<exists>s'. decode_fields 6 example_env (pb_istream_from_buffer (mem_of [0x92, 0x80]) 0 2) (iter_at example_outer 16 1) [1, 0] 0
      (\<lambda>_. 7) = Ret (Loop_Done s' (\<lambda>_. 7) (iter_at example_outer 16 1) [1, 0])"
proof -
  let ?s = "pb_istream_from_buffer (mem_of [0x92, 0x80]) 0 2 :: unit pb_istream"
  have "ibytes ?s = [0x92, 0x80]" by (simp add: load_bytes_def upt_rec mem_of_def)
  then show ?thesis
    using truncated_tag_accepted [of ?s 5 example_env "iter_at example_outer 16 1" "[1, 0]" 0 "\<lambda>_. 7"] by simp
qed

end
