(* ===== verification/Cbs.thy ===== *)
theory Cbs
  imports Prelude
begin

text \<open>
  The byte-string parser of BoringSSL (\<open>crypto/bytestring/cbs.c\<close>). A \<open>CBS\<close> is an address and a
  length; the memory it points into is constant while it is parsed and is passed beside it. A C
  function that returns 0 or 1 and stores through output pointers is a function to an optional value
  and the \<open>CBS\<close> afterwards; \<^term>\<open>None\<close> is a return of 0.
\<close>

record cbs =
  cbs_data :: nat
  cbs_len :: nat

section \<open>Operations\<close>

definition CBS_init :: "nat \<Rightarrow> nat \<Rightarrow> cbs" where
  "CBS_init data len = \<lparr>cbs_data = data, cbs_len = len\<rparr>"

definition cbs_get :: "cbs \<Rightarrow> nat \<Rightarrow> nat option \<times> cbs" where
  "cbs_get c n =
     (if cbs_len c < n then (None, c)
      else (Some (cbs_data c), c\<lparr>cbs_data := cbs_data c + n, cbs_len := cbs_len c - n\<rparr>))"

definition CBS_skip :: "cbs \<Rightarrow> nat \<Rightarrow> bool \<times> cbs" where
  "CBS_skip c n = (case cbs_get c n of (None, c') \<Rightarrow> (False, c') | (Some _, c') \<Rightarrow> (True, c'))"

definition CBS_data :: "cbs \<Rightarrow> nat" where
  "CBS_data c = cbs_data c"

definition CBS_len :: "cbs \<Rightarrow> nat" where
  "CBS_len c = cbs_len c"

text \<open>The bytes a \<open>CBS\<close> stands for.\<close>

definition cbs_bytes :: "mem \<Rightarrow> cbs \<Rightarrow> u8 list" where
  "cbs_bytes m c = load_bytes m (cbs_data c) (cbs_len c)"

text \<open>\<open>alloc\<close> says whether the allocation succeeds; the result is the bytes of the new buffer
  (\<open>[]\<close> for \<open>NULL\<close> and a length of 0).\<close>

definition CBS_stow :: "mem \<Rightarrow> cbs \<Rightarrow> bool \<Rightarrow> u8 list option" where
  "CBS_stow m c alloc =
     (if cbs_len c = 0 then Some [] else if alloc then Some (cbs_bytes m c) else None)"

definition CBS_strdup :: "mem \<Rightarrow> cbs \<Rightarrow> bool \<Rightarrow> u8 list option" where
  "CBS_strdup m c alloc =
     (if alloc then Some (takeWhile (\<lambda>b. b \<noteq> 0) (cbs_bytes m c) @ [0]) else None)"

definition CBS_contains_zero_byte :: "mem \<Rightarrow> cbs \<Rightarrow> bool" where
  "CBS_contains_zero_byte m c = list_ex (\<lambda>b. b = 0) (cbs_bytes m c)"

definition CBS_mem_equal :: "mem \<Rightarrow> cbs \<Rightarrow> u8 list \<Rightarrow> bool" where
  "CBS_mem_equal m c bs = (if length bs \<noteq> cbs_len c then False else cbs_bytes m c = bs)"

definition cbs_get_u :: "mem \<Rightarrow> cbs \<Rightarrow> nat \<Rightarrow> u32 option \<times> cbs" where
  "cbs_get_u m c n =
     (case cbs_get c n of
        (None, c') \<Rightarrow> (None, c')
      | (Some data, c') \<Rightarrow>
          (Some (fold (\<lambda>i result. push_bit 8 result OR ucast (m (data + i))) [0..<n] 0), c'))"

definition CBS_get_u8 :: "mem \<Rightarrow> cbs \<Rightarrow> u8 option \<times> cbs" where
  "CBS_get_u8 m c =
     (case cbs_get c 1 of (None, c') \<Rightarrow> (None, c') | (Some v, c') \<Rightarrow> (Some (m v), c'))"

definition CBS_get_u16 :: "mem \<Rightarrow> cbs \<Rightarrow> u16 option \<times> cbs" where
  "CBS_get_u16 m c =
     (case cbs_get_u m c 2 of (None, c') \<Rightarrow> (None, c') | (Some v, c') \<Rightarrow> (Some (ucast v), c'))"

definition CBS_get_u24 :: "mem \<Rightarrow> cbs \<Rightarrow> u32 option \<times> cbs" where
  "CBS_get_u24 m c = cbs_get_u m c 3"

definition CBS_get_u32 :: "mem \<Rightarrow> cbs \<Rightarrow> u32 option \<times> cbs" where
  "CBS_get_u32 m c = cbs_get_u m c 4"

definition CBS_get_last_u8 :: "mem \<Rightarrow> cbs \<Rightarrow> u8 option \<times> cbs" where
  "CBS_get_last_u8 m c =
     (if cbs_len c = 0 then (None, c)
      else (Some (m (cbs_data c + (cbs_len c - 1))), c\<lparr>cbs_len := cbs_len c - 1\<rparr>))"

definition CBS_get_bytes :: "cbs \<Rightarrow> nat \<Rightarrow> cbs option \<times> cbs" where
  "CBS_get_bytes c n =
     (case cbs_get c n of (None, c') \<Rightarrow> (None, c') | (Some v, c') \<Rightarrow> (Some (CBS_init v n), c'))"

text \<open>The result is the bytes copied to \<open>out\<close>.\<close>

definition CBS_copy_bytes :: "mem \<Rightarrow> cbs \<Rightarrow> nat \<Rightarrow> u8 list option \<times> cbs" where
  "CBS_copy_bytes m c n =
     (case cbs_get c n of (None, c') \<Rightarrow> (None, c') | (Some v, c') \<Rightarrow> (Some (load_bytes m v n), c'))"

definition cbs_get_length_prefixed :: "mem \<Rightarrow> cbs \<Rightarrow> nat \<Rightarrow> cbs option \<times> cbs" where
  "cbs_get_length_prefixed m c len_len =
     (case cbs_get_u m c len_len of
        (None, c') \<Rightarrow> (None, c')
      | (Some len, c') \<Rightarrow> CBS_get_bytes c' (unat len))"

definition CBS_get_u8_length_prefixed :: "mem \<Rightarrow> cbs \<Rightarrow> cbs option \<times> cbs" where
  "CBS_get_u8_length_prefixed m c = cbs_get_length_prefixed m c 1"

definition CBS_get_u16_length_prefixed :: "mem \<Rightarrow> cbs \<Rightarrow> cbs option \<times> cbs" where
  "CBS_get_u16_length_prefixed m c = cbs_get_length_prefixed m c 2"

definition CBS_get_u24_length_prefixed :: "mem \<Rightarrow> cbs \<Rightarrow> cbs option \<times> cbs" where
  "CBS_get_u24_length_prefixed m c = cbs_get_length_prefixed m c 3"

section \<open>ASN.1\<close>

abbreviation (input) CBS_ASN1_BOOLEAN :: u32 where "CBS_ASN1_BOOLEAN \<equiv> 0x1"
abbreviation (input) CBS_ASN1_INTEGER :: u32 where "CBS_ASN1_INTEGER \<equiv> 0x2"
abbreviation (input) CBS_ASN1_BITSTRING :: u32 where "CBS_ASN1_BITSTRING \<equiv> 0x3"
abbreviation (input) CBS_ASN1_OCTETSTRING :: u32 where "CBS_ASN1_OCTETSTRING \<equiv> 0x4"
abbreviation (input) CBS_ASN1_CONSTRUCTED :: u32 where "CBS_ASN1_CONSTRUCTED \<equiv> 0x20"

text \<open>The element read: its bytes as a \<open>CBS\<close>, its tag and the length of its header.\<close>

type_synonym asn1_element = "cbs \<times> u32 \<times> nat"

definition asn1_take :: "cbs \<Rightarrow> u8 \<Rightarrow> nat \<Rightarrow> nat \<Rightarrow> asn1_element option \<times> cbs" where
  "asn1_take c tag header_len len =
     (case CBS_get_bytes c len of
        (None, c') \<Rightarrow> (None, c')
      | (Some out, c') \<Rightarrow> (Some (out, ucast tag, header_len), c'))"

text \<open>The header is read from a copy, so a failure leaves the \<open>CBS\<close> as it was.\<close>

definition cbs_get_any_asn1_element :: "mem \<Rightarrow> cbs \<Rightarrow> bool \<Rightarrow> asn1_element option \<times> cbs" where
  "cbs_get_any_asn1_element m c ber_ok =
     (case CBS_get_u8 m c of
        (None, _) \<Rightarrow> (None, c)
      | (Some tag, header) \<Rightarrow>
        (case CBS_get_u8 m header of
           (None, _) \<Rightarrow> (None, c)
         | (Some length_byte, header) \<Rightarrow>
             if tag AND 0x1f = 0x1f then (None, c)
             else if length_byte AND 0x80 = 0 then asn1_take c tag 2 (unat length_byte + 2)
             else
               let num_bytes = unat (length_byte AND 0x7f) in
               if ber_ok \<and> ucast tag AND CBS_ASN1_CONSTRUCTED \<noteq> 0 \<and> num_bytes = 0
                 then asn1_take c tag 2 2
               else if num_bytes = 0 \<or> 4 < num_bytes then (None, c)
               else case cbs_get_u m header num_bytes of
                   (None, _) \<Rightarrow> (None, c)
                 | (Some len32, _) \<Rightarrow>
                     if len32 < 128 then (None, c)
                     else if drop_bit ((num_bytes - 1) * 8) len32 = 0 then (None, c)
                     else
                       let len = unat len32 in
                       if size_add (size_add len 2) num_bytes < len then (None, c)
                       else asn1_take c tag (2 + num_bytes) (size_add len (2 + num_bytes))))"

definition CBS_get_any_asn1_element :: "mem \<Rightarrow> cbs \<Rightarrow> asn1_element option \<times> cbs" where
  "CBS_get_any_asn1_element m c = cbs_get_any_asn1_element m c False"

definition CBS_get_any_ber_asn1_element :: "mem \<Rightarrow> cbs \<Rightarrow> asn1_element option \<times> cbs" where
  "CBS_get_any_ber_asn1_element m c = cbs_get_any_asn1_element m c True"

definition CBS_get_any_asn1 :: "mem \<Rightarrow> cbs \<Rightarrow> (cbs \<times> u32) option \<times> cbs" where
  "CBS_get_any_asn1 m c =
     (case CBS_get_any_asn1_element m c of
        (None, c') \<Rightarrow> (None, c')
      | (Some (out, tag, header_len), c') \<Rightarrow>
          (case CBS_skip out header_len of
             (False, _) \<Rightarrow> (None, c')
           | (True, out') \<Rightarrow> (Some (out', tag), c')))"

definition cbs_get_asn1 :: "mem \<Rightarrow> cbs \<Rightarrow> u32 \<Rightarrow> bool \<Rightarrow> cbs option \<times> cbs" where
  "cbs_get_asn1 m c tag_value skip_header =
     (case CBS_get_any_asn1_element m c of
        (None, c') \<Rightarrow> (None, c')
      | (Some (out, tag, header_len), c') \<Rightarrow>
          if tag \<noteq> tag_value then (None, c')
          else if skip_header then
            (case CBS_skip out header_len of
               (False, _) \<Rightarrow> (None, c')
             | (True, out') \<Rightarrow> (Some out', c'))
          else (Some out, c'))"

definition CBS_get_asn1 :: "mem \<Rightarrow> cbs \<Rightarrow> u32 \<Rightarrow> cbs option \<times> cbs" where
  "CBS_get_asn1 m c tag_value = cbs_get_asn1 m c tag_value True"

definition CBS_get_asn1_element :: "mem \<Rightarrow> cbs \<Rightarrow> u32 \<Rightarrow> cbs option \<times> cbs" where
  "CBS_get_asn1_element m c tag_value = cbs_get_asn1 m c tag_value False"

definition CBS_peek_asn1_tag :: "mem \<Rightarrow> cbs \<Rightarrow> u32 \<Rightarrow> bool" where
  "CBS_peek_asn1_tag m c tag_value =
     (if CBS_len c < 1 then False else ucast (m (CBS_data c)) = tag_value)"

text \<open>The loop of \<open>CBS_get_asn1_uint64\<close> over the bytes of the integer.\<close>

fun uint64_loop :: "u8 list \<Rightarrow> u64 \<Rightarrow> u64 option" where
  "uint64_loop [] out = Some out"
| "uint64_loop (b # bs) out =
     (if drop_bit 56 out \<noteq> 0 then None else uint64_loop bs (push_bit 8 out OR ucast b))"

definition CBS_get_asn1_uint64 :: "mem \<Rightarrow> cbs \<Rightarrow> u64 option \<times> cbs" where
  "CBS_get_asn1_uint64 m c =
     (case CBS_get_asn1 m c CBS_ASN1_INTEGER of
        (None, c') \<Rightarrow> (None, c')
      | (Some bytes, c') \<Rightarrow>
          (let data = CBS_data bytes; len = CBS_len bytes in
           if len = 0 then (None, c')
           else if m data AND 0x80 \<noteq> 0 then (None, c')
           else if m data = 0 \<and> 1 < len \<and> m (data + 1) AND 0x80 = 0 then (None, c')
           else (uint64_loop (cbs_bytes m bytes) 0, c')))"

text \<open>The result is \<open>out\<close> when the element is present.\<close>

definition CBS_get_optional_asn1 :: "mem \<Rightarrow> cbs \<Rightarrow> u32 \<Rightarrow> cbs option option \<times> cbs" where
  "CBS_get_optional_asn1 m c tag =
     (if CBS_peek_asn1_tag m c tag then
        (case CBS_get_asn1 m c tag of
           (None, c') \<Rightarrow> (None, c')
         | (Some out, c') \<Rightarrow> (Some (Some out), c'))
      else (Some None, c))"

definition CBS_get_optional_asn1_octet_string :: "mem \<Rightarrow> cbs \<Rightarrow> u32 \<Rightarrow> (cbs \<times> bool) option \<times> cbs" where
  "CBS_get_optional_asn1_octet_string m c tag =
     (case CBS_get_optional_asn1 m c tag of
        (None, c') \<Rightarrow> (None, c')
      | (Some None, c') \<Rightarrow> (Some (CBS_init 0 0, False), c')
      | (Some (Some child), c') \<Rightarrow>
          (case CBS_get_asn1 m child CBS_ASN1_OCTETSTRING of
             (None, _) \<Rightarrow> (None, c')
           | (Some out, child') \<Rightarrow>
               if CBS_len child' \<noteq> 0 then (None, c') else (Some (out, True), c')))"

definition CBS_get_optional_asn1_uint64 :: "mem \<Rightarrow> cbs \<Rightarrow> u32 \<Rightarrow> u64 \<Rightarrow> u64 option \<times> cbs" where
  "CBS_get_optional_asn1_uint64 m c tag default_value =
     (case CBS_get_optional_asn1 m c tag of
        (None, c') \<Rightarrow> (None, c')
      | (Some None, c') \<Rightarrow> (Some default_value, c')
      | (Some (Some child), c') \<Rightarrow>
          (case CBS_get_asn1_uint64 m child of
             (None, _) \<Rightarrow> (None, c')
           | (Some v, child') \<Rightarrow> if CBS_len child' \<noteq> 0 then (None, c') else (Some v, c')))"

definition CBS_get_optional_asn1_bool :: "mem \<Rightarrow> cbs \<Rightarrow> u32 \<Rightarrow> int \<Rightarrow> int option \<times> cbs" where
  "CBS_get_optional_asn1_bool m c tag default_value =
     (case CBS_get_optional_asn1 m c tag of
        (None, c') \<Rightarrow> (None, c')
      | (Some None, c') \<Rightarrow> (Some default_value, c')
      | (Some (Some child), c') \<Rightarrow>
          (case CBS_get_asn1 m child CBS_ASN1_BOOLEAN of
             (None, _) \<Rightarrow> (None, c')
           | (Some child2, child') \<Rightarrow>
               if CBS_len child2 \<noteq> 1 \<or> CBS_len child' \<noteq> 0 then (None, c')
               else
                 let boolean = m (CBS_data child2) in
                 if boolean = 0 then (Some 0, c')
                 else if boolean = 0xff then (Some 1, c') else (None, c')))"

definition CBS_is_valid_asn1_bitstring :: "mem \<Rightarrow> cbs \<Rightarrow> bool" where
  "CBS_is_valid_asn1_bitstring m c =
     (case CBS_get_u8 m c of
        (None, _) \<Rightarrow> False
      | (Some num_unused_bits, rest) \<Rightarrow>
          if 7 < num_unused_bits then False
          else if num_unused_bits = 0 then True
          else case CBS_get_last_u8 m rest of
              (None, _) \<Rightarrow> False
            | (Some last_byte, _) \<Rightarrow> last_byte AND (push_bit (unat num_unused_bits) 1 - 1) = 0)"

definition CBS_asn1_bitstring_has_bit :: "mem \<Rightarrow> cbs \<Rightarrow> u32 \<Rightarrow> bool" where
  "CBS_asn1_bitstring_has_bit m c b =
     (if \<not> CBS_is_valid_asn1_bitstring m c then False
      else
        let byte_num = unat (drop_bit 3 b + 1); bit_num = 7 - unat (b AND 7) in
        byte_num < CBS_len c \<and> m (CBS_data c + byte_num) AND push_bit bit_num 1 \<noteq> 0)"

section \<open>The bytes that the operations take\<close>

named_theorems cbs_simps "the operations of the parser on the bytes they see"

definition cbs_adv :: "cbs \<Rightarrow> nat \<Rightarrow> cbs" where
  "cbs_adv c n = c\<lparr>cbs_data := cbs_data c + n, cbs_len := cbs_len c - n\<rparr>"

lemma cbs_adv_fields [simp]: "cbs_data (cbs_adv c n) = cbs_data c + n"
  "cbs_len (cbs_adv c n) = cbs_len c - n"
  by (simp_all add: cbs_adv_def)

lemma cbs_adv_0 [simp]: "cbs_adv c 0 = c"
  by (simp add: cbs_adv_def)

lemma cbs_adv_adv [simp]: "cbs_adv (cbs_adv c a) b = cbs_adv c (a + b)"
  by (simp add: cbs_adv_def)

lemma cbs_init_fields [simp]: "cbs_data (CBS_init d n) = d" "cbs_len (CBS_init d n) = n"
  by (simp_all add: CBS_init_def)

lemma cbs_adv_init: "n \<le> len \<Longrightarrow> cbs_adv (CBS_init d len) n = CBS_init (d + n) (len - n)"
  by (simp add: CBS_init_def cbs_adv_def)

lemma length_cbs_bytes [simp]: "length (cbs_bytes m c) = cbs_len c"
  by (simp add: cbs_bytes_def)

lemma cbs_bytes_adv [simp]: "cbs_bytes m (cbs_adv c n) = drop n (cbs_bytes m c)"
  by (simp add: cbs_bytes_def)

lemma cbs_bytes_init [simp]: "cbs_bytes m (CBS_init d n) = load_bytes m d n"
  by (simp add: cbs_bytes_def)

lemma take_cbs_bytes: "n \<le> cbs_len c \<Longrightarrow> take n (cbs_bytes m c) = load_bytes m (cbs_data c) n"
  by (simp add: cbs_bytes_def min_def)

lemma nth_cbs_bytes: "i < cbs_len c \<Longrightarrow> cbs_bytes m c ! i = m (cbs_data c + i)"
  by (simp add: cbs_bytes_def)

lemma cbs_get_eq [cbs_simps]:
  "cbs_get c n = (if n \<le> cbs_len c then (Some (cbs_data c), cbs_adv c n) else (None, c))"
  by (simp add: cbs_get_def cbs_adv_def)

lemma CBS_skip_eq [cbs_simps]:
  "CBS_skip c n = (if n \<le> cbs_len c then (True, cbs_adv c n) else (False, c))"
  by (simp add: CBS_skip_def cbs_simps)

lemma CBS_get_bytes_eq [cbs_simps]:
  "CBS_get_bytes c n =
     (if n \<le> cbs_len c then (Some (CBS_init (cbs_data c) n), cbs_adv c n) else (None, c))"
  by (simp add: CBS_get_bytes_def cbs_simps)

lemma fold_be_word:
  "fold (\<lambda>i result. push_bit 8 result OR ucast (m (d + i))) [0..<n] 0 =
     (be_word (load_bytes m d n) :: 'a::len word)"
proof (induction n)
  case (Suc n)
  then show ?case
    using load_bytes_add [of m d n 1] by (simp add: load_bytes_Suc be_word_snoc)
qed (simp add: be_word_def)

lemma cbs_get_u_eq [cbs_simps]:
  "cbs_get_u m c n =
     (if n \<le> cbs_len c then (Some (be_word (take n (cbs_bytes m c))), cbs_adv c n) else (None, c))"
  by (simp add: cbs_get_u_def cbs_simps fold_be_word take_cbs_bytes)

lemma CBS_get_u8_eq [cbs_simps]:
  "CBS_get_u8 m c =
     (case cbs_bytes m c of [] \<Rightarrow> (None, c) | b # _ \<Rightarrow> (Some b, cbs_adv c 1))"
  by (cases "cbs_len c") (simp_all add: CBS_get_u8_def cbs_simps cbs_bytes_def load_bytes_Suc)

section \<open>Distinguished encoding\<close>

text \<open>The number of base-256 digits, the length octets and an element in DER.\<close>

fun octets :: "nat \<Rightarrow> nat" where
  "octets n = (if n < 256 then 1 else Suc (octets (n div 256)))"

declare octets.simps [simp del]

definition der_length :: "nat \<Rightarrow> u8 list" where
  "der_length n =
     (if n < 128 then [word_of_nat n]
      else word_of_nat (128 + octets n) # be_bytes (octets n) (word_of_nat n :: u32))"

definition der_element :: "u8 \<Rightarrow> u8 list \<Rightarrow> u8 list" where
  "der_element tag contents = tag # der_length (length contents) @ contents"

lemma octets_eq_iff: "octets n = Suc k \<longleftrightarrow> n < 256 ^ Suc k \<and> (k = 0 \<or> 256 ^ k \<le> n)"
proof (induction n arbitrary: k rule: octets.induct)
  case (1 n)
  show ?case
  proof (cases "n < 256")
    case True
    then have "256 ^ k \<le> n \<Longrightarrow> k = 0" for k :: nat
      using power_increasing [of 1 k "256 :: nat"] by fastforce
    with True show ?thesis by (subst octets.simps) (auto simp: less_le_trans)
  next
    case False
    then have o: "octets n = Suc (octets (n div 256))" by (subst octets.simps) simp
    show ?thesis
    proof (cases k)
      case 0
      then show ?thesis using o False octets.simps [of "n div 256"] by (auto split: if_splits)
    next
      case (Suc j)
      have "n < 256 ^ Suc k \<longleftrightarrow> n div 256 < 256 ^ Suc j" "256 ^ k \<le> n \<longleftrightarrow> 256 ^ j \<le> n div 256"
        using Suc by (simp_all add: div_less_iff_less_mult less_eq_div_iff_mult_less_eq mult.commute)
      then show ?thesis using o False Suc 1 [of j] by auto
    qed
  qed
qed

lemma octets_pos [simp]: "0 < octets n"
  by (subst octets.simps) simp

lemma octets_bounds: "n < 256 ^ octets n" "256 \<le> n \<Longrightarrow> 256 ^ (octets n - 1) \<le> n"
  using octets_eq_iff [of n "octets n - 1"] by auto

lemma octets_le: "n < 256 ^ k \<Longrightarrow> 0 < k \<Longrightarrow> octets n \<le> k"
proof (rule ccontr)
  assume *: "n < 256 ^ k" "0 < k" "\<not> octets n \<le> k"
  then have "256 ^ k \<le> (256 :: nat) ^ (octets n - 1)" by (intro power_increasing) auto
  moreover have "256 ^ (octets n - 1) \<le> n"
    using * octets_eq_iff [of n "octets n - 1"] by (auto split: if_splits)
  ultimately show False using *(1) by linarith
qed

lemma unat_be_word_less:
  assumes "8 * length bs \<le> LENGTH('a)"
  shows "unat (be_word bs :: 'a::len word) < 256 ^ length bs"
proof -
  have "be_word bs = take_bit (8 * length bs) (be_word bs :: 'a word)"
    using be_bytes_be_word [OF refl assms] be_word_be_bytes by metis
  then have "unat (be_word bs :: 'a word) = take_bit (8 * length bs) (unat (be_word bs :: 'a word))"
    by (metis unsigned_take_bit_eq)
  then show ?thesis
    using take_bit_nat_less_exp [of "8 * length bs" "unat (be_word bs :: 'a word)"]
    by (simp add: power_mult)
qed

lemma u32_less_128: "(w :: u32) < 128 \<longleftrightarrow> unat w < 128"
  by (simp add: word_less_nat_alt)

section \<open>Headers\<close>

text \<open>The header at the front of a byte list: tag, length of the header, length of the contents.\<close>

definition der_long :: "u8 \<Rightarrow> nat \<Rightarrow> u8 list \<Rightarrow> (u8 \<times> nat \<times> nat) option" where
  "der_long tag nb bs =
     (let len = unat (be_word (take nb bs) :: u32) in
      if nb = 0 \<or> 4 < nb \<or> length bs < nb \<or> len < 128 \<or> len < 256 ^ (nb - 1) then None
      else Some (tag, 2 + nb, len))"

fun der_header :: "u8 list \<Rightarrow> (u8 \<times> nat \<times> nat) option" where
  "der_header (tag # lb # bs) =
     (if tag AND 0x1f = 0x1f then None
      else if lb AND 0x80 = 0 then Some (tag, 2, unat lb)
      else der_long tag (unat (lb AND 0x7f)) bs)"
| "der_header _ = None"

lemma long_condition:
  "nb \<le> length bs \<Longrightarrow> 0 < nb \<Longrightarrow> nb \<le> 4 \<Longrightarrow>
     drop_bit ((nb - 1) * 8) (be_word (take nb bs) :: u32) = 0 \<longleftrightarrow>
     unat (be_word (take nb bs) :: u32) < 256 ^ (nb - 1)"
  by (simp add: drop_bit_eq_0_unat power_mult mult.commute [of _ 8])

lemma size_add_header: "unat (w :: u32) = n \<Longrightarrow> k \<le> 4 \<Longrightarrow>
    size_add (size_add n 2) k = n + 2 + k \<and> size_add n (2 + k) = n + 2 + k"
  using unat_u32_less [of w] by simp

lemma asn1_take_eq [cbs_simps]:
  "asn1_take c tag h n =
     (if n \<le> cbs_len c then (Some (CBS_init (cbs_data c) n, ucast tag, h), cbs_adv c n) else (None, c))"
  by (simp add: asn1_take_def cbs_simps)

definition long_element :: "mem \<Rightarrow> cbs \<Rightarrow> u8 \<Rightarrow> nat \<Rightarrow> asn1_element option \<times> cbs" where
  "long_element m c tag num_bytes =
     (if num_bytes = 0 \<or> 4 < num_bytes then (None, c)
      else case cbs_get_u m (cbs_adv c 2) num_bytes of
          (None, _) \<Rightarrow> (None, c)
        | (Some len32, _) \<Rightarrow>
            if len32 < 128 then (None, c)
            else if drop_bit ((num_bytes - 1) * 8) len32 = 0 then (None, c)
            else
              let len = unat len32 in
              if size_add (size_add len 2) num_bytes < len then (None, c)
              else asn1_take c tag (2 + num_bytes) (size_add len (2 + num_bytes)))"

lemma element_cases:
  "cbs_bytes m c = tag # lb # bs \<Longrightarrow>
     cbs_get_any_asn1_element m c ber =
       (if tag AND 0x1f = 0x1f then (None, c)
        else if lb AND 0x80 = 0 then asn1_take c tag 2 (unat lb + 2)
        else if ber \<and> ucast tag AND CBS_ASN1_CONSTRUCTED \<noteq> 0 \<and> unat (lb AND 0x7f) = 0
          then asn1_take c tag 2 2
        else long_element m c tag (unat (lb AND 0x7f)))"
  by (simp add: cbs_get_any_asn1_element_def CBS_get_u8_eq long_element_def Let_def numeral_2_eq_2)

lemma element_short: "cbs_len c < 2 \<Longrightarrow> cbs_get_any_asn1_element m c ber = (None, c)"
  using length_cbs_bytes [of m c]
  by (cases "cbs_bytes m c" rule: der_header.cases)
    (auto simp: cbs_get_any_asn1_element_def CBS_get_u8_eq)

lemma long_element_eq:
  assumes "cbs_bytes m c = tag # lb # bs"
  shows "long_element m c tag nb =
     (case der_long tag nb bs of
        None \<Rightarrow> (None, c)
      | Some (tag, header, len) \<Rightarrow> asn1_take c tag header (header + len))"
proof -
  have "cbs_len c = 2 + length bs" using assms length_cbs_bytes [of m c] by simp
  then show ?thesis
    using assms long_condition [of nb bs]
      size_add_header [of "be_word (take nb bs)" _ nb, OF refl]
    by (auto simp: long_element_def der_long_def cbs_get_u_eq Let_def u32_less_128 add_ac)
qed

lemma CBS_get_any_asn1_element_eq [cbs_simps]:
  "CBS_get_any_asn1_element m c =
     (case der_header (cbs_bytes m c) of
        None \<Rightarrow> (None, c)
      | Some (tag, header, len) \<Rightarrow>
          if header + len \<le> cbs_len c
          then (Some (CBS_init (cbs_data c) (header + len), ucast tag, header), cbs_adv c (header + len))
          else (None, c))"
proof (cases "cbs_bytes m c" rule: der_header.cases)
  case (1 tag lb bs)
  then show ?thesis
    by (simp add: CBS_get_any_asn1_element_def element_cases long_element_eq asn1_take_eq add.commute
        split: option.split)
qed (use length_cbs_bytes [of m c] in
     \<open>simp_all add: CBS_get_any_asn1_element_def element_short\<close>)

text \<open>A header is read from the front of the distinguished encoding of a length and from nothing
  else.\<close>

lemma bit7_byte: "bit (b :: u8) 7 \<longleftrightarrow> 128 \<le> unat b"
proof -
  have "bit b 7 \<longleftrightarrow> bit (unat b) 7" by (simp add: bit_unsigned_iff)
  also have "\<dots> \<longleftrightarrow> odd (unat b div 128)" by (simp add: bit_iff_odd)
  also have "\<dots> \<longleftrightarrow> 128 \<le> unat b"
    using unsigned_less [of b, where 'a = nat] by (cases "unat b < 128") (auto simp: div_if)
  finally show ?thesis .
qed

lemma low_byte: "(b :: u8) AND 0x80 = 0 \<longleftrightarrow> unat b < 128"
  by (simp add: and_0x80_eq_0_iff bit7_byte not_le)

lemma high_byte: "(b :: u8) AND 0x80 \<noteq> 0 \<Longrightarrow> unat (b AND 0x7f) = unat b - 128"
proof -
  assume "b AND 0x80 \<noteq> 0"
  then have "128 \<le> unat b" "unat b < 256"
    using low_byte [of b] unsigned_less [of b, where 'a = nat] by auto
  moreover have "unat (b AND 0x7f) = unat b mod 128"
    by (simp add: and_0x7F take_bit_eq_mod unat_mod)
  ultimately show ?thesis by (simp add: mod_if)
qed

text \<open>A header is read from the front of the distinguished encoding of a length and from nothing
  else.\<close>

lemma octets_le_4: "n < 2 ^ 32 \<Longrightarrow> octets n \<le> 4"
  using octets_le [of n 4] by simp

lemma der_long_der_length:
  assumes "128 \<le> n" "n < 2 ^ 32"
  shows "der_long tag (octets n) (be_bytes (octets n) (word_of_nat n :: u32) @ rest) =
           Some (tag, 2 + octets n, n)"
proof -
  have *: "unat (word_of_nat n :: u32) = n" using assms by (simp add: unat_of_nat take_bit_nat_eq_self)
  then have "take_bit (8 * octets n) (word_of_nat n :: u32) = word_of_nat n"
    using octets_bounds(1) [of n] by (intro take_bit_less_self) (simp add: power_mult)
  moreover have "octets n = 1 \<or> 256 ^ (octets n - 1) \<le> n"
    using octets_eq_iff [of n "octets n - 1"] assms by (cases "octets n") auto
  ultimately show ?thesis
    using assms * octets_le_4 [of n] octets_pos [of n]
    by (auto simp: der_long_def Let_def be_word_be_bytes simp del: octets_pos)
qed

lemma der_header_der_length:
  assumes "tag AND 0x1f \<noteq> 0x1f" "n < 2 ^ 32"
  shows "der_header (tag # der_length n @ rest) = Some (tag, 1 + length (der_length n), n)"
proof (cases "n < 128")
  case True
  then have "unat (word_of_nat n :: u8) = n" by (simp add: unat_of_nat take_bit_nat_eq_self)
  with True assms show ?thesis by (simp add: der_length_def low_byte)
next
  case False
  then have b: "unat (word_of_nat (128 + octets n) :: u8) = 128 + octets n"
    using octets_le_4 [OF assms(2)] by (simp only: unat_of_nat) (simp add: take_bit_nat_eq_self)
  then have "unat (word_of_nat (128 + octets n) AND 0x7f :: u8) = octets n"
    by (subst high_byte) (simp_all add: low_byte del: of_nat_add)
  with b False assms der_long_der_length [of n tag rest] show ?thesis
    by (simp add: der_length_def low_byte del: of_nat_add)
qed

lemma der_long_Some:
  assumes "der_long tag nb bs = Some (t, h, len)"
  shows "t = tag \<and> nb = octets len \<and> h = 2 + nb \<and> 128 \<le> len \<and> len < 2 ^ 32 \<and>
    (\<exists>rest. bs = be_bytes nb (word_of_nat len :: u32) @ rest)"
proof -
  let ?w = "be_word (take nb bs) :: u32"
  have *: "0 < nb" "nb \<le> 4" "nb \<le> length bs" "len = unat ?w" "128 \<le> len" "256 ^ (nb - 1) \<le> len"
      "t = tag" "h = 2 + nb"
    using assms by (auto simp: der_long_def Let_def split: if_splits)
  then have "len < 256 ^ nb" using unat_be_word_less [of "take nb bs", where 'a = 32] by simp
  then have "octets len = nb" using octets_eq_iff [of len "nb - 1"] * by simp
  moreover have "be_bytes nb (word_of_nat len :: u32) = take nb bs"
    using * be_bytes_be_word [of "take nb bs" nb, where 'a = 32] by simp
  then have "bs = be_bytes nb (word_of_nat len :: u32) @ drop nb bs" by simp
  moreover have "len < 2 ^ 32" using *(4) unat_u32_less [of ?w] by simp
  ultimately show ?thesis using * by blast
qed

lemma der_header_Some:
  assumes "der_header bs = Some (tag, h, len)"
  shows "tag AND 0x1f \<noteq> 0x1f \<and> len < 2 ^ 32 \<and> h = 1 + length (der_length len) \<and>
    (\<exists>rest. bs = tag # der_length len @ rest)"
  using assms
proof (cases bs rule: der_header.cases)
  case (1 t lb xs)
  show ?thesis
  proof (cases "lb AND 0x80 = 0")
    case True
    then show ?thesis using 1 assms by (auto simp: der_length_def low_byte split: if_splits)
  next
    case False
    then have "der_long t (unat (lb AND 0x7f)) xs = Some (tag, h, len)" "t AND 0x1f \<noteq> 0x1f"
      using 1 assms by (auto split: if_splits)
    moreover from this(1) have "128 + octets len = unat lb"
      using der_long_Some [of t "unat (lb AND 0x7f)" xs] high_byte [OF False] False
      by (simp add: low_byte) (elim conjE, linarith)
    then have "word_of_nat (128 + octets len) = lb" by (simp only: of_nat_unat ucast_id)
    ultimately show ?thesis
      using der_long_Some [of t "unat (lb AND 0x7f)" xs tag h len] 1
      by (auto simp: der_length_def simp del: of_nat_add)
  qed
qed auto

lemma der_header_iff:
  "der_header bs = Some (tag, h, len) \<longleftrightarrow>
     tag AND 0x1f \<noteq> 0x1f \<and> len < 2 ^ 32 \<and> h = 1 + length (der_length len) \<and>
     (\<exists>rest. bs = tag # der_length len @ rest)"
  using der_header_Some [of bs tag h len] der_header_der_length [of tag len] by auto

section \<open>Elements\<close>

text \<open>What an element reader that accepts takes and gives.\<close>

definition der_result :: "cbs \<Rightarrow> nat \<Rightarrow> nat \<Rightarrow> cbs" where
  "der_result c header len = CBS_init (cbs_data c + header) len"

lemma CBS_get_any_asn1_eq [cbs_simps]:
  "CBS_get_any_asn1 m c =
     (case der_header (cbs_bytes m c) of
        None \<Rightarrow> (None, c)
      | Some (tag, header, len) \<Rightarrow>
          if header + len \<le> cbs_len c
          then (Some (der_result c header len, ucast tag), cbs_adv c (header + len))
          else (None, c))"
  by (auto simp: CBS_get_any_asn1_def cbs_simps cbs_adv_init der_result_def split: option.split)

lemma CBS_get_asn1_eq [cbs_simps]:
  "CBS_get_asn1 m c t =
     (case der_header (cbs_bytes m c) of
        None \<Rightarrow> (None, c)
      | Some (tag, header, len) \<Rightarrow>
          if header + len \<le> cbs_len c
          then (if ucast tag = t then Some (der_result c header len) else None,
            cbs_adv c (header + len))
          else (None, c))"
  by (auto simp: CBS_get_asn1_def cbs_get_asn1_def cbs_simps cbs_adv_init der_result_def
      split: option.split)

lemma length_der_element: "length (der_element tag xs) = 1 + length (der_length (length xs)) + length xs"
  by (simp add: der_element_def)

lemma der_element_header:
  assumes "tag AND 0x1f \<noteq> 0x1f" "length xs < 2 ^ 32" "cbs_bytes m c = der_element tag xs @ rest"
  shows "der_header (cbs_bytes m c) = Some (tag, 1 + length (der_length (length xs)), length xs)"
    and "length (der_element tag xs) \<le> cbs_len c"
    and "cbs_bytes m (der_result c (1 + length (der_length (length xs))) (length xs)) = xs"
proof -
  show "der_header (cbs_bytes m c) = Some (tag, 1 + length (der_length (length xs)), length xs)"
    using der_header_der_length [OF assms(1,2), of "xs @ rest"] assms(3) by (simp add: der_element_def)
  have len: "cbs_len c = length (der_element tag xs) + length rest"
    using length_cbs_bytes [of m c] assms(3) by simp
  then show "length (der_element tag xs) \<le> cbs_len c" by simp
  let ?h = "1 + length (der_length (length xs))"
  have "load_bytes m (cbs_data c + ?h) (length xs) = take (length xs) (drop ?h (cbs_bytes m c))"
    using len by (simp add: cbs_bytes_def length_der_element)
  also have "\<dots> = xs" by (simp add: assms(3) der_element_def)
  finally show "cbs_bytes m (der_result c ?h (length xs)) = xs" by (simp add: der_result_def)
qed

lemma der_header_element:
  assumes "der_header bs = Some (tag, h, len)" "h + len \<le> length bs"
  shows "bs = der_element tag (take len (drop h bs)) @ drop (h + len) bs"
    and "length (take len (drop h bs)) = len" "len < 2 ^ 32" "h = 1 + length (der_length len)"
    and "tag AND 0x1f \<noteq> 0x1f"
proof -
  obtain rest where rest: "bs = tag # der_length len @ rest" and h: "h = 1 + length (der_length len)"
    using der_header_Some [OF assms(1)] by auto
  show "length (take len (drop h bs)) = len" using assms(2) by simp
  with rest h show "bs = der_element tag (take len (drop h bs)) @ drop (h + len) bs"
    by (simp add: der_element_def)
qed (use der_header_Some [OF assms(1)] in auto)

text \<open>
  C14: \<open>CBS_get_any_asn1\<close> accepts exactly the inputs that start with a DER element with a
  single-byte tag and less than 4 GiB of contents; it gives the contents, the tag and the position
  behind the element. On every other input it returns 0 and moves nothing.
\<close>

theorem get_any_asn1_iff:
  "(CBS_get_any_asn1 m c = (Some (out, t), c') \<longleftrightarrow>
     (\<exists>tag xs rest. cbs_bytes m c = der_element tag xs @ rest \<and> tag AND 0x1f \<noteq> 0x1f \<and>
        length xs < 2 ^ 32 \<and> t = ucast tag \<and> cbs_bytes m out = xs \<and>
        cbs_data out + length xs = cbs_data c' \<and> cbs_bytes m c' = rest \<and>
        c' = cbs_adv c (length (der_element tag xs)))) \<and>
   (fst (CBS_get_any_asn1 m c) = None \<longleftrightarrow> CBS_get_any_asn1 m c = (None, c))"
  (is "(?A \<longleftrightarrow> ?B) \<and> _")
proof (intro conjI iffI)
  assume ?A
  then obtain tag h len where d: "der_header (cbs_bytes m c) = Some (tag, h, len)"
      "h + len \<le> cbs_len c" "out = der_result c h len" "t = ucast tag" "c' = cbs_adv c (h + len)"
    by (auto simp: CBS_get_any_asn1_eq split: option.splits if_splits)
  note e = der_header_element [OF d(1)]
  let ?xs = "take len (drop h (cbs_bytes m c))"
  have "cbs_bytes m out = ?xs"
    using d by (simp add: der_result_def cbs_bytes_def min_def)
  moreover have "cbs_data out + length ?xs = cbs_data c'"
    using d by (simp add: der_result_def)
  ultimately show ?B
    using e d by (intro exI [of _ tag] exI [of _ ?xs] exI [of _ "cbs_bytes m c'"])
      (simp add: length_der_element)
next
  assume ?B
  then obtain tag xs rest where b: "cbs_bytes m c = der_element tag xs @ rest"
      "tag AND 0x1f \<noteq> 0x1f" "length xs < 2 ^ 32" "t = ucast tag" "cbs_bytes m out = xs"
      "cbs_data out + length xs = cbs_data c'" "c' = cbs_adv c (length (der_element tag xs))"
    by blast
  note e = der_element_header [OF b(2,3,1)]
  have "out = der_result c (1 + length (der_length (length xs))) (length xs)"
    using b(5-7) length_cbs_bytes [of m out]
    by (intro cbs.equality) (simp_all add: der_result_def length_der_element)
  then show ?A using e b by (simp add: CBS_get_any_asn1_eq length_der_element)
qed (auto simp: CBS_get_any_asn1_eq split: option.splits if_splits)

section \<open>Integers\<close>

fun base256 :: "nat \<Rightarrow> u8 list" where
  "base256 n = (if n < 256 then [word_of_nat n] else base256 (n div 256) @ [word_of_nat (n mod 256)])"

declare base256.simps [simp del]

text \<open>The contents of a non-negative INTEGER in DER: the digits, behind a zero byte when the first
  one has its high bit set.\<close>

definition uint_contents :: "nat \<Rightarrow> u8 list" where
  "uint_contents n =
     (let ds = base256 n in if 128 \<le> unat (hd ds) then 0 # ds else ds)"

lemma be_nat_base256 [simp]: "be_nat (base256 n) = n"
proof (induction n rule: base256.induct)
  case (1 n)
  then show ?case by (subst base256.simps) (auto simp: unat_byte)
qed

lemma base256_neq_Nil [simp]: "base256 n \<noteq> []"
  by (subst base256.simps) simp

lemma base256_be_nat: "xs \<noteq> [] \<Longrightarrow> hd xs \<noteq> 0 \<or> length xs = 1 \<Longrightarrow> base256 (be_nat xs) = xs"
proof (induction xs rule: rev_induct)
  case (snoc b bs)
  show ?case
  proof (cases "bs = []")
    case True
    then show ?thesis using unat_byte_less [of b] by (subst base256.simps) simp
  next
    case False
    with snoc.prems obtain c cs where bs: "bs = c # cs" "c \<noteq> 0" by (cases bs) auto
    then have "1 \<le> unat c" using unat_eq_0 [of c] by linarith
    then have "1 \<le> be_nat bs" using bs one_le_power [of "256 :: nat" "length cs"]
      by (simp add: trans_le_add1)
    moreover have "(be_nat bs * 256 + unat b) div 256 = be_nat bs" "(be_nat bs * 256 + unat b) mod 256 = unat b"
      using unat_byte_less [of b] by simp_all
    moreover have "base256 (be_nat bs) = bs" using snoc.IH False bs by simp
    ultimately show ?thesis
      by (subst base256.simps) (simp del: be_nat_Cons)
  qed
qed simp

lemma hd_base256: "length (base256 n) = 1 \<or> hd (base256 n) \<noteq> 0"
proof (induction n rule: base256.induct)
  case (1 n)
  show ?case
  proof (cases "n < 256")
    case True
    then show ?thesis by (subst base256.simps) simp
  next
    case False
    have "hd (base256 (n div 256)) \<noteq> 0"
    proof (cases "length (base256 (n div 256)) = 1")
      case True
      then obtain b where b: "base256 (n div 256) = [b]" by (auto simp: length_Suc_conv)
      have "unat b = n div 256" using be_nat_base256 [of "n div 256"] b by simp
      with False have "unat b \<noteq> 0" by simp
      with b show ?thesis by auto
    qed (use 1 False in auto)
    with False show ?thesis by (subst (1 2) base256.simps) (simp add: base256.simps [of n])
  qed
qed

text \<open>What the reader tests is that the contents are minimal and non-negative.\<close>

definition uint_minimal :: "u8 list \<Rightarrow> bool" where
  "uint_minimal xs \<longleftrightarrow> xs \<noteq> [] \<and> unat (hd xs) < 128 \<and>
     \<not> (hd xs = 0 \<and> 1 < length xs \<and> unat (xs ! 1) < 128)"

lemma uint_minimal_iff: "uint_minimal xs \<longleftrightarrow> xs = uint_contents (be_nat xs)"
proof
  assume m: "uint_minimal xs"
  show "xs = uint_contents (be_nat xs)"
  proof (cases "hd xs = 0 \<and> 1 < length xs")
    case True
    with m obtain b bs where xs: "xs = 0 # b # bs" and b: "128 \<le> unat b"
      by (cases xs; cases "tl xs"; auto simp: uint_minimal_def not_less)
    then have "base256 (be_nat (b # bs)) = b # bs" by (intro base256_be_nat) auto
    with b xs show ?thesis by (simp add: uint_contents_def)
  next
    case False
    with m have "base256 (be_nat xs) = xs"
      by (intro base256_be_nat) (cases xs; cases "tl xs"; auto simp: uint_minimal_def)+
    with m show ?thesis by (simp add: uint_contents_def uint_minimal_def)
  qed
next
  assume "xs = uint_contents (be_nat xs)"
  moreover have "uint_minimal (uint_contents n)" for n
    using hd_base256 [of n]
    by (cases "base256 n") (auto simp: uint_contents_def uint_minimal_def Let_def)
  ultimately show "uint_minimal xs" by metis
qed

lemma be_nat_uint_contents [simp]: "be_nat (uint_contents n) = n"
  by (simp add: uint_contents_def Let_def)

lemma length_base256: "length (base256 n) = octets n"
proof (induction n rule: base256.induct)
  case (1 n)
  then show ?case by (subst base256.simps, subst octets.simps) simp
qed

lemma length_uint_contents: "n < 256 ^ k \<Longrightarrow> 0 < k \<Longrightarrow> length (uint_contents n) \<le> Suc k"
  using octets_le [of n k] by (simp add: uint_contents_def Let_def length_base256)

lemma unat_ucast_byte [simp]: "8 \<le> LENGTH('a) \<Longrightarrow> unat (ucast (b :: u8) :: 'a::len word) = unat b"
  using unat_byte_less [of b] power_increasing [of 8 "LENGTH('a)" "2 :: nat"]
  by (simp add: unsigned_ucast_eq take_bit_nat_eq_self_iff)

lemma uint64_loop_eq:
  "uint64_loop bs out =
     (let n = unat out * 256 ^ length bs + be_nat bs in
      if n < 2 ^ 64 then Some (word_of_nat n) else None)"
proof (induction bs arbitrary: out)
  case Nil
  then show ?case using unsigned_less [of out, where 'a = nat] by simp
next
  case (Cons b bs)
  show ?case
  proof (cases "unat out < 2 ^ 56")
    case True
    have "push_bit 8 out OR ucast b = out * 256 + (ucast b :: u64)"
    proof -
      have "push_bit 8 out AND ucast b = (0 :: u64)"
        by (rule bit_word_eqI) (auto simp: bit_simps dest: bit_imp_le_length)
      then show ?thesis by (simp flip: disjunctive_add_eq_or add: push_bit_eq_mult)
    qed
    moreover have "unat (out * 256 + (ucast b :: u64)) = unat out * 256 + unat b"
      using True unat_byte_less [of b] by (simp add: unat_word_ariths unat_ucast_byte)
    ultimately show ?thesis using True Cons.IH [of "push_bit 8 out OR ucast b"]
      by (simp add: drop_bit_eq_0_unat algebra_simps)
  next
    case False
    then have "2 ^ 56 * 256 \<le> unat out * 256" by simp
    also have "\<dots> \<le> unat out * 256 ^ length (b # bs)"
      using one_le_power [of "256 :: nat" "length bs"] by simp
    finally show ?thesis using False by (simp add: drop_bit_eq_0_unat)
  qed
qed

lemma CBS_get_asn1_uint64_eq:
  "CBS_get_asn1_uint64 m c =
     (case CBS_get_asn1 m c CBS_ASN1_INTEGER of
        (None, c') \<Rightarrow> (None, c')
      | (Some bytes, c') \<Rightarrow>
          (let xs = cbs_bytes m bytes in
           if uint_minimal xs \<and> be_nat xs < 2 ^ 64 then (Some (word_of_nat (be_nat xs)), c')
           else (None, c')))"
proof -
  have "m (cbs_data d) = hd (cbs_bytes m d)" if "cbs_len d \<noteq> 0" for d
    using nth_cbs_bytes [of 0 d m] that by (simp add: hd_conv_nth length_greater_0_conv [symmetric]
      del: length_greater_0_conv)
  moreover have "m (Suc (cbs_data d)) = cbs_bytes m d ! 1" if "1 < cbs_len d" for d
    using nth_cbs_bytes [of 1 d m] that by simp
  moreover have "cbs_bytes m d = [] \<longleftrightarrow> cbs_len d = 0" for d
    by (metis length_0_conv length_cbs_bytes)
  ultimately show ?thesis
    by (auto simp: CBS_get_asn1_uint64_def uint_minimal_def uint64_loop_eq CBS_len_def CBS_data_def
        low_byte Let_def split: option.split prod.split)
qed

lemma ucast_byte_inj [simp]: "ucast a = (ucast b :: u32) \<longleftrightarrow> a = (b :: u8)"
proof
  assume "ucast a = (ucast b :: u32)"
  then have "unat (ucast a :: u32) = unat (ucast b :: u32)" by simp
  then show "a = b" by (simp add: word_unat_eq_iff)
qed simp

lemma ucast_tag: "ucast tag = (2 :: u32) \<longleftrightarrow> tag = (2 :: u8)"
  using ucast_byte_inj [of tag 2] by simp

lemma asn1_uint64_only:
  assumes "fst (CBS_get_asn1_uint64 m c) = Some v"
  shows "\<exists>rest. cbs_bytes m c = der_element 2 (uint_contents (unat v)) @ rest"
proof -
  obtain h len where d: "der_header (cbs_bytes m c) = Some (2, h, len)" "h + len \<le> cbs_len c"
      "uint_minimal (cbs_bytes m (der_result c h len))"
      "be_nat (cbs_bytes m (der_result c h len)) < 2 ^ 64"
      "v = word_of_nat (be_nat (cbs_bytes m (der_result c h len)))"
    using assms by (auto simp: CBS_get_asn1_uint64_eq CBS_get_asn1_eq ucast_tag Let_def split: option.splits if_splits)
  have "take len (drop h (cbs_bytes m c)) = cbs_bytes m (der_result c h len)"
    using d(2) by (auto simp: der_result_def cbs_bytes_def min_def)
  moreover have "unat v = be_nat (cbs_bytes m (der_result c h len))"
    using d(4,5) by (simp add: unat_of_nat take_bit_nat_eq_self)
  ultimately show "\<exists>rest. cbs_bytes m c = der_element 2 (uint_contents (unat v)) @ rest"
    using der_header_element(1) [OF d(1)] d(2,3) uint_minimal_iff length_cbs_bytes by metis
qed

lemma asn1_uint64_reads:
  assumes r: "cbs_bytes m c = der_element 2 (uint_contents (unat v)) @ rest"
  shows "fst (CBS_get_asn1_uint64 m c) = Some v"
proof -
  have m: "uint_minimal (uint_contents (unat v))" by (simp add: uint_minimal_iff)
  have "length (uint_contents (unat v)) < 2 ^ 32"
    using length_uint_contents [of "unat v" 8] unsigned_less [of v, where 'a = nat] by simp
  note e = der_element_header [OF _ this r]
  show "fst (CBS_get_asn1_uint64 m c) = Some v"
    using e m unsigned_less [of v, where 'a = nat]
    by (simp add: CBS_get_asn1_uint64_eq CBS_get_asn1_eq length_der_element)
qed

text \<open>
  C15: \<open>CBS_get_asn1_uint64\<close> accepts exactly the DER encodings of the integers below \<open>2 ^ 64\<close> and
  gives the integer: no negative, padded or longer encoding is taken.
\<close>

theorem get_asn1_uint64_iff:
  "fst (CBS_get_asn1_uint64 m c) = Some v \<longleftrightarrow>
     (\<exists>rest. cbs_bytes m c = der_element 2 (uint_contents (unat v)) @ rest)"
  using asn1_uint64_only asn1_uint64_reads by blast

section \<open>Containment\<close>

text \<open>The operations of the interface and the \<open>CBS\<close>s a client holds after one: the position, whether
  the operation accepted or not, and the \<open>CBS\<close> that it put out.\<close>

datatype cbs_op = Skip nat | U8 | U16 | U24 | U32 | LastU8 | Copy nat | Bytes nat
  | U8_Prefixed | U16_Prefixed | U24_Prefixed | Element bool | Any_Asn1 | Asn1 u32 bool | Uint64
  | Optional u32 | Optional_Octets u32 | Optional_Uint64 u32 u64 | Optional_Bool u32 int
  | Peek u32 | Zero_Byte | Mem_Equal "u8 list" | Stow bool | Strdup bool | Bitstring | Has_Bit u32

definition outs :: "cbs option \<times> cbs \<Rightarrow> cbs list" where
  "outs r = snd r # (case fst r of None \<Rightarrow> [] | Some out \<Rightarrow> [out])"

fun cbs_run :: "mem \<Rightarrow> cbs_op \<Rightarrow> cbs \<Rightarrow> cbs list" where
  "cbs_run m (Skip n) d = [snd (CBS_skip d n)]"
| "cbs_run m U8 d = [snd (CBS_get_u8 m d)]"
| "cbs_run m U16 d = [snd (CBS_get_u16 m d)]"
| "cbs_run m U24 d = [snd (CBS_get_u24 m d)]"
| "cbs_run m U32 d = [snd (CBS_get_u32 m d)]"
| "cbs_run m LastU8 d = [snd (CBS_get_last_u8 m d)]"
| "cbs_run m (Copy n) d = [snd (CBS_copy_bytes m d n)]"
| "cbs_run m (Bytes n) d = outs (CBS_get_bytes d n)"
| "cbs_run m U8_Prefixed d = outs (CBS_get_u8_length_prefixed m d)"
| "cbs_run m U16_Prefixed d = outs (CBS_get_u16_length_prefixed m d)"
| "cbs_run m U24_Prefixed d = outs (CBS_get_u24_length_prefixed m d)"
| "cbs_run m (Element ber) d = outs (map_prod (map_option fst) id (cbs_get_any_asn1_element m d ber))"
| "cbs_run m Any_Asn1 d = outs (map_prod (map_option fst) id (CBS_get_any_asn1 m d))"
| "cbs_run m (Asn1 t skip) d = outs (cbs_get_asn1 m d t skip)"
| "cbs_run m Uint64 d = [snd (CBS_get_asn1_uint64 m d)]"
| "cbs_run m (Optional t) d = outs (map_prod (\<lambda>r. Option.bind r id) id (CBS_get_optional_asn1 m d t))"
| "cbs_run m (Optional_Octets t) d =
     outs (map_prod (map_option fst) id (CBS_get_optional_asn1_octet_string m d t))"
| "cbs_run m (Optional_Uint64 t v) d = [snd (CBS_get_optional_asn1_uint64 m d t v)]"
| "cbs_run m (Optional_Bool t b) d = [snd (CBS_get_optional_asn1_bool m d t b)]"
| "cbs_run m op d = [d]"

text \<open>Everything else that an operation gives: \<^term>\<open>None\<close> when it returns zero, otherwise the integers and
  bytes that it returns or stores.\<close>

definition answer :: "('a \<Rightarrow> int list) \<Rightarrow> 'a option \<times> cbs \<Rightarrow> int list option" where
  "answer f r = map_option f (fst r)"

definition flag :: "bool \<Rightarrow> int list option" where
  "flag b = (if b then Some [] else None)"

fun cbs_value :: "mem \<Rightarrow> cbs_op \<Rightarrow> cbs \<Rightarrow> int list option" where
  "cbs_value m (Skip n) d = flag (fst (CBS_skip d n))"
| "cbs_value m U8 d = answer (\<lambda>v. [uint v]) (CBS_get_u8 m d)"
| "cbs_value m U16 d = answer (\<lambda>v. [uint v]) (CBS_get_u16 m d)"
| "cbs_value m U24 d = answer (\<lambda>v. [uint v]) (CBS_get_u24 m d)"
| "cbs_value m U32 d = answer (\<lambda>v. [uint v]) (CBS_get_u32 m d)"
| "cbs_value m LastU8 d = answer (\<lambda>v. [uint v]) (CBS_get_last_u8 m d)"
| "cbs_value m (Copy n) d = answer (map uint) (CBS_copy_bytes m d n)"
| "cbs_value m (Bytes n) d = answer (\<lambda>_. []) (CBS_get_bytes d n)"
| "cbs_value m U8_Prefixed d = answer (\<lambda>_. []) (CBS_get_u8_length_prefixed m d)"
| "cbs_value m U16_Prefixed d = answer (\<lambda>_. []) (CBS_get_u16_length_prefixed m d)"
| "cbs_value m U24_Prefixed d = answer (\<lambda>_. []) (CBS_get_u24_length_prefixed m d)"
| "cbs_value m (Element ber) d = answer (\<lambda>(_, tag, h). [uint tag, int h]) (cbs_get_any_asn1_element m d ber)"
| "cbs_value m Any_Asn1 d = answer (\<lambda>(_, tag). [uint tag]) (CBS_get_any_asn1 m d)"
| "cbs_value m (Asn1 t skip) d = answer (\<lambda>_. []) (cbs_get_asn1 m d t skip)"
| "cbs_value m Uint64 d = answer (\<lambda>v. [uint v]) (CBS_get_asn1_uint64 m d)"
| "cbs_value m (Optional t) d = answer (\<lambda>r. [of_bool (r \<noteq> None)]) (CBS_get_optional_asn1 m d t)"
| "cbs_value m (Optional_Octets t) d =
     answer (\<lambda>(_, present). [of_bool present]) (CBS_get_optional_asn1_octet_string m d t)"
| "cbs_value m (Optional_Uint64 t v) d = answer (\<lambda>v. [uint v]) (CBS_get_optional_asn1_uint64 m d t v)"
| "cbs_value m (Optional_Bool t b) d = answer (\<lambda>v. [v]) (CBS_get_optional_asn1_bool m d t b)"
| "cbs_value m (Peek t) d = flag (CBS_peek_asn1_tag m d t)"
| "cbs_value m Zero_Byte d = flag (CBS_contains_zero_byte m d)"
| "cbs_value m (Mem_Equal bs) d = flag (CBS_mem_equal m d bs)"
| "cbs_value m (Stow alloc) d = map_option (map uint) (CBS_stow m d alloc)"
| "cbs_value m (Strdup alloc) d = map_option (map uint) (CBS_strdup m d alloc)"
| "cbs_value m Bitstring d = flag (CBS_is_valid_asn1_bitstring m d)"
| "cbs_value m (Has_Bit b) d = flag (CBS_asn1_bitstring_has_bit m d b)"

inductive cbs_reach :: "mem \<Rightarrow> cbs \<Rightarrow> cbs \<Rightarrow> bool" for m c where
  start: "cbs_reach m c c"
| step: "cbs_reach m c d \<Longrightarrow> e \<in> set (cbs_run m op d) \<Longrightarrow> cbs_reach m c e"

text \<open>An empty \<open>CBS\<close> may have any address: an absent octet string is the null pointer.\<close>

definition within :: "cbs \<Rightarrow> cbs \<Rightarrow> bool" where
  "within d c \<longleftrightarrow> cbs_len d = 0 \<or>
     cbs_data c \<le> cbs_data d \<and> cbs_data d + cbs_len d \<le> cbs_data c + cbs_len c"

lemma within_refl [simp]: "within c c"
  by (simp add: within_def)

lemma within_trans: "within e d \<Longrightarrow> within d c \<Longrightarrow> within e c"
  by (auto simp: within_def)

lemma within_adv [simp]: "n \<le> cbs_len d \<Longrightarrow> within (cbs_adv d n) d"
  by (auto simp: within_def)

lemma within_init [simp]: "k + n \<le> cbs_len d \<Longrightarrow> within (CBS_init (cbs_data d + k) n) d"
    "n \<le> cbs_len d \<Longrightarrow> within (CBS_init (cbs_data d) n) d" "within (CBS_init a 0) d"
  by (auto simp: within_def)

lemma within_last [simp]: "within (d\<lparr>cbs_len := cbs_len d - n\<rparr>) d"
  by (auto simp: within_def)

lemma within_result [simp]: "h + n \<le> cbs_len d \<Longrightarrow> within (der_result d h n) d"
  by (simp add: der_result_def)

text \<open>Two memories with the same bytes in a range.\<close>

definition agree :: "cbs \<Rightarrow> mem \<Rightarrow> mem \<Rightarrow> bool" where
  "agree c m m2 \<longleftrightarrow> (\<forall>a. cbs_data c \<le> a \<and> a < cbs_data c + cbs_len c \<longrightarrow> m a = m2 a)"

lemma agree_within: "agree c m m2 \<Longrightarrow> within d c \<Longrightarrow> agree d m m2"
  by (auto simp: agree_def within_def)

lemma agree_bytes: "agree c m m2 \<Longrightarrow> cbs_bytes m c = cbs_bytes m2 c"
  by (auto simp: agree_def cbs_bytes_def load_bytes_def)

lemma agree_element:
  assumes "agree d m m2"
  shows "cbs_get_any_asn1_element m d ber = cbs_get_any_asn1_element m2 d ber"
proof (cases "cbs_bytes m d" rule: der_header.cases)
  case (1 t lb bs)
  then have "cbs_bytes m2 d = t # lb # bs" using agree_bytes [OF assms] by simp
  with 1 show ?thesis by (simp add: element_cases long_element_eq)
qed (use length_cbs_bytes [of m d] in \<open>simp_all add: element_short\<close>)

lemma element_take:
  "cbs_get_any_asn1_element m d ber = (None, d) \<or>
     (\<exists>tag h n. h \<le> n \<and> cbs_get_any_asn1_element m d ber = asn1_take d tag h n)"
proof (cases "cbs_bytes m d" rule: der_header.cases)
  case (1 t lb bs)
  have long: "long_element m d t n = (None, d) \<or>
      (\<exists>tag h k. h \<le> k \<and> long_element m d t n = asn1_take d tag h k)" for n
  proof (cases "der_long t n bs")
    case None
    then show ?thesis by (simp add: long_element_eq [OF 1])
  next
    case (Some p)
    then obtain tag h k where "long_element m d t n = asn1_take d tag h (h + k)"
      by (cases p) (simp add: long_element_eq [OF 1])
    then show ?thesis using le_add1 by blast
  qed
  have short: "\<exists>tag h k. h \<le> k \<and> asn1_take d t 2 (n + 2) = asn1_take d tag h k" for n
    using le_add2 by blast
  have "\<exists>tag h k. h \<le> k \<and> asn1_take d t 2 2 = asn1_take d tag h k"
    by blast
  then show ?thesis
    using long short [of "unat lb"] unfolding element_cases [OF 1]
    by (simp split: if_split)
qed (use length_cbs_bytes [of m d] in \<open>simp_all add: element_short\<close>)

lemma within_element:
  assumes "cbs_get_any_asn1_element m d ber = (r, d')"
  shows "within d' d" "r = Some (e, t, h) \<Longrightarrow> within e d"
  using assms element_take [of m d ber] by (auto simp: asn1_take_eq split: if_splits)

lemma agree_ops:
  assumes "agree d m m2"
  shows "CBS_get_u8 m d = CBS_get_u8 m2 d" "cbs_get_u m d n = cbs_get_u m2 d n"
    "CBS_get_last_u8 m d = CBS_get_last_u8 m2 d"
    "CBS_get_any_asn1 m d = CBS_get_any_asn1 m2 d"
    "cbs_get_asn1 m d t skip = cbs_get_asn1 m2 d t skip"
    "CBS_peek_asn1_tag m d t = CBS_peek_asn1_tag m2 d t"
  using assms agree_bytes [OF assms] agree_element [OF assms]
  by (auto simp: CBS_get_u8_eq cbs_get_u_eq CBS_get_last_u8_def agree_def CBS_get_any_asn1_def
      cbs_get_asn1_def CBS_get_any_asn1_element_def CBS_peek_asn1_tag_def CBS_data_def CBS_len_def
      cong: option.case_cong)

lemma agree_prefixed: "agree d m m2 \<Longrightarrow> cbs_get_length_prefixed m d n = cbs_get_length_prefixed m2 d n"
  by (simp add: cbs_get_length_prefixed_def agree_ops)

lemma within_prefixed:
  assumes "cbs_get_length_prefixed m d n = (r, d')"
  shows "within d' d" "r = Some e \<Longrightarrow> within e d"
  using assms by (auto simp: cbs_get_length_prefixed_def cbs_get_u_eq CBS_get_bytes_eq split: if_splits)

lemma within_any_asn1:
  assumes "CBS_get_any_asn1 m d = (r, d')"
  shows "within d' d" "r = Some (e, t) \<Longrightarrow> within e d"
  using assms by (auto simp: CBS_get_any_asn1_eq split: option.splits if_splits)

lemma within_asn1:
  assumes "cbs_get_asn1 m d t skip = (r, d')"
  shows "within d' d" "r = Some e \<Longrightarrow> within e d"
proof -
  obtain r0 d0 where e: "cbs_get_any_asn1_element m d False = (r0, d0)" by fastforce
  show "within d' d"
    using assms e within_element(1) [OF e]
    by (auto simp: cbs_get_asn1_def CBS_get_any_asn1_element_def CBS_skip_eq split: option.splits if_splits)
  assume "r = Some e"
  with assms e obtain out t h where "r0 = Some (out, t, h)" "within e out"
    by (auto simp: cbs_get_asn1_def CBS_get_any_asn1_element_def CBS_skip_eq split: option.splits if_splits)
  then show "within e d" using within_element(2) [OF e] within_trans by blast
qed

lemma agree_uint64: "agree d m m2 \<Longrightarrow> CBS_get_asn1_uint64 m d = CBS_get_asn1_uint64 m2 d"
  using within_asn1(2) [of m2 d CBS_ASN1_INTEGER True]
  by (auto simp: CBS_get_asn1_uint64_eq CBS_get_asn1_def agree_ops Let_def
      split: option.split prod.split dest: agree_bytes [OF agree_within])

lemma within_uint64: "within (snd (CBS_get_asn1_uint64 m d)) d"
  using within_asn1(1) [of m d CBS_ASN1_INTEGER True]
  by (auto simp: CBS_get_asn1_uint64_eq CBS_get_asn1_def Let_def split: option.split prod.split)

lemma agree_optional: "agree d m m2 \<Longrightarrow> CBS_get_optional_asn1 m d t = CBS_get_optional_asn1 m2 d t"
  by (simp add: CBS_get_optional_asn1_def CBS_get_asn1_def agree_ops)

lemma within_optional:
  assumes "CBS_get_optional_asn1 m d t = (r, d')"
  shows "within d' d" "r = Some (Some e) \<Longrightarrow> within e d"
  using assms by (auto simp: CBS_get_optional_asn1_def CBS_get_asn1_def
      split: if_splits option.splits prod.splits dest: within_asn1)

lemma agree_optionals:
  assumes "agree d m m2"
  shows "CBS_get_optional_asn1_octet_string m d t = CBS_get_optional_asn1_octet_string m2 d t"
    "CBS_get_optional_asn1_uint64 m d t v = CBS_get_optional_asn1_uint64 m2 d t v"
    "CBS_get_optional_asn1_bool m d t b = CBS_get_optional_asn1_bool m2 d t b"
proof -
  obtain r d' where o: "CBS_get_optional_asn1 m d t = (r, d')" by fastforce
  then have o2: "CBS_get_optional_asn1 m2 d t = (r, d')" using agree_optional [OF assms] by simp
  have a: "agree e m m2" if "r = Some (Some e)" for e
    using agree_within [OF assms] within_optional(2) [OF o that] .
  show "CBS_get_optional_asn1_octet_string m d t = CBS_get_optional_asn1_octet_string m2 d t"
    using a by (auto simp: CBS_get_optional_asn1_octet_string_def CBS_get_asn1_def o o2
        agree_ops split: option.split)
  show "CBS_get_optional_asn1_uint64 m d t v = CBS_get_optional_asn1_uint64 m2 d t v"
    using a by (auto simp: CBS_get_optional_asn1_uint64_def o o2 agree_uint64 split: option.split)
  have b: "CBS_get_asn1 m child CBS_ASN1_BOOLEAN = CBS_get_asn1 m2 child CBS_ASN1_BOOLEAN \<and>
      (\<forall>e c2. CBS_get_asn1 m2 child CBS_ASN1_BOOLEAN = (Some e, c2) \<longrightarrow> CBS_len e = 1 \<longrightarrow> m (CBS_data e) = m2 (CBS_data e))"
    if "r = Some (Some child)" for child
    using agree_ops(5) [OF a [OF that]] agree_within [OF a [OF that] within_asn1(2)]
    by (auto simp: CBS_get_asn1_def agree_def CBS_len_def CBS_data_def)
  show "CBS_get_optional_asn1_bool m d t b = CBS_get_optional_asn1_bool m2 d t b"
    using b by (fastforce simp: CBS_get_optional_asn1_bool_def o o2 Let_def split: option.split prod.split)
qed

lemma within_optionals:
  "within (snd (CBS_get_optional_asn1_octet_string m d t)) d"
  "fst (CBS_get_optional_asn1_octet_string m d t) = Some (e, present) \<Longrightarrow> within e d"
  "within (snd (CBS_get_optional_asn1_uint64 m d t v)) d"
  "within (snd (CBS_get_optional_asn1_bool m d t b)) d"
proof -
  obtain r d' where o: "CBS_get_optional_asn1 m d t = (r, d')" by fastforce
  note w = within_optional [OF o]
  show "within (snd (CBS_get_optional_asn1_octet_string m d t)) d"
      "within (snd (CBS_get_optional_asn1_uint64 m d t v)) d"
      "within (snd (CBS_get_optional_asn1_bool m d t b)) d"
    using w(1) by (simp_all add: CBS_get_optional_asn1_octet_string_def Let_def
        CBS_get_optional_asn1_uint64_def CBS_get_optional_asn1_bool_def o split: option.split prod.split)
  assume "fst (CBS_get_optional_asn1_octet_string m d t) = Some (e, present)"
  then consider "e = CBS_init 0 0" | child c' where "r = Some (Some child)"
      "cbs_get_asn1 m child CBS_ASN1_OCTETSTRING True = (Some e, c')"
    by (auto simp: CBS_get_optional_asn1_octet_string_def CBS_get_asn1_def o
        split: option.splits prod.splits if_splits)
  then show "within e d"
    by cases (use w(2) within_asn1(2) within_trans in \<open>auto, blast\<close>)
qed

lemma within_get:
  "within (snd (CBS_skip d n)) d" "within (snd (CBS_get_u8 m d)) d" "within (snd (cbs_get_u m d n)) d"
  "within (snd (CBS_get_last_u8 m d)) d" "within (snd (CBS_copy_bytes m d n)) d"
  using length_cbs_bytes [of m d]
  by (auto simp: cbs_simps CBS_get_last_u8_def CBS_copy_bytes_def split: list.split
      simp del: length_cbs_bytes)

lemma within_bytes:
  assumes "CBS_get_bytes d n = (r, d')"
  shows "within d' d" "r = Some e \<Longrightarrow> within e d"
  using assms by (auto simp: cbs_simps split: if_splits)

lemma get_u_snd:
  "snd (CBS_get_u16 m d) = snd (cbs_get_u m d 2)" "snd (CBS_get_u24 m d) = snd (cbs_get_u m d 3)"
  "snd (CBS_get_u32 m d) = snd (cbs_get_u m d 4)"
  by (auto simp: CBS_get_u16_def CBS_get_u24_def CBS_get_u32_def split: option.split prod.split)

lemma agree_u: "agree d m m2 \<Longrightarrow> CBS_get_u16 m d = CBS_get_u16 m2 d"
    "agree d m m2 \<Longrightarrow> CBS_get_u24 m d = CBS_get_u24 m2 d" "agree d m m2 \<Longrightarrow> CBS_get_u32 m d = CBS_get_u32 m2 d"
  by (simp_all add: CBS_get_u16_def CBS_get_u24_def CBS_get_u32_def agree_ops)

lemma agree_queries:
  assumes "agree d m m2"
  shows "CBS_contains_zero_byte m d = CBS_contains_zero_byte m2 d" "CBS_mem_equal m d bs = CBS_mem_equal m2 d bs"
    "CBS_stow m d alloc = CBS_stow m2 d alloc" "CBS_strdup m d alloc = CBS_strdup m2 d alloc"
    "CBS_copy_bytes m d n = CBS_copy_bytes m2 d n" "CBS_is_valid_asn1_bitstring m d = CBS_is_valid_asn1_bitstring m2 d"
    "CBS_asn1_bitstring_has_bit m d b = CBS_asn1_bitstring_has_bit m2 d b"
proof -
  show "CBS_contains_zero_byte m d = CBS_contains_zero_byte m2 d" "CBS_mem_equal m d bs = CBS_mem_equal m2 d bs"
    "CBS_stow m d alloc = CBS_stow m2 d alloc" "CBS_strdup m d alloc = CBS_strdup m2 d alloc"
    by (simp_all add: CBS_contains_zero_byte_def CBS_mem_equal_def CBS_stow_def CBS_strdup_def agree_bytes [OF assms])
  show "CBS_copy_bytes m d n = CBS_copy_bytes m2 d n"
    using assms by (auto simp: CBS_copy_bytes_def cbs_get_eq agree_def load_bytes_def split: option.split)
  show valid: "CBS_is_valid_asn1_bitstring m d = CBS_is_valid_asn1_bitstring m2 d"
    using agree_ops(1) [OF assms] agree_ops(3) [OF agree_within [OF assms]] within_get(2) [of m2 d]
    by (auto simp: CBS_is_valid_asn1_bitstring_def Let_def split: option.split prod.split)
  show "CBS_asn1_bitstring_has_bit m d b = CBS_asn1_bitstring_has_bit m2 d b"
    using assms valid by (auto simp: CBS_asn1_bitstring_has_bit_def Let_def agree_def CBS_len_def CBS_data_def)
qed

lemma agree_run:
  assumes "agree d m m2"
  shows "cbs_run m op d = cbs_run m2 op d" "cbs_value m op d = cbs_value m2 op d"
  using agree_ops [OF assms] agree_prefixed [OF assms] agree_element [OF assms] agree_u [OF assms] agree_queries [OF assms]
    agree_uint64 [OF assms] agree_optional [OF assms] agree_optionals [OF assms]
  by (cases op; simp add: CBS_get_u8_length_prefixed_def CBS_get_u16_length_prefixed_def
      CBS_get_u24_length_prefixed_def)+

lemma outs_within:
  "e \<in> set (outs p) \<Longrightarrow> within (snd p) d \<Longrightarrow> (\<And>e. fst p = Some e \<Longrightarrow> within e d) \<Longrightarrow> within e d"
  by (auto simp: outs_def split: option.splits)

lemmas within_pairs =
  within_bytes [OF prod.collapse [symmetric]] within_prefixed [OF prod.collapse [symmetric]]
  within_element [OF prod.collapse [symmetric]] within_any_asn1 [OF prod.collapse [symmetric]]
  within_asn1 [OF prod.collapse [symmetric]] within_optional [OF prod.collapse [symmetric]]

lemma within_run:
  assumes "e \<in> set (cbs_run m op d)"
  shows "within e d"
  using assms within_get within_uint64 within_optionals get_u_snd
  by (cases op) (auto simp: CBS_get_u8_length_prefixed_def CBS_get_u16_length_prefixed_def
      CBS_get_u24_length_prefixed_def bind_eq_Some_conv elim!: outs_within intro: within_pairs)

text \<open>
  C16: every \<open>CBS\<close> that a client can reach from one, by any sequence of operations that accept or
  fail, lies inside it; and what any operation does there, with all that it puts out (the \<open>CBS\<close>s, the
  integers, tags, bytes and flags, and whether it accepts), is the same in every memory that has the same
  bytes in the range of the first \<open>CBS\<close>: nothing outside it is looked at.
\<close>

theorem cbs_stays_inside:
  assumes "cbs_reach m c d" "agree c m m2"
  shows "within d c \<and> cbs_reach m2 c d \<and> cbs_run m2 op d = cbs_run m op d \<and> cbs_value m2 op d = cbs_value m op d"
proof -
  have "within d c \<and> cbs_reach m2 c d" using assms(1)
  proof induction
    case start
    show ?case by (simp add: cbs_reach.start)
  next
    case (step d e op)
    then show ?case
      using agree_run(1) [OF agree_within [OF assms(2)]] within_run within_trans cbs_reach.step by metis
  qed
  then show ?thesis using agree_run [OF agree_within [OF assms(2)]] by simp
qed

text \<open>The contents of a SEQUENCE are reached by one operation; the integer there is 5, whatever follows it.\<close>

theorem cbs_stays_inside_witness:
  "within (CBS_init 2 3) (CBS_init 0 7) \<and>
   cbs_reach (mem_of [0x30, 3, 2, 1, 5, 9, 9]) (CBS_init 0 7) (CBS_init 2 3) \<and>
   cbs_value (mem_of [0x30, 3, 2, 1, 5, 9, 9]) LastU8 (CBS_init 2 3) = Some [5]"
proof -
  let ?m = "mem_of [0x30, 3, 2, 1, 5, 9, 9, 8]" and ?m2 = "mem_of [0x30, 3, 2, 1, 5, 9, 9]"
  have "CBS_init 2 3 \<in> set (cbs_run ?m Any_Asn1 (CBS_init 0 7))"
    by (simp add: CBS_get_any_asn1_eq load_bytes_def mem_of_def upt_rec der_result_def outs_def)
  then have "cbs_reach ?m (CBS_init 0 7) (CBS_init 2 3)"
    by (rule cbs_reach.step [OF cbs_reach.start])
  moreover have "agree (CBS_init 0 7) ?m ?m2"
    by (simp add: agree_def mem_of_def less_Suc_eq numeral_eq_Suc)
  ultimately have "within (CBS_init 2 3) (CBS_init 0 7) \<and> cbs_reach ?m2 (CBS_init 0 7) (CBS_init 2 3) \<and>
      cbs_run ?m2 LastU8 (CBS_init 2 3) = cbs_run ?m LastU8 (CBS_init 2 3) \<and>
      cbs_value ?m2 LastU8 (CBS_init 2 3) = cbs_value ?m LastU8 (CBS_init 2 3)"
    by (rule cbs_stays_inside)
  moreover have "cbs_value ?m LastU8 (CBS_init 2 3) = Some [5]"
    by (simp add: answer_def CBS_get_last_u8_def mem_of_def)
  ultimately show ?thesis by simp
qed

end
