(* ===== verification/Cbb.thy ===== *)
theory Cbb
  imports Cbs
begin

text \<open>
  The byte-string builder of BoringSSL (\<open>crypto/bytestring/cbb.c\<close>). One buffer is shared by a
  top-level \<open>CBB\<close> and a chain of children whose length prefixes are pending, each the \<open>child\<close> of
  the one before. The state is the buffer and the chain; a \<open>CBB\<close> is named by its depth: 0 is the
  top-level one, \<open>Suc i\<close> the child \<open>i\<close> of the chain. A depth beyond the chain is a child that has been
  flushed: its \<open>base\<close> is the null pointer. Addresses are relative to the buffer, so a reallocation
  leaves the bytes where they are; which bytes malloc puts into fresh memory is left open.
\<close>

section \<open>State\<close>

record cbb_buffer =
  buf :: mem
  buf_len :: nat
  buf_cap :: nat
  can_resize :: bool
  buf_error :: bool
  realloc_ok :: "nat \<Rightarrow> bool"

record cbb_child =
  child_offset :: nat
  pending_len_len :: nat
  pending_is_asn1 :: bool

record cbb =
  base :: cbb_buffer
  children :: "cbb_child list"

text \<open>\<open>ok\<close> is the result of \<open>malloc\<close> for the struct and for the buffer.\<close>

definition cbb_init :: "mem \<Rightarrow> nat \<Rightarrow> (nat \<Rightarrow> bool) \<Rightarrow> cbb" where
  "cbb_init m cap alloc =
     \<lparr>base = \<lparr>buf = m, buf_len = 0, buf_cap = cap, can_resize = True, buf_error = False,
        realloc_ok = alloc\<rparr>, children = []\<rparr>"

definition CBB_init :: "mem \<Rightarrow> nat \<Rightarrow> bool \<Rightarrow> bool \<Rightarrow> (nat \<Rightarrow> bool) \<Rightarrow> cbb option" where
  "CBB_init m initial_capacity buf_ok base_ok alloc =
     (if 0 < initial_capacity \<and> \<not> buf_ok then None
      else if \<not> base_ok then None
      else Some (cbb_init m initial_capacity alloc))"

definition CBB_init_fixed :: "mem \<Rightarrow> nat \<Rightarrow> bool \<Rightarrow> cbb option" where
  "CBB_init_fixed m len base_ok =
     (if \<not> base_ok then None
      else let c = cbb_init m len (\<lambda>_. False) in Some (c\<lparr>base := (base c)\<lparr>can_resize := False\<rparr>\<rparr>))"

section \<open>The buffer\<close>

text \<open>The result is the offset of the reserved bytes.\<close>

definition cbb_buffer_reserve :: "cbb_buffer \<Rightarrow> nat \<Rightarrow> nat option \<times> cbb_buffer" where
  "cbb_buffer_reserve b len =
     (let newlen = size_add (buf_len b) len; err = (None, b\<lparr>buf_error := True\<rparr>) in
      if newlen < buf_len b then err
      else if buf_cap b < newlen then
        (if \<not> can_resize b then err
         else
           let newcap = size_add (buf_cap b) (buf_cap b);
               newcap = (if newcap < buf_cap b \<or> newcap < newlen then newlen else newcap) in
           if realloc_ok b newcap then (Some (buf_len b), b\<lparr>buf_cap := newcap\<rparr>) else err)
      else (Some (buf_len b), b))"

definition cbb_buffer_add :: "cbb_buffer \<Rightarrow> nat \<Rightarrow> nat option \<times> cbb_buffer" where
  "cbb_buffer_add b len =
     (case cbb_buffer_reserve b len of
        (None, b') \<Rightarrow> (None, b')
      | (Some out, b') \<Rightarrow> (Some out, b'\<lparr>buf_len := buf_len b' + len\<rparr>))"

text \<open>The big-endian store loops: the bytes from the last to the first, and what is left of the
  value.\<close>

fun store_be :: "nat \<Rightarrow> mem \<Rightarrow> nat \<Rightarrow> 'a::len word \<Rightarrow> mem \<times> 'a word" where
  "store_be 0 m a v = (m, v)"
| "store_be (Suc i) m a v = store_be i (m(a + i := ucast v)) a (drop_bit 8 v)"

definition cbb_buffer_add_u :: "cbb_buffer \<Rightarrow> u32 \<Rightarrow> nat \<Rightarrow> bool \<times> cbb_buffer" where
  "cbb_buffer_add_u b v len_len =
     (if len_len = 0 then (True, b)
      else case cbb_buffer_add b len_len of
          (None, b') \<Rightarrow> (False, b')
        | (Some out, b') \<Rightarrow>
            let (m, rest) = store_be len_len (buf b') out v; b' = b'\<lparr>buf := m\<rparr> in
            if rest \<noteq> 0 then (False, b'\<lparr>buf_error := True\<rparr>) else (True, b'))"

section \<open>Flushing\<close>

text \<open>The length of an ASN.1 length in bytes and its first byte.\<close>

definition asn1_len_len :: "nat \<Rightarrow> nat \<times> u8" where
  "asn1_len_len len =
     (if 0xffffff < len then (5, 0x80 OR 4)
      else if 0xffff < len then (4, 0x80 OR 3)
      else if 0xff < len then (3, 0x80 OR 2)
      else if 0x7f < len then (2, 0x80 OR 1)
      else (1, word_of_nat len))"

text \<open>The ASN.1 part of \<open>CBB_flush\<close>: room for the long form, the first length byte, and the length
  that the loop behind it still has to write.\<close>

definition flush_asn1 ::
  "cbb_buffer \<Rightarrow> cbb_child \<Rightarrow> nat \<Rightarrow> nat \<Rightarrow> (nat \<times> cbb_child) option \<times> cbb_buffer" where
  "flush_asn1 b child child_start len =
     (if 0xfffffffe < len then (None, b)
      else
        let (len_len, initial_length_byte) = asn1_len_len len;
            extra_bytes = len_len - 1 in
        case (if len_len \<noteq> 1 then
                (case cbb_buffer_add b extra_bytes of
                   (None, b') \<Rightarrow> (None, b')
                 | (Some _, b') \<Rightarrow>
                     (Some len, b'\<lparr>buf := store_bytes (buf b') (child_start + extra_bytes)
                        (load_bytes (buf b') child_start len)\<rparr>))
              else (Some 0, b)) of
          (None, b') \<Rightarrow> (None, b')
        | (Some len', b') \<Rightarrow>
            (Some (len', child\<lparr>child_offset := child_offset child + 1, pending_len_len := len_len - 1\<rparr>),
             b'\<lparr>buf := (buf b')(child_offset child := initial_length_byte)\<rparr>))"

text \<open>The recursion over the chain of children, from the child of the flushed \<open>CBB\<close> on.\<close>

fun cbb_flush :: "cbb_buffer \<Rightarrow> cbb_child list \<Rightarrow> bool \<times> cbb_buffer \<times> cbb_child list" where
  "cbb_flush b [] = (if buf_error b then (False, b, []) else (True, b, []))"
| "cbb_flush b (child # below) =
     (if buf_error b then (False, b, child # below)
      else if pending_len_len child = 0 then (True, b, child # below)
      else
        let child_start = size_add (child_offset child) (pending_len_len child);
            (ok, b, below) = cbb_flush b below in
        if \<not> ok \<or> child_start < child_offset child \<or> buf_len b < child_start
        then (False, b\<lparr>buf_error := True\<rparr>, child # below)
        else
          let len = buf_len b - child_start in
          case (if pending_is_asn1 child then flush_asn1 b child child_start len
                else (Some (len, child), b)) of
            (None, b) \<Rightarrow> (False, b\<lparr>buf_error := True\<rparr>, child # below)
          | (Some (len, child), b) \<Rightarrow>
              let (m, rest) = store_be (pending_len_len child) (buf b) (child_offset child)
                    (word_of_nat len :: u64); b = b\<lparr>buf := m\<rparr> in
              if rest \<noteq> 0 then (False, b\<lparr>buf_error := True\<rparr>, child # below) else (True, b, []))"

definition CBB_flush :: "cbb \<Rightarrow> nat \<Rightarrow> bool \<times> cbb" where
  "CBB_flush c d =
     (if length (children c) < d then (False, c)
      else
        let (ok, b, below) = cbb_flush (base c) (drop d (children c)) in
        (ok, c\<lparr>base := b, children := take d (children c) @ below\<rparr>))"

text \<open>The bytes of the result; \<open>has_out\<close> says whether both output pointers are given.\<close>

definition CBB_finish :: "cbb \<Rightarrow> nat \<Rightarrow> bool \<Rightarrow> u8 list option" where
  "CBB_finish c d has_out =
     (if d \<noteq> 0 then None
      else case CBB_flush c d of
          (False, _) \<Rightarrow> None
        | (True, c') \<Rightarrow>
            if can_resize (base c') \<and> \<not> has_out then None
            else Some (load_bytes (buf (base c')) 0 (buf_len (base c'))))"

definition pending_start :: "cbb \<Rightarrow> nat \<Rightarrow> nat" where
  "pending_start c d =
     (if d = 0 then 0
      else child_offset (children c ! (d - 1)) + pending_len_len (children c ! (d - 1)))"

definition CBB_len :: "cbb \<Rightarrow> nat \<Rightarrow> nat" where
  "CBB_len c d = buf_len (base c) - pending_start c d"

definition CBB_data :: "cbb \<Rightarrow> nat \<Rightarrow> nat" where
  "CBB_data c d = pending_start c d"

section \<open>Adding\<close>

text \<open>What every operation starts with: flush, and stop when that fails.\<close>

definition flushed :: "cbb \<Rightarrow> nat \<Rightarrow> (cbb \<Rightarrow> bool \<times> cbb) \<Rightarrow> bool \<times> cbb" where
  "flushed c d k = (case CBB_flush c d of (False, c') \<Rightarrow> (False, c') | (True, c') \<Rightarrow> k c')"

definition cbb_add_length_prefixed :: "cbb \<Rightarrow> nat \<Rightarrow> nat \<Rightarrow> bool \<times> cbb" where
  "cbb_add_length_prefixed c d len_len =
     flushed c d (\<lambda>c.
       case cbb_buffer_add (base c) len_len of
         (None, b) \<Rightarrow> (False, c\<lparr>base := b\<rparr>)
       | (Some prefix_bytes, b) \<Rightarrow>
           (True, c\<lparr>base := b\<lparr>buf := store_bytes (buf b) prefix_bytes (replicate len_len 0)\<rparr>,
              children := take d (children c) @ [\<lparr>child_offset = buf_len (base c),
                pending_len_len = len_len, pending_is_asn1 = False\<rparr>]\<rparr>))"

definition CBB_add_u8_length_prefixed :: "cbb \<Rightarrow> nat \<Rightarrow> bool \<times> cbb" where
  "CBB_add_u8_length_prefixed c d = cbb_add_length_prefixed c d 1"

definition CBB_add_u16_length_prefixed :: "cbb \<Rightarrow> nat \<Rightarrow> bool \<times> cbb" where
  "CBB_add_u16_length_prefixed c d = cbb_add_length_prefixed c d 2"

definition CBB_add_u24_length_prefixed :: "cbb \<Rightarrow> nat \<Rightarrow> bool \<times> cbb" where
  "CBB_add_u24_length_prefixed c d = cbb_add_length_prefixed c d 3"

definition cbb_add_u :: "cbb \<Rightarrow> nat \<Rightarrow> u32 \<Rightarrow> nat \<Rightarrow> bool \<times> cbb" where
  "cbb_add_u c d v len_len =
     flushed c d (\<lambda>c.
       case cbb_buffer_add_u (base c) v len_len of (ok, b) \<Rightarrow> (ok, c\<lparr>base := b\<rparr>))"

definition CBB_add_u8 :: "cbb \<Rightarrow> nat \<Rightarrow> u8 \<Rightarrow> bool \<times> cbb" where
  "CBB_add_u8 c d v = cbb_add_u c d (ucast v) 1"

definition CBB_add_u16 :: "cbb \<Rightarrow> nat \<Rightarrow> u16 \<Rightarrow> bool \<times> cbb" where
  "CBB_add_u16 c d v = cbb_add_u c d (ucast v) 2"

definition CBB_add_u24 :: "cbb \<Rightarrow> nat \<Rightarrow> u32 \<Rightarrow> bool \<times> cbb" where
  "CBB_add_u24 c d v = cbb_add_u c d v 3"

definition CBB_add_u32 :: "cbb \<Rightarrow> nat \<Rightarrow> u32 \<Rightarrow> bool \<times> cbb" where
  "CBB_add_u32 c d v = cbb_add_u c d v 4"

definition CBB_add_bytes :: "cbb \<Rightarrow> nat \<Rightarrow> u8 list \<Rightarrow> bool \<times> cbb" where
  "CBB_add_bytes c d data =
     flushed c d (\<lambda>c.
       case cbb_buffer_add (base c) (length data) of
         (None, b) \<Rightarrow> (False, c\<lparr>base := b\<rparr>)
       | (Some dest, b) \<Rightarrow> (True, c\<lparr>base := b\<lparr>buf := store_bytes (buf b) dest data\<rparr>\<rparr>))"

text \<open>The bytes added are left for the caller to write.\<close>

definition CBB_add_space :: "cbb \<Rightarrow> nat \<Rightarrow> nat \<Rightarrow> bool \<times> cbb" where
  "CBB_add_space c d len =
     flushed c d (\<lambda>c.
       case cbb_buffer_add (base c) len of
         (None, b) \<Rightarrow> (False, c\<lparr>base := b\<rparr>)
       | (Some _, b) \<Rightarrow> (True, c\<lparr>base := b\<rparr>))"

definition CBB_reserve :: "cbb \<Rightarrow> nat \<Rightarrow> nat \<Rightarrow> bool \<times> cbb" where
  "CBB_reserve c d len =
     flushed c d (\<lambda>c.
       case cbb_buffer_reserve (base c) len of
         (None, b) \<Rightarrow> (False, c\<lparr>base := b\<rparr>)
       | (Some _, b) \<Rightarrow> (True, c\<lparr>base := b\<rparr>))"

definition CBB_did_write :: "cbb \<Rightarrow> nat \<Rightarrow> nat \<Rightarrow> bool \<times> cbb" where
  "CBB_did_write c d len =
     (let newlen = size_add (buf_len (base c)) len in
      if d < length (children c) \<or> newlen < buf_len (base c) \<or> buf_cap (base c) < newlen
      then (False, c)
      else (True, c\<lparr>base := (base c)\<lparr>buf_len := newlen\<rparr>\<rparr>))"

definition CBB_discard_child :: "cbb \<Rightarrow> nat \<Rightarrow> cbb" where
  "CBB_discard_child c d =
     (if d < length (children c)
      then c\<lparr>base := (base c)\<lparr>buf_len := child_offset (children c ! d)\<rparr>,
        children := take d (children c)\<rparr>
      else c)"

definition CBB_add_asn1 :: "cbb \<Rightarrow> nat \<Rightarrow> u32 \<Rightarrow> bool \<times> cbb" where
  "CBB_add_asn1 c d tag =
     (if length (children c) < d then (False, c)
      else if 0xff < tag \<or> tag AND 0x1f = 0x1f
      then (False, c\<lparr>base := (base c)\<lparr>buf_error := True\<rparr>\<rparr>)
      else
        flushed c d (\<lambda>c.
          case CBB_add_u8 c d (ucast tag) of
            (False, c) \<Rightarrow> (False, c)
          | (True, c) \<Rightarrow>
              let offset = buf_len (base c) in
              case CBB_add_u8 c d 0 of
                (False, c) \<Rightarrow> (False, c)
              | (True, c) \<Rightarrow>
                  (True, c\<lparr>children := take d (children c) @ [\<lparr>child_offset = offset,
                    pending_len_len = 1, pending_is_asn1 = True\<rparr>]\<rparr>)))"

section \<open>Integers and object identifiers\<close>

text \<open>The loop of \<open>CBB_add_asn1_uint64\<close> over the bytes of the value, most significant first, into
  the child at depth \<open>d\<close>.\<close>

fun uint64_bytes :: "u8 list \<Rightarrow> bool \<Rightarrow> cbb \<Rightarrow> nat \<Rightarrow> bool \<times> bool \<times> cbb" where
  "uint64_bytes [] started c d = (True, started, c)"
| "uint64_bytes (byte # bs) started c d =
     (if \<not> started \<and> byte = 0 then uint64_bytes bs started c d
      else
        case (if \<not> started \<and> byte AND 0x80 \<noteq> 0 then CBB_add_u8 c d 0 else (True, c)) of
          (False, c) \<Rightarrow> (False, started, c)
        | (True, c) \<Rightarrow>
            (case CBB_add_u8 c d byte of
               (False, c) \<Rightarrow> (False, True, c)
             | (True, c) \<Rightarrow> uint64_bytes bs True c d))"

definition CBB_add_asn1_uint64 :: "cbb \<Rightarrow> nat \<Rightarrow> u64 \<Rightarrow> bool \<times> cbb" where
  "CBB_add_asn1_uint64 c d v =
     (case CBB_add_asn1 c d CBS_ASN1_INTEGER of
        (False, c) \<Rightarrow> (False, c)
      | (True, c) \<Rightarrow>
          (case uint64_bytes (map (\<lambda>i. ucast (drop_bit (8 * (7 - i)) v AND 0xff)) [0..<8]) False c (Suc d) of
             (False, _, c) \<Rightarrow> (False, c)
           | (True, started, c) \<Rightarrow>
               (case (if \<not> started then CBB_add_u8 c (Suc d) 0 else (True, c)) of
                  (False, c) \<Rightarrow> (False, c)
                | (True, c) \<Rightarrow> CBB_flush c d)))"

text \<open>The number of 7-bit groups of a value and the loop that writes them.\<close>

fun base128_groups :: "nat \<Rightarrow> nat" where
  "base128_groups copy = (if copy = 0 then 0 else Suc (base128_groups (copy div 2 ^ 7)))"

declare base128_groups.simps [simp del]

fun base128_loop :: "nat \<Rightarrow> cbb \<Rightarrow> nat \<Rightarrow> u32 \<Rightarrow> bool \<times> cbb" where
  "base128_loop 0 c d v = (True, c)"
| "base128_loop (Suc i) c d v =
     (let byte = ucast (drop_bit (7 * i) v AND 0x7f); byte = (if i \<noteq> 0 then byte OR 0x80 else byte) in
      case CBB_add_u8 c d byte of
        (False, c) \<Rightarrow> (False, c)
      | (True, c) \<Rightarrow> base128_loop i c d v)"

definition add_base128_integer :: "cbb \<Rightarrow> nat \<Rightarrow> u32 \<Rightarrow> bool \<times> cbb" where
  "add_base128_integer c d v =
     (let len_len = base128_groups (unat v); len_len = (if len_len = 0 then 1 else len_len) in
      base128_loop len_len c d v)"

text \<open>One decimal component off the front of the text, the dot behind it included.\<close>

fun dotted_loop :: "u8 list \<Rightarrow> bool \<Rightarrow> u32 \<Rightarrow> u32 option \<times> u8 list" where
  "dotted_loop [] seen_digit out = (if seen_digit then Some out else None, [])"
| "dotted_loop (u # str) seen_digit out =
     (if u = 46 \<and> 0 < length str then (if seen_digit then Some out else None, str)
      else if u < 48 \<or> 57 < u \<or> (seen_digit \<and> out = 0) \<or> 0xFFFFFFFF div 10 < out \<or>
        0xFFFFFFFF - (ucast u - 48) < out * 10 then (None, str)
      else dotted_loop str True (out * 10 + (ucast u - 48)))"

definition parse_dotted_decimal :: "u8 list \<Rightarrow> u32 option \<times> u8 list" where
  "parse_dotted_decimal str = dotted_loop str False 0"

lemma dotted_loop_shorter:
  "str \<noteq> [] \<Longrightarrow> length (snd (dotted_loop str seen_digit out)) < length str"
proof (induction str seen_digit out rule: dotted_loop.induct)
  case (2 u str seen_digit out)
  show ?case
  proof (cases "str = []")
    case False
    then show ?thesis using 2 by (simp add: less_Suc_eq)
  qed simp
qed simp

function oid_components :: "cbb \<Rightarrow> nat \<Rightarrow> u8 list \<Rightarrow> bool \<times> cbb" where
  "oid_components c d str =
     (if str = [] then (True, c)
      else case parse_dotted_decimal str of
          (None, _) \<Rightarrow> (False, c)
        | (Some a, str) \<Rightarrow>
            (case add_base128_integer c d a of
               (False, c) \<Rightarrow> (False, c)
             | (True, c) \<Rightarrow> oid_components c d str))"
  by pat_completeness auto

termination
proof (relation "measure (\<lambda>(c, d, str). length str)", goal_cases)
  case (2 c d str)
  then show ?case using dotted_loop_shorter [of str False 0]
    by (auto simp: parse_dotted_decimal_def) (metis snd_conv)
qed auto

declare oid_components.simps [simp del]

definition CBB_add_asn1_oid_from_text :: "cbb \<Rightarrow> nat \<Rightarrow> u8 list \<Rightarrow> bool \<times> cbb" where
  "CBB_add_asn1_oid_from_text c d str =
     (case CBB_flush c d of
        (False, c) \<Rightarrow> (False, c)
      | (True, c) \<Rightarrow>
          (case parse_dotted_decimal str of
             (None, _) \<Rightarrow> (False, c)
           | (Some a, str) \<Rightarrow>
               (case parse_dotted_decimal str of
                  (None, _) \<Rightarrow> (False, c)
                | (Some b, str) \<Rightarrow>
                    if 2 < a \<or> (a < 2 \<and> 39 < b) \<or> 0xFFFFFFFF - 80 < b then (False, c)
                    else
                      (case add_base128_integer c d (40 * a + b) of
                         (False, c) \<Rightarrow> (False, c)
                       | (True, c) \<Rightarrow> oid_components c d str))))"

end
