(* ===== verification/Cbb_Spec.thy ===== *)
theory Cbb_Spec
  imports Cbb
begin

text \<open>
  What the builder of \<^verbatim>\<open>cbb.c\<close> guarantees: the invariant of the buffer and the chain under every
  operation, and the refinement of a list-level specification, in which the state is the list of the
  contents written at each depth and a flush closes the frames below it.
\<close>

section \<open>Stores\<close>

lemma be_bytes_Suc: "be_bytes (Suc k) v = be_bytes k (drop_bit 8 v) @ [ucast v]"
  by (simp add: be_bytes_def)

lemma store_bytes_last:
  "store_bytes (m(a + length xs := x)) a xs = store_bytes m a (xs @ [x])"
  by (rule ext) (auto simp: store_bytes_def nth_append)

lemma store_be_eq: "store_be k m a v = (store_bytes m a (be_bytes k v), drop_bit (8 * k) v)"
proof (induction k arbitrary: m v)
  case (Suc k)
  then show ?case
    using store_bytes_last [of m a "be_bytes k (drop_bit 8 v)" "ucast v"]
    by (simp only: store_be.simps be_bytes_Suc length_be_bytes drop_bit_drop_bit) (simp add: add.commute)
qed (simp add: be_bytes_def)

lemma store_bytes_single: "m(a := x) = store_bytes m a [x]"
  by (rule ext) (auto simp: store_bytes_def)

section \<open>Steps of the buffer\<close>

definition buf_ok :: "cbb_buffer \<Rightarrow> bool" where
  "buf_ok b \<longleftrightarrow> buf_len b \<le> buf_cap b \<and> buf_cap b < 2 ^ 64"

text \<open>What every operation does to the buffer: the capacity grows only where it may, an error stays,
  and nothing at or behind the end of the buffer is written.\<close>

definition buf_step :: "cbb_buffer \<Rightarrow> cbb_buffer \<Rightarrow> bool" where
  "buf_step b b' \<longleftrightarrow> buf_ok b' \<and> buf_cap b \<le> buf_cap b' \<and> can_resize b' = can_resize b \<and>
     realloc_ok b' = realloc_ok b \<and> (\<not> can_resize b \<longrightarrow> buf_cap b' = buf_cap b) \<and>
     (buf_error b \<longrightarrow> buf_error b') \<and> (\<forall>a \<ge> buf_cap b'. buf b' a = buf b a)"

lemma buf_step_refl [simp]: "buf_ok b \<Longrightarrow> buf_step b b"
  by (simp add: buf_step_def)

lemma buf_step_trans [trans]: "buf_step a b \<Longrightarrow> buf_step b c \<Longrightarrow> buf_step a c"
  by (auto simp: buf_step_def)

lemma buf_step_ok: "buf_step b b' \<Longrightarrow> buf_ok b'"
  by (simp add: buf_step_def)

lemma buf_step_error: "buf_ok b \<Longrightarrow> buf_step b (b\<lparr>buf_error := True\<rparr>)"
  by (simp add: buf_step_def buf_ok_def)

lemma buf_step_store: "buf_ok b \<Longrightarrow> a + length xs \<le> buf_cap b \<Longrightarrow>
    buf_step b (b\<lparr>buf := store_bytes (buf b) a xs\<rparr>)"
  by (auto simp: buf_step_def buf_ok_def store_bytes_outside)

lemma reserve_cases:
  assumes "buf_ok b" "n < 2 ^ 64" "cbb_buffer_reserve b n = (r, b')"
  shows "buf_step b b'" "r = None \<Longrightarrow> b' = b\<lparr>buf_error := True\<rparr>"
    "r = Some out \<Longrightarrow> out = buf_len b \<and>
       (\<exists>cap. buf_len b + n \<le> cap \<and> b' = b\<lparr>buf_cap := cap\<rparr>)"
proof -
  have b: "buf_len b \<le> buf_cap b" "buf_cap b < 2 ^ 64" using assms(1) by (auto simp: buf_ok_def)
  then have o: "size_add (buf_len b) n < buf_len b \<longleftrightarrow> 2 ^ 64 \<le> buf_len b + n"
    using size_add_overflow_iff [of "buf_len b" n] assms(2) by simp
  have same: "b = b\<lparr>buf_cap := buf_cap b\<rparr>" by simp
  show "r = None \<Longrightarrow> b' = b\<lparr>buf_error := True\<rparr>"
    using assms(3) by (auto simp: cbb_buffer_reserve_def Let_def split: if_splits)
  show "buf_step b b'"
    using assms(3) b size_add_bound [of "buf_len b" n] size_add_bound [of "buf_cap b" "buf_cap b"]
    by (auto simp: cbb_buffer_reserve_def Let_def buf_step_def buf_ok_def split: if_splits)
  assume r: "r = Some out"
  then have n: "buf_len b + n < 2 ^ 64" using assms(3) o
    by (auto simp: cbb_buffer_reserve_def Let_def split: if_splits)
  with r assms(3) show "out = buf_len b \<and> (\<exists>cap. buf_len b + n \<le> cap \<and> b' = b\<lparr>buf_cap := cap\<rparr>)"
    using same by (auto simp: cbb_buffer_reserve_def Let_def not_less split: if_splits; force)
qed

lemma add_cases:
  assumes "buf_ok b" "n < 2 ^ 64" "cbb_buffer_add b n = (r, b')"
  shows "buf_step b b'" "r = None \<Longrightarrow> b' = b\<lparr>buf_error := True\<rparr>"
    "r = Some out \<Longrightarrow> out = buf_len b \<and>
       (\<exists>cap. buf_len b + n \<le> cap \<and> b' = b\<lparr>buf_cap := cap, buf_len := buf_len b + n\<rparr>)"
proof -
  obtain r0 b0 where r: "cbb_buffer_reserve b n = (r0, b0)" by fastforce
  note c = reserve_cases [OF assms(1,2) r]
  show "r = None \<Longrightarrow> b' = b\<lparr>buf_error := True\<rparr>"
    using assms(3) r c(2) by (auto simp: cbb_buffer_add_def split: option.splits)
  show "r = Some out \<Longrightarrow> out = buf_len b \<and>
       (\<exists>cap. buf_len b + n \<le> cap \<and> b' = b\<lparr>buf_cap := cap, buf_len := buf_len b + n\<rparr>)"
    using assms(3) r c(3) by (auto simp: cbb_buffer_add_def split: option.splits)
  show "buf_step b b'"
    using assms(3) r c(1) c(3) by (cases r0) (auto simp: cbb_buffer_add_def buf_step_def buf_ok_def)
qed

section \<open>The chain\<close>

fun chain_ok :: "nat \<Rightarrow> cbb_child list \<Rightarrow> nat \<Rightarrow> bool" where
  "chain_ok p [] e \<longleftrightarrow> p \<le> e"
| "chain_ok p (child # below) e \<longleftrightarrow>
     p \<le> child_offset child \<and> 0 < pending_len_len child \<and> pending_len_len child \<le> 3 \<and>
     (pending_is_asn1 child \<longrightarrow> pending_len_len child = 1) \<and>
     chain_ok (child_offset child + pending_len_len child) below e"

lemma chain_ok_le: "chain_ok p cs e \<Longrightarrow> p \<le> e"
  by (induction cs arbitrary: p) fastforce+

lemma chain_ok_mono: "chain_ok p cs e \<Longrightarrow> e \<le> e' \<Longrightarrow> chain_ok p cs e'"
  by (induction cs arbitrary: p) auto

lemma chain_ok_take: "chain_ok p cs e \<Longrightarrow> chain_ok p (take d cs) e"
proof (induction cs arbitrary: p d)
  case (Cons c cs)
  then show ?case using chain_ok_le by (cases d) fastforce+
qed simp

lemma chain_ok_append:
  "chain_ok p (xs @ ys) e \<longleftrightarrow>
     chain_ok p xs e \<and> chain_ok (if xs = [] then p else child_offset (last xs) + pending_len_len (last xs)) ys e"
  using chain_ok_le by (induction xs arbitrary: p) auto

lemma asn1_len_len_bounds: "1 \<le> fst (asn1_len_len n)" "fst (asn1_len_len n) \<le> 5"
  by (simp_all add: asn1_len_len_def)

lemma asn1_len_len_fits:
  "asn1_len_len n = (k, i) \<Longrightarrow> n \<le> 0xfffffffe \<Longrightarrow> k \<noteq> 1 \<Longrightarrow>
     drop_bit (8 * (k - 1)) (word_of_nat n :: u64) = 0"
  by (auto simp: asn1_len_len_def drop_bit_eq_0_unat unat_of_nat take_bit_nat_eq_self split: if_splits)

lemma size_add_small_chain: "chain_ok p (c # cs) e \<Longrightarrow> e < 2 ^ 64 \<Longrightarrow>
    size_add (child_offset c) (pending_len_len c) = child_offset c + pending_len_len c"
  using chain_ok_le [of "child_offset c + pending_len_len c" cs e] by simp

lemma flush_asn1_step:
  assumes "buf_ok b" "start + len = buf_len b" "child_offset child < start"
    and "flush_asn1 b child start len = (r, b')"
  shows "buf_step b b' \<and> buf_len b \<le> buf_len b' \<and>
    (\<forall>n ch. r = Some (n, ch) \<longrightarrow> buf_error b' = buf_error b \<and>
       child_offset ch + pending_len_len ch \<le> buf_len b' \<and>
       drop_bit (8 * pending_len_len ch) (word_of_nat n :: u64) = 0)"
proof (cases "0xfffffffe < len")
  case True
  then show ?thesis using assms by (simp add: flush_asn1_def)
next
  case False
  obtain k i where k: "asn1_len_len len = (k, i)" by fastforce
  then have k5: "1 \<le> k" "k \<le> 5" using asn1_len_len_bounds [of len] by simp_all
  show ?thesis
  proof (cases "k = 1")
    case True
    then have "b' = b\<lparr>buf := store_bytes (buf b) (child_offset child) [i]\<rparr>"
      using assms(4) False k by (auto simp: flush_asn1_def store_bytes_single)
    moreover have "buf_len b \<le> buf_cap b" using assms(1) by (simp add: buf_ok_def)
    ultimately show ?thesis using assms False k True buf_step_store [of b "child_offset child" "[i]"]
      by (auto simp: flush_asn1_def)
  next
    case k1: False
    obtain r1 b1 where a: "cbb_buffer_add b (k - 1) = (r1, b1)" by fastforce
    have "k - 1 < 2 ^ 64" using k5 by simp
    note c = add_cases [OF assms(1) this a]
    show ?thesis
    proof (cases r1)
      case None
      then show ?thesis using assms(4) False k k1 a c(1,2) by (auto simp: flush_asn1_def)
    next
      case (Some q)
      from c(3) [OF Some] obtain cap where b1: "buf_len b + (k - 1) \<le> cap"
          "b1 = b\<lparr>buf_cap := cap, buf_len := buf_len b + (k - 1)\<rparr>" by blast
      define b2 where "b2 = b1\<lparr>buf := store_bytes (buf b1) (start + (k - 1)) (load_bytes (buf b1) start len)\<rparr>"
      have s2: "buf_step b b2"
        unfolding b2_def using c(1) b1 assms(2)
        by (intro buf_step_trans [OF c(1)] buf_step_store buf_step_ok [OF c(1)]) simp
      have b': "b' = b2\<lparr>buf := store_bytes (buf b2) (child_offset child) [i]\<rparr>"
          "r = Some (len, child\<lparr>child_offset := child_offset child + 1, pending_len_len := k - 1\<rparr>)"
        using assms(4) False k k1 a Some by (auto simp: flush_asn1_def b2_def store_bytes_single Let_def)
      have "child_offset child + 1 \<le> buf_cap b2"
        using assms(2,3) b1 by (simp add: b2_def)
      then have "buf_step b b'"
        unfolding b' by (intro buf_step_trans [OF s2] buf_step_store buf_step_ok [OF s2]) simp
      moreover have "child_offset child + k \<le> buf_len b + k - Suc 0" using assms(2,3) by simp
      ultimately show ?thesis using b' b1 assms(2,3) k1 k5 asn1_len_len_fits [OF k _ k1] False
        by (simp add: b2_def)
    qed
  qed
qed

text \<open>A flush keeps the invariant; when it succeeds, the chain is closed.\<close>

lemma flush_step:
  "cbb_flush b cs = (ok, b', cs') \<Longrightarrow> buf_ok b \<Longrightarrow> chain_ok p cs (buf_len b) \<Longrightarrow>
     buf_step b b' \<and> buf_len b' < 2 ^ 64 \<and> chain_ok p cs' (buf_len b') \<and> ok = (\<not> buf_error b') \<and>
     (ok \<longrightarrow> cs' = [] \<and> \<not> buf_error b)"
proof (induction b cs arbitrary: p ok b' cs' rule: cbb_flush.induct)
  case (1 b)
  then show ?case by (auto simp: buf_ok_def split: if_splits)
next
  case (2 b child below)
  let ?start = "child_offset child + pending_len_len child"
  have len: "buf_len b < 2 ^ 64" using 2(3) by (simp add: buf_ok_def)
  show ?case
  proof (cases "buf_error b")
    case True
    then show ?thesis using 2 len by (auto split: if_splits)
  next
    case err: False
    have ch: "p \<le> child_offset child" "0 < pending_len_len child" "pending_len_len child \<le> 3"
        "pending_is_asn1 child \<Longrightarrow> pending_len_len child = 1" "chain_ok ?start below (buf_len b)"
      using 2(4) by auto
    have start: "size_add (child_offset child) (pending_len_len child) = ?start"
      using size_add_small_chain [OF 2(4)] len by simp
    obtain ok1 b1 cs1 where f: "cbb_flush b below = (ok1, b1, cs1)" using prod_cases3 by blast
    have IH: "buf_step b b1" "buf_len b1 < 2 ^ 64" "chain_ok ?start cs1 (buf_len b1)"
        "ok1 = (\<not> buf_error b1)" "ok1 \<Longrightarrow> cs1 = []"
      using 2(1) [OF err _ refl f 2(3) ch(5)] ch(2) by auto
    have le: "?start \<le> buf_len b1" using chain_ok_le [OF IH(3)] .
    have b1: "buf_ok b1" using IH(1) buf_step_ok by blast
    have error: "buf_step b (b1\<lparr>buf_error := True\<rparr>)" "chain_ok p (child # cs1) (buf_len b1)"
      using buf_step_trans [OF IH(1) buf_step_error [OF b1]] ch IH(3) by auto
    show ?thesis
    proof (cases ok1)
      case False
      then show ?thesis using 2(2) err ch(2) start f error IH by (auto simp: Let_def)
    next
      case True
      obtain r b2 where r: "(if pending_is_asn1 child then flush_asn1 b1 child ?start (buf_len b1 - ?start)
          else (Some (buf_len b1 - ?start, child), b1)) = (r, b2)" by fastforce
      have s2: "buf_step b1 b2" "buf_len b1 \<le> buf_len b2"
          "r = Some (n, c2) \<Longrightarrow> buf_error b2 = buf_error b1 \<and>
             child_offset c2 + pending_len_len c2 \<le> buf_len b2 \<and> (c2 = child \<or>
             drop_bit (8 * pending_len_len c2) (word_of_nat n :: u64) = 0)" for n c2
        using r le ch(2) b1 flush_asn1_step [OF b1, of ?start "buf_len b1 - ?start" child r b2]
        by (auto split: if_splits)
      have b2: "buf_ok b2" "buf_step b b2" using s2(1) IH(1) buf_step_ok buf_step_trans by blast+
      show ?thesis
      proof (cases r)
        case None
        then have "b' = b2\<lparr>buf_error := True\<rparr>" "cs' = [child]" "\<not> ok"
          using 2(2) err ch(2) start f IH(5) True le r by (auto simp: Let_def not_less)
        then show ?thesis
          using b2 buf_step_trans [OF b2(2) buf_step_error [OF b2(1)]] ch le s2(2)
          by (auto simp: buf_ok_def)
      next
        case (Some q)
        then obtain n c2 where q: "r = Some (n, c2)" by (cases q) auto
        let ?w = "word_of_nat n :: u64"
        let ?b3 = "b2\<lparr>buf := store_bytes (buf b2) (child_offset c2) (be_bytes (pending_len_len c2) ?w)\<rparr>"
        have e: "if drop_bit (8 * pending_len_len c2) ?w \<noteq> 0
            then b' = ?b3\<lparr>buf_error := True\<rparr> \<and> cs' = [c2] \<and> \<not> ok
            else b' = ?b3 \<and> cs' = [] \<and> ok"
          using 2(2) err ch(2) start f IH(5) True le r q by (auto simp: Let_def not_less store_be_eq)
        have s3: "buf_step b ?b3"
          using b2 s2(3) [OF q] by (intro buf_step_trans [OF b2(2)] buf_step_store) (auto simp: buf_ok_def)
        then have s4: "buf_step b (?b3\<lparr>buf_error := True\<rparr>)"
          using buf_step_error [OF buf_step_ok [OF s3]] buf_step_trans by blast
        have n: "buf_len b2 < 2 ^ 64" using b2(1) by (simp add: buf_ok_def)
        have c2: "child_offset c2 + pending_len_len c2 \<le> buf_len b2" "buf_error b2 = buf_error b1"
          using s2(3) [OF q] by auto
        have p: "p \<le> buf_len b2" using ch(1) le s2(2) by simp
        show ?thesis
        proof (cases "drop_bit (8 * pending_len_len c2) ?w = 0")
          case True
          with e s3 n c2(2) p IH(4) \<open>ok1\<close> err show ?thesis by simp
        next
          case False
          with s2(3) [OF q] have "c2 = child" by blast
          with e s4 n False c2(1) ch show ?thesis by simp
        qed
      qed
    qed
  qed
qed

section \<open>Length prefixes\<close>

lemma le_bytes_word_of_nat:
  "n < 2 ^ LENGTH('a) \<Longrightarrow> 8 * k \<le> LENGTH('a) \<Longrightarrow>
     le_bytes k (word_of_nat n :: 'a::len word) = map (\<lambda>i. word_of_nat (n div 256 ^ i)) [0..<k]"
proof (induction k arbitrary: n)
  case (Suc k)
  have l: "8 \<le> LENGTH('a)" using Suc.prems(2) by simp
  have u: "unat (word_of_nat n :: 'a word) = n"
    using Suc.prems(1) by (simp add: unat_of_nat take_bit_nat_eq_self)
  then have d: "drop_bit 8 (word_of_nat n :: 'a word) = word_of_nat (n div 256)"
    using Suc.prems(1) div_le_dividend [of n 256]
    by (simp only: word_unat_eq_iff unat_drop_bit_eq unat_of_nat)
      (simp add: drop_bit_eq_div take_bit_nat_eq_self le_less_trans [OF div_le_dividend])
  have "(ucast (word_of_nat n :: 'a word) :: u8) = word_of_nat n"
    using u by (simp add: word_unat_eq_iff unsigned_ucast_eq unat_of_nat take_bit_eq_mod)
  moreover have "n div 256 < 2 ^ LENGTH('a)" using Suc.prems(1) div_le_dividend [of n 256] by linarith
  ultimately show ?case
    using Suc.IH [of "n div 256"] Suc.prems(2) d
    by (simp add: upt_conv_Cons map_Suc_upt [symmetric] div_mult2_eq del: upt_Suc)
qed simp

lemma be_bytes_32_64: "n < 2 ^ 32 \<Longrightarrow> k \<le> 4 \<Longrightarrow>
    be_bytes k (word_of_nat n :: u64) = be_bytes k (word_of_nat n :: u32)"
  by (simp add: be_bytes_def le_bytes_word_of_nat)

lemma octets_values:
  "n \<le> 0xff \<Longrightarrow> octets n = 1" "0xff < n \<Longrightarrow> n \<le> 0xffff \<Longrightarrow> octets n = 2"
  "0xffff < n \<Longrightarrow> n \<le> 0xffffff \<Longrightarrow> octets n = 3" "0xffffff < n \<Longrightarrow> n < 2 ^ 32 \<Longrightarrow> octets n = 4"
     apply (use octets_eq_iff [of n 0] in simp)
    apply (use octets_eq_iff [of n 1] in simp)
   apply (use octets_eq_iff [of n 2] in simp)
  apply (use octets_eq_iff [of n 3] in simp)
  done

lemma asn1_len_len_der_length:
  assumes "asn1_len_len n = (k, i)" "n \<le> 0xfffffffe"
  shows "der_length n = i # be_bytes (k - 1) (word_of_nat n :: u64)" "0 < k"
  using assms be_bytes_32_64 [of n] octets_values [of n]
  by (auto simp: asn1_len_len_def der_length_def be_bytes_def [of 0] split: if_splits)

section \<open>Room\<close>

definition limit :: "cbb_buffer \<Rightarrow> nat" where
  "limit b = (if can_resize b then 2 ^ 64 - 1 else buf_cap b)"

text \<open>Memory does not run out below the largest size.\<close>

definition solid :: "cbb_buffer \<Rightarrow> bool" where
  "solid b \<longleftrightarrow> (can_resize b \<longrightarrow> (\<forall>n. realloc_ok b n))"

lemma step_limit: "buf_step b b' \<Longrightarrow> limit b' = limit b \<and> solid b' = solid b"
  by (auto simp: buf_step_def limit_def solid_def)

lemma add_room:
  assumes "buf_ok b" "n < 2 ^ 64" "solid b"
  shows "buf_len b + n \<le> limit b \<longleftrightarrow> fst (cbb_buffer_add b n) \<noteq> None"
proof -
  have "buf_len b \<le> buf_cap b" "buf_cap b < 2 ^ 64" using assms(1) by (auto simp: buf_ok_def)
  moreover from this have "size_add (buf_len b) n < buf_len b \<longleftrightarrow> 2 ^ 64 \<le> buf_len b + n"
    using size_add_overflow_iff [of "buf_len b" n] assms(2) by simp
  ultimately show ?thesis
    using assms(3)
    by (auto simp: cbb_buffer_add_def cbb_buffer_reserve_def limit_def solid_def Let_def)
qed

section \<open>Frames\<close>

text \<open>How the contents of a child are announced, and the announcement of a length.\<close>

datatype announce = Der_Length | Fixed_Length nat

definition announce_of :: "cbb_child \<Rightarrow> announce" where
  "announce_of child =
     (if pending_is_asn1 child then Der_Length else Fixed_Length (pending_len_len child))"

fun announced :: "announce \<Rightarrow> nat \<Rightarrow> u8 list option" where
  "announced Der_Length n = (if n \<le> 0xfffffffe then Some (der_length n) else None)"
| "announced (Fixed_Length k) n =
     (if n < 256 ^ k then Some (be_bytes k (word_of_nat n :: u64)) else None)"

text \<open>The contents written so far at each depth, and the contents of the first one when the ones
  below are closed.\<close>

fun frames :: "mem \<Rightarrow> nat \<Rightarrow> cbb_child list \<Rightarrow> nat \<Rightarrow> u8 list list" where
  "frames m p [] e = [load_bytes m p (e - p)]"
| "frames m p (child # below) e =
     load_bytes m p (child_offset child - p) #
       frames m (child_offset child + pending_len_len child) below e"

fun close :: "announce list \<Rightarrow> u8 list list \<Rightarrow> u8 list option" where
  "close (k # ks) (x # xs) =
     (case close ks xs of
        None \<Rightarrow> None
      | Some y \<Rightarrow> map_option (\<lambda>pre. x @ pre @ y) (announced k (length y)))"
| "close ks xs = Some (concat xs)"

lemma load_bytes_cong: "(\<And>i. i < n \<Longrightarrow> m (a + i) = m' (a + i)) \<Longrightarrow> load_bytes m a n = load_bytes m' a n"
  by (rule nth_equalityI) auto

lemma load_store_before: "b + n \<le> a \<Longrightarrow> load_bytes (store_bytes m a xs) b n = load_bytes m b n"
  by (rule load_store_disjoint) simp

text \<open>The long form moves the contents; the first length byte and the others are put before them.\<close>

lemma flush_asn1_correct:
  assumes "buf_ok b" "solid b" "start = child_offset child + 1" "start + len = buf_len b"
    and "flush_asn1 b child start len = (r, b')"
  shows "r = None \<longleftrightarrow> \<not> (len \<le> 0xfffffffe \<and> child_offset child + length (der_length len) + len \<le> limit b)"
    and "r = Some (n, c2) \<Longrightarrow> buf_len b' = child_offset child + length (der_length len) + len \<and>
      store_bytes (buf b') (child_offset c2) (be_bytes (pending_len_len c2) (word_of_nat n :: u64)) =
      store_bytes (buf b) (child_offset child) (der_length len @ load_bytes (buf b) start len)"
proof -
  obtain k i where k: "asn1_len_len len = (k, i)" by fastforce
  have k5: "1 \<le> k" "k \<le> 5" using asn1_len_len_bounds [of len] k by simp_all
  obtain r1 b1 where a: "cbb_buffer_add b (k - 1) = (r1, b1)" by fastforce
  have "k - 1 < 2 ^ 64" using k5 by simp
  note c = add_cases [OF assms(1) this a] and room = add_room [OF assms(1) this assms(2)]
  have len: "length (der_length len) = k" if "len \<le> 0xfffffffe"
    using asn1_len_len_der_length [OF k that] by simp
  have lim: "buf_len b \<le> limit b" using assms(1) by (auto simp: buf_ok_def limit_def)
  show "r = None \<longleftrightarrow> \<not> (len \<le> 0xfffffffe \<and> child_offset child + length (der_length len) + len \<le> limit b)"
    using assms(3-5) k len room a k5 lim
    by (cases "0xfffffffe < len"; cases "k = 1"; cases r1) (auto simp: flush_asn1_def Let_def)
  assume r: "r = Some (n, c2)"
  then have le: "len \<le> 0xfffffffe" using assms(5) by (auto simp: flush_asn1_def split: if_splits)
  note d = asn1_len_len_der_length [OF k le]
  show "buf_len b' = child_offset child + length (der_length len) + len \<and>
      store_bytes (buf b') (child_offset c2) (be_bytes (pending_len_len c2) (word_of_nat n :: u64)) =
      store_bytes (buf b) (child_offset child) (der_length len @ load_bytes (buf b) start len)"
  proof (cases "k = 1")
    case True
    then show ?thesis
      using assms(3-5) r k le d by (auto simp: flush_asn1_def be_bytes_def store_bytes_def fun_eq_iff nth_Cons')
  next
    case False
    then obtain q where q: "r1 = Some q" using assms(5) r k le a by (cases r1) (auto simp: flush_asn1_def)
    from c(3) [OF q] obtain cap where b1: "b1 = b\<lparr>buf_cap := cap, buf_len := buf_len b + (k - 1)\<rparr>" by blast
    have b': "n = len" "c2 = child\<lparr>child_offset := child_offset child + 1, pending_len_len := k - 1\<rparr>"
        "b' = b1\<lparr>buf := (store_bytes (buf b1) (start + (k - 1)) (load_bytes (buf b1) start len))
           (child_offset child := i)\<rparr>"
      using assms(5) r k le a q False by (auto simp: flush_asn1_def Let_def)
    show ?thesis
      using b' b1 d assms(3,4) k5
      by (auto simp: store_bytes_def fun_eq_iff nth_append nth_Cons')
  qed
qed

lemma frames_cong:
  "chain_ok p cs e \<Longrightarrow> (\<And>a. p \<le> a \<Longrightarrow> m a = m' a) \<Longrightarrow> frames m p cs e = frames m' p cs e"
  by (induction cs arbitrary: p) (auto intro!: load_bytes_cong)

lemma frames_upd_before:
  "chain_ok p cs e \<Longrightarrow> a + length xs \<le> p \<Longrightarrow> frames (store_bytes m a xs) p cs e = frames m p cs e"
  by (rule frames_cong) (auto simp: store_bytes_outside)

lemma length_frames [simp]: "length (frames m p cs e) = Suc (length cs)"
  by (induction cs arbitrary: p) auto

lemma store_load_id: "store_bytes m a (load_bytes m a n) = m"
  by (rule ext) (auto simp: store_bytes_def)

lemma buf_ok_limit: "buf_ok b \<Longrightarrow> buf_len b \<le> limit b"
  by (auto simp: buf_ok_def limit_def)

text \<open>What a successful flush leaves: the closed contents where the first frame started.\<close>

definition closed_at :: "mem \<Rightarrow> nat \<Rightarrow> u8 list \<Rightarrow> cbb_buffer \<Rightarrow> bool" where
  "closed_at m p y b \<longleftrightarrow> buf_len b = p + length y \<and> load_bytes (buf b) p (length y) = y \<and>
     (\<forall>a < p. buf b a = m a)"

lemma closed_at_store:
  assumes "closed_at m start z b" "p \<le> off" "off + n = start"
    and "buf b' = store_bytes (buf b) off (pre @ z)" "buf_len b' = off + length pre + length z"
  shows "closed_at m p (load_bytes m p (off - p) @ pre @ z) b'"
proof -
  have "load_bytes (buf b') p (off - p) = load_bytes m p (off - p)"
    using assms by (simp add: load_store_before) (auto simp: closed_at_def intro!: load_bytes_cong)
  moreover have "load_bytes (buf b') off (length (pre @ z)) = pre @ z"
    unfolding assms(4) by (rule load_store_same)
  moreover have "\<forall>a < p. buf b' a = m a"
    using assms by (auto simp: closed_at_def store_bytes_outside)
  ultimately show ?thesis
    using assms load_bytes_add [of "buf b'" p "off - p" "length pre + length z"]
    by (simp add: closed_at_def)
qed

definition spec_of :: "cbb_buffer \<Rightarrow> nat \<Rightarrow> cbb_child list \<Rightarrow> u8 list option" where
  "spec_of b p cs = close (map announce_of cs) (frames (buf b) p cs (buf_len b))"

lemma announced_length: "announced k n = Some pre \<Longrightarrow> k = Der_Length \<or> k = Fixed_Length (length pre)"
  by (cases k) (auto split: if_splits)

lemma length_der_length_pos: "0 < length (der_length n)"
  by (simp add: der_length_def)

lemma flush_correct:
  "cbb_flush b cs = (ok, b', cs') \<Longrightarrow> buf_ok b \<Longrightarrow> solid b \<Longrightarrow> \<not> buf_error b \<Longrightarrow>
     chain_ok p cs (buf_len b) \<Longrightarrow>
     (ok \<longleftrightarrow> (\<exists>y. spec_of b p cs = Some y \<and> p + length y \<le> limit b)) \<and>
     (\<forall>y. ok \<longrightarrow> spec_of b p cs = Some y \<longrightarrow> closed_at (buf b) p y b')"
proof (induction b cs arbitrary: p ok b' cs' rule: cbb_flush.induct)
  case (1 b)
  then show ?case by (auto simp: spec_of_def closed_at_def buf_ok_def limit_def)
next
  case (2 b child below)
  let ?off = "child_offset child" and ?pll = "pending_len_len child"
  let ?start = "?off + ?pll"
  have ch: "p \<le> ?off" "0 < ?pll" "?pll \<le> 3" "pending_is_asn1 child \<Longrightarrow> ?pll = 1"
      "chain_ok ?start below (buf_len b)"
    using 2(6) by auto
  have len: "buf_len b < 2 ^ 64" using 2(3) by (simp add: buf_ok_def)
  then have start: "size_add ?off ?pll = ?start" using size_add_small_chain [OF 2(6)] by simp
  obtain ok1 b1 cs1 where f: "cbb_flush b below = (ok1, b1, cs1)" using prod_cases3 by blast
  have IH: "ok1 \<longleftrightarrow> (\<exists>z. spec_of b ?start below = Some z \<and> ?start + length z \<le> limit b)"
      "\<And>z. ok1 \<Longrightarrow> spec_of b ?start below = Some z \<Longrightarrow> closed_at (buf b) ?start z b1"
    using 2(1) [OF 2(5) _ refl f 2(3,4,5) ch(5)] ch(2) by auto
  note step = flush_step [OF f 2(3) ch(5)]
  have spec: "spec_of b p (child # below) =
      (case spec_of b ?start below of
         None \<Rightarrow> None
       | Some z \<Rightarrow> map_option (\<lambda>pre. load_bytes (buf b) p (?off - p) @ pre @ z)
           (announced (announce_of child) (length z)))"
    by (simp add: spec_of_def)
  show ?case
  proof (cases ok1)
    case False
    then have "\<not> ok" using 2(2,5) ch(2) start f by (auto simp: Let_def)
    moreover have "\<not> (\<exists>y. spec_of b p (child # below) = Some y \<and> p + length y \<le> limit b)"
    proof
      assume "\<exists>y. spec_of b p (child # below) = Some y \<and> p + length y \<le> limit b"
      then obtain z pre where z: "spec_of b ?start below = Some z"
          "announced (announce_of child) (length z) = Some pre" "?off + length pre + length z \<le> limit b"
        using ch(1) by (auto simp: spec split: option.splits)
      have "?pll \<le> length pre"
        using announced_length [OF z(2)] ch(4) length_der_length_pos z(2)
        by (auto simp: announce_of_def Suc_le_eq split: if_splits)
      with False IH(1) z show False by auto
    qed
    ultimately show ?thesis by blast
  next
    case True
    then obtain z where z: "spec_of b ?start below = Some z" using IH(1) by blast
    have cl: "closed_at (buf b) ?start z b1" using IH(2) [OF True z] .
    have b1: "buf_ok b1" "\<not> buf_error b1" "limit b1 = limit b" "solid b1" "cs1 = []"
      using step True step_limit [of b b1] buf_step_ok 2(4) by auto
    have l1: "buf_len b1 = ?start + length z" and z1: "load_bytes (buf b1) ?start (length z) = z"
      using cl by (auto simp: closed_at_def)
    show ?thesis
    proof (cases "pending_is_asn1 child")
      case asn1: True
      obtain r b2 where r: "flush_asn1 b1 child ?start (length z) = (r, b2)" by fastforce
      note fa = flush_asn1_correct [OF b1(1,4) _ _ r]
      have one: "?pll = 1" using ch(4) asn1 .
      show ?thesis
      proof (cases r)
        case None
        then have "\<not> ok" using 2(2,5) ch(2) start f True r asn1 l1 by (auto simp: Let_def)
        with None fa(1) one l1 b1(3) ch(1) spec z asn1 show ?thesis
          by (auto simp: announce_of_def split: if_splits)
      next
        case (Some q)
        then obtain n c2 where q: "r = Some (n, c2)" by (cases q) auto
        have "drop_bit (8 * pending_len_len c2) (word_of_nat n :: u64) = 0"
          using flush_asn1_step [OF b1(1) _ _ r] l1 ch(2) q by auto
        then have "ok" "b' = b2\<lparr>buf := store_bytes (buf b2) (child_offset c2)
            (be_bytes (pending_len_len c2) (word_of_nat n :: u64))\<rparr>"
          using 2(2,5) ch(2) start f True r asn1 l1 q by (auto simp: Let_def store_be_eq)
        moreover have "spec_of b p (child # below) =
            Some (load_bytes (buf b) p (?off - p) @ der_length (length z) @ z)"
            "?off + length (der_length (length z)) + length z \<le> limit b"
          using fa(1) q one l1 b1(3) spec z asn1 by (auto simp: announce_of_def)
        moreover have "closed_at (buf b) p (load_bytes (buf b) p (?off - p) @ der_length (length z) @ z) b'"
          using fa(2) [OF _ _ q] one l1 z1 calculation(2)
          by (intro closed_at_store [OF cl ch(1) refl]) simp_all
        ultimately show ?thesis using ch(1) by simp
      qed
    next
      case False
      have n: "drop_bit (8 * ?pll) (word_of_nat (length z) :: u64) = 0 \<longleftrightarrow> length z < 256 ^ ?pll"
        using l1 b1(1) by (simp add: drop_bit_eq_0_unat unat_of_nat take_bit_nat_eq_self buf_ok_def power_mult)
      let ?pre = "be_bytes ?pll (word_of_nat (length z) :: u64)"
      have ok: "ok \<longleftrightarrow> length z < 256 ^ ?pll" "ok \<Longrightarrow> b' = b1\<lparr>buf := store_bytes (buf b1) ?off ?pre\<rparr>"
        using 2(2,5) ch(2) start f True False l1 n by (auto simp: Let_def store_be_eq split: if_splits)
      have "closed_at (buf b) p (load_bytes (buf b) p (?off - p) @ ?pre @ z) b'" if "ok"
        using ok(2) [OF that] l1 z1 store_bytes_append [of "buf b1" ?off ?pre z, symmetric]
          store_load_id [of "store_bytes (buf b1) ?off ?pre" "?off + ?pll" "length z"]
        by (intro closed_at_store [OF cl ch(1) refl]) (simp_all add: load_store_disjoint)
      moreover have "buf_len b1 \<le> limit b" using buf_ok_limit [OF b1(1)] b1(3) by simp
      ultimately show ?thesis using ok(1) spec z False l1 ch(1) by (auto simp: announce_of_def)
    qed
  qed
qed

section \<open>The list-level builder\<close>

text \<open>Its state is the announcements that are pending and the contents at each depth.\<close>

type_synonym frame_stack = "announce list \<times> u8 list list"

definition abs_cbb :: "cbb \<Rightarrow> frame_stack" where
  "abs_cbb c = (map announce_of (children c), frames (buf (base c)) 0 (children c) (buf_len (base c)))"

definition spec_flush :: "nat \<Rightarrow> frame_stack \<Rightarrow> frame_stack option" where
  "spec_flush d s =
     (case s of (ks, fs) \<Rightarrow>
        map_option (\<lambda>y. (take d ks, take d fs @ [y])) (close (drop d ks) (drop d fs)))"

definition append_top :: "u8 list \<Rightarrow> frame_stack \<Rightarrow> frame_stack" where
  "append_top xs s = (fst s, butlast (snd s) @ [last (snd s) @ xs])"

definition push :: "announce \<Rightarrow> frame_stack \<Rightarrow> frame_stack" where
  "push k s = (fst s @ [k], snd s @ [[]])"

fun announce_len :: "announce \<Rightarrow> nat" where
  "announce_len Der_Length = 1"
| "announce_len (Fixed_Length k) = k"

definition stack_len :: "frame_stack \<Rightarrow> nat" where
  "stack_len s = sum_list (map length (snd s)) + sum_list (map announce_len (fst s))"

fun chain_end :: "nat \<Rightarrow> cbb_child list \<Rightarrow> nat" where
  "chain_end p [] = p"
| "chain_end p (c # cs) = chain_end (child_offset c + pending_len_len c) cs"

fun heads :: "mem \<Rightarrow> nat \<Rightarrow> cbb_child list \<Rightarrow> u8 list list" where
  "heads m p [] = []"
| "heads m p (c # cs) =
     load_bytes m p (child_offset c - p) # heads m (child_offset c + pending_len_len c) cs"

lemma length_heads [simp]: "length (heads m p cs) = length cs"
  by (induction cs arbitrary: p) auto

lemma frames_append: "frames m p (xs @ ys) e = heads m p xs @ frames m (chain_end p xs) ys e"
  by (induction xs arbitrary: p) auto

lemma frames_heads: "frames m p cs e = heads m p cs @ [load_bytes m (chain_end p cs) (e - chain_end p cs)]"
  using frames_append [of m p cs "[]" e] by simp

lemma heads_snoc: "heads m p (cs @ [c]) =
    heads m p cs @ [load_bytes m (chain_end p cs) (child_offset c - chain_end p cs)]"
  by (induction cs arbitrary: p) auto

lemma chain_end_append [simp]: "chain_end p (xs @ ys) = chain_end (chain_end p xs) ys"
  by (induction xs arbitrary: p) auto

lemma chain_ok_split: "chain_ok p (xs @ ys) e \<longleftrightarrow> chain_ok p xs (chain_end p xs) \<and> chain_ok (chain_end p xs) ys e"
proof (induction xs arbitrary: p)
  case Nil
  then show ?case using chain_ok_le by auto
qed auto

lemma chain_ok_end: "chain_ok p cs e \<longleftrightarrow> chain_ok p cs (chain_end p cs) \<and> chain_end p cs \<le> e"
  using chain_ok_split [of p cs "[]" e] by simp

lemma heads_cong:
  "chain_ok p cs (chain_end p cs) \<Longrightarrow> (\<And>a. a < chain_end p cs \<Longrightarrow> m a = m' a) \<Longrightarrow>
     heads m p cs = heads m' p cs"
proof (induction cs arbitrary: p)
  case (Cons c cs)
  have "child_offset c + pending_len_len c \<le> chain_end p (c # cs)"
    using Cons.prems(1) chain_ok_le by auto
  then show ?case using Cons by (auto intro!: load_bytes_cong)
qed simp

lemma stack_len_abs:
  "chain_ok p cs e \<Longrightarrow> stack_len (map announce_of cs, frames m p cs e) = e - p"
proof (induction cs arbitrary: p)
  case (Cons c cs)
  have "announce_len (announce_of c) = pending_len_len c"
    using Cons.prems by (auto simp: announce_of_def)
  moreover have "child_offset c + pending_len_len c \<le> e" using Cons.prems chain_ok_le by auto
  moreover have "p \<le> child_offset c" using Cons.prems by simp
  ultimately show ?case
    using Cons.IH [of "child_offset c + pending_len_len c"] Cons.prems by (simp add: stack_len_def)
qed (simp add: stack_len_def)

section \<open>Refinement\<close>

definition cbb_ok :: "cbb \<Rightarrow> bool" where
  "cbb_ok c \<longleftrightarrow> buf_ok (base c) \<and> chain_ok 0 (children c) (buf_len (base c))"

text \<open>The result of an operation against its specification: it succeeds exactly when the
  specification has a result and there is room for it.\<close>

definition implements_spec :: "cbb \<Rightarrow> frame_stack option \<Rightarrow> bool \<times> cbb \<Rightarrow> bool" where
  "implements_spec c spec r \<longleftrightarrow>
     cbb_ok (snd r) \<and> buf_step (base c) (base (snd r)) \<and> fst r = (\<not> buf_error (base (snd r))) \<and>
     (case spec of
        None \<Rightarrow> \<not> fst r
      | Some s \<Rightarrow> if stack_len s \<le> limit (base c) then fst r \<and> abs_cbb (snd r) = s else \<not> fst r)"

lemma implements_specD:
  "implements_spec c spec (ok, c') \<Longrightarrow> cbb_ok c' \<and> buf_step (base c) (base c') \<and>
     (if ok then spec = Some (abs_cbb c') \<and> \<not> buf_error (base c')
      else (\<forall>s. spec = Some s \<longrightarrow> limit (base c) < stack_len s))"
  by (auto simp: implements_spec_def split: option.splits if_splits)

lemma CBB_flush_children: "cbb_ok c \<Longrightarrow> CBB_flush c d = (True, c') \<Longrightarrow> children c' = take d (children c)"
proof -
  assume "cbb_ok c" "CBB_flush c d = (True, c')"
  then obtain b cs where f: "cbb_flush (base c) (drop d (children c)) = (True, b, cs)"
      "children c' = take d (children c) @ cs"
    by (auto simp: CBB_flush_def split: if_splits prod.splits)
  have "chain_ok (chain_end 0 (take d (children c))) (drop d (children c)) (buf_len (base c))"
    using \<open>cbb_ok c\<close> chain_ok_split [of 0 "take d (children c)" "drop d (children c)"]
    by (simp add: cbb_ok_def)
  then show ?thesis using flush_step [OF f(1)] f(2) \<open>cbb_ok c\<close> by (simp add: cbb_ok_def)
qed

lemma flush_implements:
  assumes "cbb_ok c" "solid (base c)" "\<not> buf_error (base c)" "d \<le> length (children c)"
  shows "implements_spec c (spec_flush d (abs_cbb c)) (CBB_flush c d)"
proof -
  let ?b = "base c" and ?up = "take d (children c)" and ?cs = "drop d (children c)"
  let ?p = "chain_end 0 ?up"
  obtain ok b cs where f: "cbb_flush ?b ?cs = (ok, b, cs)" using prod_cases3 by blast
  have r: "CBB_flush c d = (ok, c\<lparr>base := b, children := ?up @ cs\<rparr>)"
    using assms(4) f by (simp add: CBB_flush_def)
  have ch: "chain_ok 0 ?up ?p" "chain_ok ?p ?cs (buf_len ?b)" and bok: "buf_ok ?b"
    using assms(1) chain_ok_split [of 0 ?up ?cs] by (simp_all add: cbb_ok_def)
  note step = flush_step [OF f bok ch(2)] and corr = flush_correct [OF f bok assms(2,3) ch(2)]
  have c': "cbb_ok (c\<lparr>base := b, children := ?up @ cs\<rparr>)"
    using step ch(1) buf_step_ok [of ?b b] by (simp add: cbb_ok_def chain_ok_split)
  have fr: "frames (buf ?b) 0 (children c) (buf_len ?b) =
      heads (buf ?b) 0 ?up @ frames (buf ?b) ?p ?cs (buf_len ?b)"
    using frames_append [of _ 0 ?up ?cs] by simp
  have spec: "spec_flush d (abs_cbb c) =
      map_option (\<lambda>y. (map announce_of ?up, heads (buf ?b) 0 ?up @ [y])) (spec_of ?b ?p ?cs)"
    using assms(4) fr by (simp add: spec_flush_def abs_cbb_def spec_of_def take_map drop_map min_def)
  have size: "stack_len (map announce_of ?up, heads (buf ?b) 0 ?up @ [y]) = ?p + length y" for y
    using stack_len_abs [of 0 ?up ?p "buf ?b"] ch(1) by (simp add: frames_heads stack_len_def)
  have abs: "abs_cbb (c\<lparr>base := b, children := ?up @ cs\<rparr>) = (map announce_of ?up, heads (buf ?b) 0 ?up @ [y])"
    if "ok" "spec_of ?b ?p ?cs = Some y" for y
  proof -
    have "closed_at (buf ?b) ?p y b" "cs = []" using corr step that by auto
    then show ?thesis
      using heads_cong [OF ch(1), of "buf b" "buf ?b"] by (simp add: abs_cbb_def closed_at_def frames_heads)
  qed
  show ?thesis
    unfolding implements_spec_def r
    using c' step corr spec size abs by (auto split: option.split)
qed

lemma flushed_implements:
  assumes "cbb_ok c" "solid (base c)" "\<not> buf_error (base c)" "d \<le> length (children c)"
    and "\<And>c'. cbb_ok c' \<Longrightarrow> solid (base c') \<Longrightarrow> \<not> buf_error (base c') \<Longrightarrow>
      children c' = take d (children c) \<Longrightarrow> implements_spec c' (Some (f (abs_cbb c'))) (k c')"
    and "\<And>s. stack_len s \<le> stack_len (f s)"
  shows "implements_spec c (map_option f (spec_flush d (abs_cbb c))) (flushed c d k)"
proof -
  obtain ok c' where r: "CBB_flush c d = (ok, c')" by fastforce
  note i = flush_implements [OF assms(1-4), unfolded r]
  note D = implements_specD [OF i]
  show ?thesis
  proof (cases ok)
    case True
    then have c': "cbb_ok c'" "solid (base c')" "\<not> buf_error (base c')" "limit (base c') = limit (base c)"
      using D step_limit assms(2) by auto
    have "children c' = take d (children c)" using CBB_flush_children assms(1) r True by simp
    note i2 = assms(5) [OF c'(1-3) this]
    obtain ok2 c2 where k: "k c' = (ok2, c2)" by fastforce
    show ?thesis
      using i2 D True c'(4) buf_step_trans [of "base c" "base c'" "base c2"]
      by (auto simp: implements_spec_def flushed_def r k split: if_splits)
  next
    case False
    moreover have "stack_len s \<le> limit (base c)" if "stack_len (f s) \<le> limit (base c)" for s
      using assms(6) [of s] that by linarith
    ultimately show ?thesis
      using i D
      by (auto simp: implements_spec_def flushed_def r split: option.splits if_splits)
  qed
qed

lemma stack_len_append_top [simp]: "snd s \<noteq> [] \<Longrightarrow> stack_len (append_top xs s) = stack_len s + length xs"
  by (cases s; cases "snd s" rule: rev_cases) (auto simp: stack_len_def append_top_def)

lemma stack_len_append_top_le: "stack_len s \<le> stack_len (append_top xs s)"
  by (cases s; cases "snd s" rule: rev_cases) (auto simp: stack_len_def append_top_def)

lemma stack_len_push [simp]: "stack_len (push k s) = stack_len s + announce_len k"
  by (auto simp: stack_len_def push_def)

lemma abs_cbb_neq_Nil [simp]: "snd (abs_cbb c) \<noteq> []"
  by (simp add: abs_cbb_def frames_heads)

lemma stack_len_abs_cbb: "cbb_ok c \<Longrightarrow> stack_len (abs_cbb c) = buf_len (base c)"
  using stack_len_abs [of 0 "children c" "buf_len (base c)"] by (simp add: cbb_ok_def abs_cbb_def)

text \<open>Bytes put behind the valid ones.\<close>

lemma abs_append:
  assumes "cbb_ok c" "buf b = store_bytes (buf (base c)) (buf_len (base c)) xs"
    and "buf_len b = buf_len (base c) + length xs"
  shows "abs_cbb (c\<lparr>base := b\<rparr>) = append_top xs (abs_cbb c)"
proof -
  let ?e = "chain_end 0 (children c)"
  have ch: "chain_ok 0 (children c) ?e" "?e \<le> buf_len (base c)"
    using assms(1) chain_ok_end [of 0 "children c" "buf_len (base c)"] by (simp_all add: cbb_ok_def)
  then have "heads (buf b) 0 (children c) = heads (buf (base c)) 0 (children c)"
    by (intro heads_cong) (simp_all add: assms(2) store_bytes_outside)
  moreover have "load_bytes (buf b) ?e (buf_len b - ?e) = load_bytes (buf (base c)) ?e (buf_len (base c) - ?e) @ xs"
  proof -
    obtain k where k: "buf_len (base c) = ?e + k" using ch(2) le_Suc_ex by blast
    show ?thesis
      using load_store_before [of ?e k "?e + k" "buf (base c)" xs]
        load_store_same [of "buf (base c)" "?e + k" xs]
      by (simp only: assms(2,3) k load_bytes_add diff_add_inverse add.assoc)
  qed
  ultimately show ?thesis by (simp add: abs_cbb_def frames_heads append_top_def)
qed

text \<open>A child started at the end of the buffer, its prefix already in it.\<close>

lemma abs_push:
  assumes "cbb_ok c" "buf_len b = buf_len (base c) + k" "0 < k" "k \<le> 3" "asn1 \<longrightarrow> k = 1" "buf_ok b"
    and "\<And>a. a < buf_len (base c) \<Longrightarrow> buf b a = buf (base c) a"
    and "c' = c\<lparr>base := b, children := children c @ [\<lparr>child_offset = buf_len (base c),
        pending_len_len = k, pending_is_asn1 = asn1\<rparr>]\<rparr>"
  shows "abs_cbb c' = push (if asn1 then Der_Length else Fixed_Length k) (abs_cbb c)" "cbb_ok c'"
proof -
  let ?e = "chain_end 0 (children c)"
  have ch: "chain_ok 0 (children c) ?e" "?e \<le> buf_len (base c)"
    using assms(1) chain_ok_end [of 0 "children c" "buf_len (base c)"] by (simp_all add: cbb_ok_def)
  then have "heads (buf b) 0 (children c) = heads (buf (base c)) 0 (children c)"
    using assms(7) by (intro heads_cong) auto
  moreover have "load_bytes (buf b) ?e (buf_len (base c) - ?e) = load_bytes (buf (base c)) ?e (buf_len (base c) - ?e)"
    using assms(7) ch(2) by (intro load_bytes_cong) simp
  ultimately show "abs_cbb c' = push (if asn1 then Der_Length else Fixed_Length k) (abs_cbb c)"
    using assms(2,8) by (simp add: abs_cbb_def heads_snoc push_def announce_of_def frames_heads)
  show "cbb_ok c'"
    using assms(2-6,8) ch by (simp add: cbb_ok_def chain_ok_split)
qed

lemma implements_append:
  assumes "cbb_ok c" "solid (base c)" "\<not> buf_error (base c)" "length xs < 2 ^ 64"
    and "cbb_buffer_add (base c) (length xs) = (r, b)"
  shows "implements_spec c (Some (append_top xs (abs_cbb c)))
     (case r of None \<Rightarrow> (False, c\<lparr>base := b\<rparr>)
      | Some out \<Rightarrow> (True, c\<lparr>base := b\<lparr>buf := store_bytes (buf b) out xs\<rparr>\<rparr>))"
proof -
  have bok: "buf_ok (base c)" using assms(1) by (simp add: cbb_ok_def)
  note a = add_cases [OF bok assms(4,5)] and room = add_room [OF bok assms(4,2)]
  show ?thesis
  proof (cases r)
    case None
    then show ?thesis
      using a(1,2) assms(1,3,5) room stack_len_abs_cbb [OF assms(1)] buf_step_ok
      by (auto simp: implements_spec_def cbb_ok_def)
  next
    case (Some out)
    let ?b = "b\<lparr>buf := store_bytes (buf b) out xs\<rparr>"
    from a(3) [OF Some] obtain cap where b: "out = buf_len (base c)" "buf_len (base c) + length xs \<le> cap"
        "b = (base c)\<lparr>buf_cap := cap, buf_len := buf_len (base c) + length xs\<rparr>" by blast
    have "abs_cbb (c\<lparr>base := ?b\<rparr>) = append_top xs (abs_cbb c)"
      using b by (intro abs_append [OF assms(1)]) simp_all
    moreover have s: "buf_step (base c) ?b"
      using b a(1) buf_step_ok by (intro buf_step_trans [OF a(1)] buf_step_store) auto
    moreover have "cbb_ok (c\<lparr>base := ?b\<rparr>)"
      using assms(1) b buf_step_ok [OF s] by (auto simp: cbb_ok_def intro: chain_ok_mono)
    ultimately show ?thesis
      using Some room assms(3,5) b stack_len_abs_cbb [OF assms(1)] by (simp add: implements_spec_def)
  qed
qed

text \<open>The operations of the interface.\<close>

lemma add_bytes_implements:
  assumes "cbb_ok c" "solid (base c)" "\<not> buf_error (base c)" "d \<le> length (children c)"
    and "length xs < 2 ^ 64"
  shows "implements_spec c (map_option (append_top xs) (spec_flush d (abs_cbb c))) (CBB_add_bytes c d xs)"
  unfolding CBB_add_bytes_def
proof (rule flushed_implements [OF assms(1-4)], goal_cases)
  case (1 c')
  obtain r b where "cbb_buffer_add (base c') (length xs) = (r, b)" by fastforce
  with implements_append [OF 1(1-3) assms(5) this] show ?case by (simp add: option.case_distrib)
qed (rule stack_len_append_top_le)

lemma add_u_implements:
  assumes "cbb_ok c" "solid (base c)" "\<not> buf_error (base c)" "d \<le> length (children c)"
    and "drop_bit (8 * n) v = 0" "0 < n" "n \<le> 4"
  shows "implements_spec c (map_option (append_top (be_bytes n v)) (spec_flush d (abs_cbb c)))
     (cbb_add_u c d v n)"
  unfolding cbb_add_u_def
proof (rule flushed_implements [OF assms(1-4)], goal_cases)
  case (1 c')
  obtain r b where a: "cbb_buffer_add (base c') n = (r, b)" by fastforce
  then show ?case
    using implements_append [OF 1(1-3), of "be_bytes n v" r b] assms(5-7)
    by (cases r) (simp_all add: cbb_buffer_add_u_def store_be_eq Let_def)
qed (rule stack_len_append_top_le)

lemma be_bytes_1 [simp]: "be_bytes (Suc 0) v = [ucast v]"
  by (simp add: be_bytes_def)

lemma ucast_u8_u32 [simp]: "(ucast (ucast (x :: u8) :: u32) :: u8) = x"
  by (rule bit_word_eqI) (auto simp: bit_simps)

lemma drop_bit_u8: "drop_bit 8 (ucast (x :: u8) :: u32) = 0"
  by (rule bit_word_eqI) (auto simp: bit_simps dest: bit_imp_le_length)

lemma add_u8_implements:
  assumes "cbb_ok c" "solid (base c)" "\<not> buf_error (base c)" "d \<le> length (children c)"
  shows "implements_spec c (map_option (append_top [x]) (spec_flush d (abs_cbb c))) (CBB_add_u8 c d x)"
  using add_u_implements [OF assms, of 1 "ucast x"] drop_bit_u8 by (simp add: CBB_add_u8_def)

lemma length_prefixed_implements:
  assumes "cbb_ok c" "solid (base c)" "\<not> buf_error (base c)" "d \<le> length (children c)"
    and "0 < n" "n \<le> 3"
  shows "implements_spec c (map_option (push (Fixed_Length n)) (spec_flush d (abs_cbb c)))
     (cbb_add_length_prefixed c d n)"
  unfolding cbb_add_length_prefixed_def
proof (rule flushed_implements [OF assms(1-4)], goal_cases)
  case (1 c')
  have n: "length (replicate n (0 :: u8)) < 2 ^ 64" using assms(6) by simp
  obtain r b where a: "cbb_buffer_add (base c') n = (r, b)" by fastforce
  note i = implements_append [OF 1(1-3) n, of r b]
  show ?case
  proof (cases r)
    case None
    then show ?thesis
      using i a stack_len_abs_cbb [OF 1(1)] by (auto simp: implements_spec_def split: if_splits)
  next
    case (Some out)
    have "buf_ok (base c')" "n < 2 ^ 64" using 1(1) assms(6) by (simp_all add: cbb_ok_def)
    from add_cases(3) [OF this a Some] obtain cap where b: "out = buf_len (base c')"
      "b = (base c')\<lparr>buf_cap := cap, buf_len := buf_len (base c') + n\<rparr>" by blast
    let ?b = "b\<lparr>buf := store_bytes (buf b) out (replicate n 0)\<rparr>"
    let ?c = "c'\<lparr>base := ?b, children := children c' @ [\<lparr>child_offset = buf_len (base c'),
      pending_len_len = n, pending_is_asn1 = False\<rparr>]\<rparr>"
    have i2: "buf_step (base c') ?b" "\<not> buf_error ?b" "stack_len (abs_cbb c') + n \<le> limit (base c')"
      using i a Some by (auto simp: implements_spec_def split: if_splits)
    have "abs_cbb ?c = push (Fixed_Length n) (abs_cbb c')" "cbb_ok ?c"
      using abs_push [OF 1(1), of ?b n False ?c] assms(5,6) b buf_step_ok [OF i2(1)]
      by (simp_all add: store_bytes_outside)
    then show ?thesis
      using i2 a Some 1(4) assms(4) by (simp add: implements_spec_def min_def)
  qed
qed simp

lemma flush_top: "\<not> buf_error (base c) \<Longrightarrow> CBB_flush c (length (children c)) = (True, c)"
  by (simp add: CBB_flush_def)

lemma spec_flush_top: "spec_flush (length (children c)) (abs_cbb c) = Some (abs_cbb c)"
  by (simp add: spec_flush_def abs_cbb_def frames_heads)

lemma add_u8_top:
  "\<not> buf_error (base c) \<Longrightarrow> CBB_add_u8 c (length (children c)) x =
     (case cbb_buffer_add (base c) 1 of
        (None, b) \<Rightarrow> (False, c\<lparr>base := b\<rparr>)
      | (Some out, b) \<Rightarrow> (True, c\<lparr>base := b\<lparr>buf := store_bytes (buf b) out [x]\<rparr>\<rparr>))"
  by (simp add: CBB_add_u8_def cbb_add_u_def flushed_def flush_top cbb_buffer_add_u_def
      store_bytes_single drop_bit_u8 split: prod.split option.split)

lemma ucast_tag_le: "(ucast (tag :: u8) :: u32) \<le> 0xff"
  using unat_byte_less [of tag] by (simp add: word_le_nat_alt)

lemma ucast_tag_and: "ucast (tag :: u8) AND 0x1f = (0x1f :: u32) \<longleftrightarrow> tag AND 0x1f = 0x1f"
proof -
  have "ucast tag AND 0x1f = (ucast (tag AND 0x1f) :: u32)" for tag :: u8
    by (rule bit_word_eqI) (auto simp: bit_simps dest: bit_imp_le_length)
  then show ?thesis using ucast_byte_inj [of "tag AND 0x1f" "0x1f"] by simp
qed

lemma add_zero_push:
  assumes "cbb_ok c" "solid (base c)" "\<not> buf_error (base c)"
  shows "implements_spec c (Some (push Der_Length (abs_cbb c)))
    (case CBB_add_u8 c (length (children c)) 0 of
       (False, c) \<Rightarrow> (False, c)
     | (True, c2) \<Rightarrow> (True, c2\<lparr>children := take (length (children c)) (children c2) @ [\<lparr>child_offset = buf_len (base c),
           pending_len_len = 1, pending_is_asn1 = True\<rparr>]\<rparr>))"
proof -
  obtain r b where a: "cbb_buffer_add (base c) (length [0 :: u8]) = (r, b)" by fastforce
  note i = implements_append [OF assms _ a]
  show ?thesis
  proof (cases r)
    case None
    then show ?thesis
      using i a assms(3) stack_len_abs_cbb [OF assms(1)]
      by (auto simp: implements_spec_def add_u8_top split: if_splits)
  next
    case (Some out)
    have "buf_ok (base c)" "length [0 :: u8] < 2 ^ 64" using assms(1) by (simp_all add: cbb_ok_def)
    from add_cases(3) [OF this a Some] obtain cap where b: "out = buf_len (base c)"
      "b = (base c)\<lparr>buf_cap := cap, buf_len := buf_len (base c) + 1\<rparr>" by auto
    let ?b = "b\<lparr>buf := store_bytes (buf b) out [0]\<rparr>"
    let ?c = "c\<lparr>base := ?b, children := children c @ [\<lparr>child_offset = buf_len (base c),
      pending_len_len = 1, pending_is_asn1 = True\<rparr>]\<rparr>"
    have i2: "buf_step (base c) ?b" "\<not> buf_error ?b" "stack_len (abs_cbb c) + 1 \<le> limit (base c)"
      using i a Some by (auto simp: implements_spec_def split: if_splits)
    have "abs_cbb ?c = push Der_Length (abs_cbb c)" "cbb_ok ?c"
      using abs_push [OF assms(1), of ?b 1 True ?c] b buf_step_ok [OF i2(1)]
      by (simp_all add: store_bytes_outside)
    then show ?thesis
      using i2 a Some assms(3) by (simp add: implements_spec_def add_u8_top)
  qed
qed

lemma add_asn1_implements:
  assumes "cbb_ok c" "solid (base c)" "\<not> buf_error (base c)" "d \<le> length (children c)"
    and "tag AND 0x1f \<noteq> 0x1f"
  shows "implements_spec c (map_option (push Der_Length \<circ> append_top [tag]) (spec_flush d (abs_cbb c)))
     (CBB_add_asn1 c d (ucast tag))"
proof -
  have "CBB_add_asn1 c d (ucast tag) = flushed c d (\<lambda>c.
          case CBB_add_u8 c d tag of
            (False, c) \<Rightarrow> (False, c)
          | (True, c) \<Rightarrow>
              (case CBB_add_u8 c d 0 of
                (False, c2) \<Rightarrow> (False, c2)
              | (True, c2) \<Rightarrow>
                  (True, c2\<lparr>children := take d (children c2) @ [\<lparr>child_offset = buf_len (base c),
                    pending_len_len = 1, pending_is_asn1 = True\<rparr>]\<rparr>)))"
    using assms(4,5) leD [OF ucast_tag_le [of tag]] ucast_tag_and [of tag]
    unfolding CBB_add_asn1_def Let_def by simp
  also have "implements_spec c (map_option (push Der_Length \<circ> append_top [tag]) (spec_flush d (abs_cbb c))) \<dots>"
  proof (rule flushed_implements [OF assms(1-4)], goal_cases)
    case (1 c')
    then have d: "d = length (children c')" using assms(4) by simp
    obtain ok c1 where r: "CBB_add_u8 c' d tag = (ok, c1)" by fastforce
    have i: "implements_spec c' (Some (append_top [tag] (abs_cbb c'))) (ok, c1)"
      using add_u8_implements [OF 1(1-3), of d tag] r spec_flush_top [of c'] d by simp
    note D = implements_specD [OF i]
    show ?case
    proof (cases ok)
      case True
      have "children c1 = children c'"
        using r d True add_u8_top [OF 1(3)] by (auto split: prod.splits option.splits)
      then have d1: "d = length (children c1)" using d by simp
      have "solid (base c1)" using D 1(2) step_limit by blast
      with True D have "implements_spec c1 (Some (push Der_Length (abs_cbb c1)))
        (case CBB_add_u8 c1 d 0 of
           (False, c2) \<Rightarrow> (False, c2)
         | (True, c2) \<Rightarrow> (True, c2\<lparr>children := take d (children c2) @ [\<lparr>child_offset = buf_len (base c1),
             pending_len_len = 1, pending_is_asn1 = True\<rparr>]\<rparr>))"
        unfolding d1 using add_zero_push [of c1] by simp
      then show ?thesis
        using True D r step_limit [of "base c'" "base c1"] buf_step_trans [of "base c'" "base c1"]
        by (auto simp: implements_spec_def split: if_splits)
    next
      case False
      then show ?thesis using i r by (auto simp: implements_spec_def split: if_splits)
    qed
  qed (simp add: le_SucI stack_len_append_top_le)
  finally show ?thesis .
qed

section \<open>Programs of the builder\<close>

datatype cbb_op = Flush nat | Add_Bytes nat "u8 list" | Add_U8 nat u8 | Add_U16 nat u16
  | Add_U24 nat u32 | Add_U32 nat u32 | Open_Prefixed nat nat | Open_Asn1 nat u8

fun cbb_run :: "cbb \<Rightarrow> cbb_op \<Rightarrow> bool \<times> cbb" where
  "cbb_run c (Flush d) = CBB_flush c d"
| "cbb_run c (Add_Bytes d xs) = CBB_add_bytes c d xs"
| "cbb_run c (Add_U8 d v) = CBB_add_u8 c d v"
| "cbb_run c (Add_U16 d v) = CBB_add_u16 c d v"
| "cbb_run c (Add_U24 d v) = CBB_add_u24 c d v"
| "cbb_run c (Add_U32 d v) = CBB_add_u32 c d v"
| "cbb_run c (Open_Prefixed d n) =
     (if n = 1 then CBB_add_u8_length_prefixed c d
      else if n = 2 then CBB_add_u16_length_prefixed c d
      else CBB_add_u24_length_prefixed c d)"
| "cbb_run c (Open_Asn1 d tag) = CBB_add_asn1 c d (ucast tag)"

fun cbb_runs :: "cbb \<Rightarrow> cbb_op list \<Rightarrow> bool \<times> cbb" where
  "cbb_runs c [] = (True, c)"
| "cbb_runs c (op # ops) =
     (case cbb_run c op of (False, c) \<Rightarrow> (False, c) | (True, c) \<Rightarrow> cbb_runs c ops)"

fun op_depth :: "cbb_op \<Rightarrow> nat" where
  "op_depth (Flush d) = d" | "op_depth (Add_Bytes d _) = d" | "op_depth (Add_U8 d _) = d"
| "op_depth (Add_U16 d _) = d" | "op_depth (Add_U24 d _) = d" | "op_depth (Add_U32 d _) = d"
| "op_depth (Open_Prefixed d _) = d" | "op_depth (Open_Asn1 d _) = d"

text \<open>No object has \<open>2 ^ 64\<close> bytes or more.\<close>

fun op_small :: "cbb_op \<Rightarrow> bool" where
  "op_small (Add_Bytes d xs) = (length xs < 2 ^ 64)"
| "op_small _ = True"

text \<open>What an operation adds to the frame it has flushed.\<close>

fun spec_effect :: "cbb_op \<Rightarrow> (frame_stack \<Rightarrow> frame_stack) option" where
  "spec_effect (Flush d) = Some (\<lambda>s. s)"
| "spec_effect (Add_Bytes d xs) = Some (append_top xs)"
| "spec_effect (Add_U8 d v) = Some (append_top [v])"
| "spec_effect (Add_U16 d v) = Some (append_top (be_bytes 2 v))"
| "spec_effect (Add_U24 d v) =
     (if unat v < 2 ^ 24 then Some (append_top (be_bytes 3 v)) else None)"
| "spec_effect (Add_U32 d v) = Some (append_top (be_bytes 4 v))"
| "spec_effect (Open_Prefixed d n) =
     Some (push (Fixed_Length (if n = 1 then 1 else if n = 2 then 2 else 3)))"
| "spec_effect (Open_Asn1 d tag) =
     (if tag AND 0x1f = 0x1f then None else Some (push Der_Length \<circ> append_top [tag]))"

definition spec_run :: "frame_stack \<Rightarrow> cbb_op \<Rightarrow> frame_stack option" where
  "spec_run s op =
     (if length (fst s) < op_depth op then None
      else case spec_effect op of
          None \<Rightarrow> None
        | Some f \<Rightarrow> map_option f (spec_flush (op_depth op) s))"

fun spec_runs :: "frame_stack \<Rightarrow> cbb_op list \<Rightarrow> frame_stack option" where
  "spec_runs s [] = Some s"
| "spec_runs s (op # ops) = (case spec_run s op of None \<Rightarrow> None | Some s \<Rightarrow> spec_runs s ops)"

lemma be_bytes_u16: "be_bytes 2 (ucast (v :: u16) :: u32) = be_bytes 2 v"
  by (auto simp: be_bytes_def le_bytes_unfold bit_simps intro!: bit_word_eqI)

lemma drop_bit_u16: "drop_bit 16 (ucast (x :: u16) :: u32) = 0"
  by (rule bit_word_eqI) (auto simp: bit_simps dest: bit_imp_le_length)

lemma flush_dead: "length (children c) < d \<Longrightarrow> CBB_flush c d = (False, c)"
  by (simp add: CBB_flush_def)

lemmas cbb_op_defs = CBB_add_bytes_def CBB_add_u8_def CBB_add_u16_def CBB_add_u24_def CBB_add_u32_def
  cbb_add_u_def CBB_add_u8_length_prefixed_def CBB_add_u16_length_prefixed_def
  CBB_add_u24_length_prefixed_def cbb_add_length_prefixed_def CBB_add_asn1_def

lemma run_dead: "length (children c) < op_depth op \<Longrightarrow> \<not> fst (cbb_run c op)"
  by (cases op) (simp_all add: cbb_op_defs flushed_def flush_dead)

lemma run_rejected:
  "spec_effect op = None \<Longrightarrow> \<not> fst (cbb_run c op)"
proof (cases op)
  case (Add_U24 d v)
  moreover assume "spec_effect op = None"
  ultimately have "drop_bit 24 v \<noteq> 0" by (simp add: drop_bit_eq_0_unat split: if_splits)
  then show ?thesis using Add_U24
    by (auto simp: cbb_op_defs flushed_def cbb_buffer_add_u_def store_be_eq split: prod.split bool.split option.split)
next
  case (Open_Asn1 d tag)
  moreover assume "spec_effect op = None"
  ultimately show ?thesis using ucast_tag_and [of tag] by (simp add: CBB_add_asn1_def split: if_splits)
qed (simp_all split: if_splits)

lemma run_implements:
  assumes "cbb_ok c" "solid (base c)" "\<not> buf_error (base c)" "op_depth op \<le> length (children c)"
    and "spec_effect op = Some f" "op_small op"
  shows "implements_spec c (map_option f (spec_flush (op_depth op) (abs_cbb c))) (cbb_run c op)"
proof (cases op)
  case (Flush d)
  then show ?thesis using flush_implements [OF assms(1-3), of d] assms(4,5) by (auto simp: option.map_ident)
next
  case (Add_Bytes d xs)
  then show ?thesis using add_bytes_implements [OF assms(1-3), of d xs] assms(4-6) by auto
next
  case (Add_U8 d v)
  then show ?thesis using add_u8_implements [OF assms(1-3), of d v] assms(4,5) by auto
next
  case (Add_U16 d v)
  then show ?thesis
    using add_u_implements [OF assms(1-3), of d 2 "ucast v"] assms(4,5) drop_bit_u16 [of v]
    by (auto simp: CBB_add_u16_def be_bytes_u16)
next
  case (Add_U24 d v)
  then show ?thesis
    using add_u_implements [OF assms(1-3), of d 3 v] assms(4,5)
    by (auto simp: CBB_add_u24_def drop_bit_eq_0_unat split: if_splits)
next
  case (Add_U32 d v)
  then show ?thesis
    using add_u_implements [OF assms(1-3), of d 4 v] assms(4,5) by (auto simp: CBB_add_u32_def)
next
  case (Open_Prefixed d n)
  then show ?thesis
    using length_prefixed_implements [OF assms(1-3), of d] assms(4,5)
    by (auto simp: CBB_add_u8_length_prefixed_def CBB_add_u16_length_prefixed_def
        CBB_add_u24_length_prefixed_def)
next
  case (Open_Asn1 d tag)
  then show ?thesis
    using add_asn1_implements [OF assms(1-3), of d tag] assms(4,5) by (auto split: if_splits)
qed

lemma run_refines:
  assumes "cbb_ok c" "solid (base c)" "\<not> buf_error (base c)" "cbb_run c op = (ok, c')"
    and "op_small op"
  shows "if ok then spec_run (abs_cbb c) op = Some (abs_cbb c') \<and> cbb_ok c' \<and> \<not> buf_error (base c') \<and>
      solid (base c') \<and> limit (base c') = limit (base c)
    else (\<forall>s. spec_run (abs_cbb c) op = Some s \<longrightarrow> limit (base c) < stack_len s)"
proof (cases "length (children c) < op_depth op \<or> spec_effect op = None")
  case True
  then have "\<not> ok" using run_dead run_rejected assms(4) by (metis fst_conv)
  moreover have "spec_run (abs_cbb c) op = None" using True by (auto simp: spec_run_def abs_cbb_def)
  ultimately show ?thesis by simp
next
  case False
  then obtain f where f: "spec_effect op = Some f" and d: "op_depth op \<le> length (children c)" by auto
  have "spec_run (abs_cbb c) op = map_option f (spec_flush (op_depth op) (abs_cbb c))"
    using f d by (simp add: spec_run_def abs_cbb_def)
  then have "implements_spec c (spec_run (abs_cbb c) op) (ok, c')"
    using run_implements [OF assms(1-3) d f assms(5)] assms(4) by simp
  from implements_specD [OF this] show ?thesis
    using step_limit [of "base c" "base c'"] assms(2) by auto
qed

text \<open>A builder only grows.\<close>

lemma announced_len: "announced k n = Some pre \<Longrightarrow> announce_len k \<le> length pre"
  using length_der_length_pos [of n] by (cases k) (auto simp: Suc_le_eq split: if_splits)

lemma close_grows: "close ks fs = Some y \<Longrightarrow> length fs = Suc (length ks) \<Longrightarrow>
    sum_list (map length fs) + sum_list (map announce_len ks) \<le> length y"
proof (induction ks fs arbitrary: y rule: close.induct)
  case (1 k ks x xs)
  then show ?case using announced_len by (fastforce split: option.splits)
qed (auto simp: length_concat)

lemma spec_flush_grows:
  "spec_flush d (ks, fs) = Some s \<Longrightarrow> length fs = Suc (length ks) \<Longrightarrow> d \<le> length ks \<Longrightarrow>
     stack_len (ks, fs) \<le> stack_len s \<and> length (snd s) = Suc (length (fst s))"
proof -
  assume a: "spec_flush d (ks, fs) = Some s" "length fs = Suc (length ks)" "d \<le> length ks"
  then obtain y where y: "close (drop d ks) (drop d fs) = Some y" "s = (take d ks, take d fs @ [y])"
    by (auto simp: spec_flush_def)
  have "sum_list (map length fs) = sum_list (map length (take d fs)) + sum_list (map length (drop d fs))"
    "sum_list (map announce_len ks) = sum_list (map announce_len (take d ks)) + sum_list (map announce_len (drop d ks))"
    by (metis append_take_drop_id map_append sum_list_append)+
  then show ?thesis
    using close_grows [OF y(1)] y(2) a(2,3) by (simp add: stack_len_def Suc_diff_le)
qed

lemma spec_run_grows:
  assumes "spec_run s op = Some s'" "length (snd s) = Suc (length (fst s))"
  shows "stack_len s \<le> stack_len s' \<and> length (snd s') = Suc (length (fst s'))"
proof -
  obtain f s1 where f: "spec_effect op = Some f" "spec_flush (op_depth op) s = Some s1" "s' = f s1"
      "op_depth op \<le> length (fst s)"
    using assms(1) by (auto simp: spec_run_def split: if_splits option.splits)
  have "stack_len s \<le> stack_len s1 \<and> length (snd s1) = Suc (length (fst s1))"
    using spec_flush_grows [of "op_depth op" "fst s" "snd s" s1] f(2,4) assms(2) by simp
  moreover from this have "stack_len s1 \<le> stack_len (f s1) \<and> length (snd (f s1)) = Suc (length (fst (f s1)))"
    using f(1) by (cases op; cases "snd s1" rule: rev_cases)
      (auto simp: append_top_def push_def stack_len_def split: if_splits)
  ultimately show ?thesis using f(3) by simp
qed

lemma spec_runs_grows:
  "spec_runs s ops = Some s' \<Longrightarrow> length (snd s) = Suc (length (fst s)) \<Longrightarrow>
     stack_len s \<le> stack_len s' \<and> length (snd s') = Suc (length (fst s'))"
proof (induction ops arbitrary: s)
  case (Cons op ops)
  then obtain s1 where "spec_run s op = Some s1" "spec_runs s1 ops = Some s'"
    by (auto split: option.splits)
  with Cons spec_run_grows [of s op s1] show ?case by fastforce
qed simp

lemma abs_cbb_shape: "length (snd (abs_cbb c)) = Suc (length (fst (abs_cbb c)))"
  by (simp add: abs_cbb_def)

lemma runs_refine:
  "cbb_ok c \<Longrightarrow> solid (base c) \<Longrightarrow> \<not> buf_error (base c) \<Longrightarrow> cbb_runs c ops = (ok, c') \<Longrightarrow>
     list_all op_small ops \<Longrightarrow>
     if ok then spec_runs (abs_cbb c) ops = Some (abs_cbb c') \<and> cbb_ok c' \<and> \<not> buf_error (base c') \<and>
       solid (base c') \<and> limit (base c') = limit (base c)
     else (\<forall>s. spec_runs (abs_cbb c) ops = Some s \<longrightarrow> limit (base c) < stack_len s)"
proof (induction ops arbitrary: c)
  case (Cons op ops)
  obtain ok1 c1 where r: "cbb_run c op = (ok1, c1)" by fastforce
  have one: "if ok1 then spec_run (abs_cbb c) op = Some (abs_cbb c1) \<and> cbb_ok c1 \<and> \<not> buf_error (base c1) \<and>
      solid (base c1) \<and> limit (base c1) = limit (base c)
    else (\<forall>s. spec_run (abs_cbb c) op = Some s \<longrightarrow> limit (base c) < stack_len s)"
    using run_refines [OF Cons.prems(1-3) r] Cons.prems(5) by auto
  show ?case
  proof (cases ok1)
    case True
    with one Cons.IH [of c1] Cons.prems(4,5) r show ?thesis by auto
  next
    case False
    have "limit (base c) < stack_len s" if runs: "spec_runs (abs_cbb c) (op # ops) = Some s" for s
    proof -
      obtain s1 where s1: "spec_run (abs_cbb c) op = Some s1" "spec_runs s1 ops = Some s"
        using runs by (cases "spec_run (abs_cbb c) op") simp_all
      then show ?thesis
        using one False spec_run_grows [OF s1(1) abs_cbb_shape] spec_runs_grows [OF s1(2)] by fastforce
    qed
    with False Cons.prems(4) r show ?thesis by auto
  qed
qed simp

text \<open>A program from the first operation to the finished bytes, and the list it stands for.\<close>

definition build :: "cbb \<Rightarrow> cbb_op list \<Rightarrow> u8 list option" where
  "build c ops = (case cbb_runs c ops of (False, _) \<Rightarrow> None | (True, c) \<Rightarrow> CBB_finish c 0 True)"

definition spec_build :: "cbb_op list \<Rightarrow> u8 list option" where
  "spec_build ops =
     (case spec_runs ([], [[]]) ops of None \<Rightarrow> None | Some (ks, fs) \<Rightarrow> close ks fs)"

lemma finish_refines:
  assumes "cbb_ok c" "solid (base c)" "\<not> buf_error (base c)"
  shows "CBB_finish c 0 True =
    (case close (map announce_of (children c)) (snd (abs_cbb c)) of
       None \<Rightarrow> None
     | Some y \<Rightarrow> if length y \<le> limit (base c) then Some y else None)"
proof -
  obtain ok c' where r: "CBB_flush c 0 = (ok, c')" by fastforce
  have i: "implements_spec c (spec_flush 0 (abs_cbb c)) (ok, c')"
    using flush_implements [OF assms, of 0] r by simp
  have s: "spec_flush 0 (abs_cbb c) =
      map_option (\<lambda>y. ([], [y])) (close (map announce_of (children c)) (snd (abs_cbb c)))"
    by (simp add: spec_flush_def abs_cbb_def)
  have ch: "children c' = []" if "ok" using CBB_flush_children [OF assms(1)] r that by fastforce
  show ?thesis
    using i s ch by (auto simp: implements_spec_def CBB_finish_def r abs_cbb_def stack_len_def
        split: option.split if_splits)
qed

definition fresh_cbb :: "nat \<Rightarrow> cbb \<Rightarrow> bool" where
  "fresh_cbb cap c \<longleftrightarrow> cap < 2 ^ 64 \<and>
     (\<exists>m. CBB_init m cap True True (\<lambda>_. True) = Some c \<or> CBB_init_fixed m cap True = Some c)"

lemma fresh_cbb_facts:
  assumes "fresh_cbb cap c"
  shows "cbb_ok c" "solid (base c)" "\<not> buf_error (base c)" "abs_cbb c = ([], [[]])"
  using assms by (auto simp: fresh_cbb_def CBB_init_def CBB_init_fixed_def cbb_init_def cbb_ok_def
      buf_ok_def solid_def abs_cbb_def)

lemma build_fresh:
  assumes "fresh_cbb cap c" "list_all op_small ops"
  shows "build c ops =
    (case spec_build ops of
       None \<Rightarrow> None
     | Some bs \<Rightarrow> if length bs \<le> (if can_resize (base c) then 2 ^ 64 - 1 else cap) then Some bs else None)"
proof -
  note f = fresh_cbb_facts [OF assms(1)]
  have lim: "limit (base c) = (if can_resize (base c) then 2 ^ 64 - 1 else cap)"
    using assms(1) by (auto simp: limit_def fresh_cbb_def CBB_init_def CBB_init_fixed_def cbb_init_def)
  obtain ok c' where r: "cbb_runs c ops = (ok, c')" by fastforce
  note runs = runs_refine [OF f(1-3) r assms(2)]
  show ?thesis
  proof (cases ok)
    case True
    then have "spec_runs ([], [[]]) ops = Some (abs_cbb c')" "cbb_ok c'" "\<not> buf_error (base c')"
      "solid (base c')" "limit (base c') = limit (base c)" using runs f(4) by auto
    then show ?thesis
      unfolding lim [symmetric]
      using True r finish_refines [of c'] by (simp add: build_def spec_build_def abs_cbb_def split: option.split)
  next
    case False
    have "limit (base c) < length bs" if spec: "spec_build ops = Some bs" for bs
    proof -
      obtain ks fs where s: "spec_runs ([], [[]]) ops = Some (ks, fs)" "close ks fs = Some bs"
        using spec by (auto simp: spec_build_def split: option.splits)
      have "limit (base c) < stack_len (ks, fs)" using runs False f(4) s(1) by auto
      also have "\<dots> \<le> length bs"
        using close_grows [OF s(2)] spec_runs_grows [OF s(1)] by (simp add: stack_len_def)
      finally show ?thesis .
    qed
    with False r show ?thesis
      unfolding lim [symmetric] by (auto simp: build_def not_le split: option.split)
  qed
qed

text \<open>
  C17: the builder refines lists of frames. Any sequence of additions, length-prefixed children,
  ASN.1 elements and flushes on a new \<open>CBB\<close>, growable or fixed, finishes with exactly the bytes
  that nested lists give when each child is announced by its length, and it fails exactly when a
  length does not fit its prefix, a value or tag is out of range, a flushed child is used, or the
  bytes do not fit the buffer.
\<close>

theorem builder_refines_frames:
  assumes "fresh_cbb cap c" "list_all op_small ops"
  shows "build c ops =
    (case spec_build ops of
       None \<Rightarrow> None
     | Some bs \<Rightarrow> if length bs \<le> (if can_resize (base c) then 2 ^ 64 - 1 else cap) then Some bs else None)"
  by (rule build_fresh [OF assms])

theorem builder_refines_frames_witness:
  "build (the (CBB_init_fixed (\<lambda>_. 0) 16 True))
     [Open_Asn1 0 0x30, Add_U8 1 5, Open_Prefixed 1 2, Add_Bytes 2 [1, 2], Flush 0, Add_U16 0 0x102] =
   Some [0x30, 5, 5, 0, 2, 1, 2, 1, 2]"
proof -
  let ?c = "the (CBB_init_fixed (\<lambda>_. 0) 16 True)"
  have "fresh_cbb 16 ?c" "\<not> can_resize (base ?c)"
    by (auto simp: fresh_cbb_def CBB_init_fixed_def Let_def)
  moreover have "spec_build [Open_Asn1 0 0x30, Add_U8 1 5, Open_Prefixed 1 2, Add_Bytes 2 [1, 2],
      Flush 0, Add_U16 0 0x102] = Some [0x30, 5, 5, 0, 2, 1, 2, 1, 2]"
    by (simp add: spec_build_def spec_run_def spec_flush_def append_top_def push_def der_length_def
        be_bytes_def le_bytes_unfold)
  ultimately show ?thesis
    by (subst builder_refines_frames [of 16]) simp_all
qed

section \<open>The invariant\<close>

text \<open>A step of any operation, its allocations failing or not.\<close>

definition cbb_step :: "cbb \<Rightarrow> cbb \<Rightarrow> bool" where
  "cbb_step c c' \<longleftrightarrow> cbb_ok c' \<and> buf_step (base c) (base c')"

lemma cbb_step_refl: "cbb_ok c \<Longrightarrow> cbb_step c c"
  by (simp add: cbb_step_def cbb_ok_def)

lemma cbb_step_trans: "cbb_step a b \<Longrightarrow> cbb_step b c \<Longrightarrow> cbb_step a c"
  using buf_step_trans by (auto simp: cbb_step_def)

lemma flush_cbb_step:
  assumes "cbb_ok c"
  shows "cbb_step c (snd (CBB_flush c d))"
proof (cases "length (children c) < d")
  case True
  then show ?thesis using assms by (simp add: CBB_flush_def cbb_step_refl)
next
  case False
  let ?up = "take d (children c)" and ?cs = "drop d (children c)"
  let ?p = "chain_end 0 ?up"
  obtain ok b cs where f: "cbb_flush (base c) ?cs = (ok, b, cs)" using prod_cases3 by blast
  have ch: "chain_ok 0 ?up ?p" "chain_ok ?p ?cs (buf_len (base c))" "buf_ok (base c)"
    using assms chain_ok_split [of 0 ?up ?cs] by (simp_all add: cbb_ok_def)
  show ?thesis
    using flush_step [OF f ch(3,2)] ch(1) False f buf_step_ok [of "base c" b]
    by (simp add: CBB_flush_def cbb_step_def cbb_ok_def chain_ok_split)
qed

lemma flushed_step:
  assumes "cbb_ok c"
    and "\<And>c'. cbb_ok c' \<Longrightarrow> children c' = take d (children c) \<Longrightarrow> cbb_step c' (snd (k c'))"
  shows "cbb_step c (snd (flushed c d k))"
proof -
  obtain ok c' where r: "CBB_flush c d = (ok, c')" by fastforce
  then have s: "cbb_step c c'" using flush_cbb_step [OF assms(1), of d] by simp
  show ?thesis
  proof (cases ok)
    case True
    then have "children c' = take d (children c)" using CBB_flush_children [OF assms(1)] r by simp
    then show ?thesis
      using cbb_step_trans [OF s assms(2)] s r True by (simp add: flushed_def cbb_step_def)
  qed (use s r in \<open>simp add: flushed_def\<close>)
qed

lemma cbb_ok_base:
  "cbb_ok c \<Longrightarrow> buf_step (base c) b \<Longrightarrow> buf_len (base c) \<le> buf_len b \<Longrightarrow> cbb_step c (c\<lparr>base := b\<rparr>)"
  using buf_step_ok by (auto simp: cbb_step_def cbb_ok_def intro: chain_ok_mono)

lemma add_step:
  assumes "cbb_ok c" "n < 2 ^ 64" "cbb_buffer_add (base c) n = (r, b)"
  shows "r = None \<Longrightarrow> cbb_step c (c\<lparr>base := b\<rparr>)"
    "r = Some out \<Longrightarrow> length xs \<le> n \<Longrightarrow> cbb_step c (c\<lparr>base := b\<lparr>buf := store_bytes (buf b) out xs\<rparr>\<rparr>)"
    "r = Some out \<Longrightarrow> out = buf_len (base c) \<and> buf_len b = buf_len (base c) + n"
proof -
  have bok: "buf_ok (base c)" using assms(1) by (simp add: cbb_ok_def)
  note a = add_cases [OF bok assms(2,3)]
  show "r = None \<Longrightarrow> cbb_step c (c\<lparr>base := b\<rparr>)"
    using a(1,2) assms(1) by (intro cbb_ok_base) simp_all
  show "r = Some out \<Longrightarrow> out = buf_len (base c) \<and> buf_len b = buf_len (base c) + n"
    using a(3) by auto
  show "r = Some out \<Longrightarrow> length xs \<le> n \<Longrightarrow> cbb_step c (c\<lparr>base := b\<lparr>buf := store_bytes (buf b) out xs\<rparr>\<rparr>)"
    using a(1) a(3) assms(1) buf_step_ok [OF a(1)]
    by (intro cbb_ok_base buf_step_trans [OF a(1)] buf_step_store) auto
qed

lemma length_prefixed_step:
  assumes "cbb_ok c" "0 < n" "n \<le> 3"
  shows "cbb_step c (snd (cbb_add_length_prefixed c d n))"
  unfolding cbb_add_length_prefixed_def
proof (rule flushed_step [OF assms(1)])
  fix c' assume c': "cbb_ok c'" "children c' = take d (children c)"
  obtain r b where a: "cbb_buffer_add (base c') n = (r, b)" by fastforce
  have "n < 2 ^ 64" using assms(3) by simp
  note s = add_step [OF c'(1) this a]
  show "cbb_step c' (snd (case cbb_buffer_add (base c') n of
         (None, b) \<Rightarrow> (False, c'\<lparr>base := b\<rparr>)
       | (Some prefix_bytes, b) \<Rightarrow>
           (True, c'\<lparr>base := b\<lparr>buf := store_bytes (buf b) prefix_bytes (replicate n 0)\<rparr>,
              children := take d (children c') @ [\<lparr>child_offset = buf_len (base c'),
                pending_len_len = n, pending_is_asn1 = False\<rparr>]\<rparr>)))"
  proof (cases r)
    case (Some out)
    have "chain_ok 0 (children c') (buf_len (base c'))" using c'(1) by (simp add: cbb_ok_def)
    then have "chain_ok 0 (take d (children c')) (buf_len (base c'))" by (rule chain_ok_take)
    then have "chain_ok 0 (take d (children c') @ [\<lparr>child_offset = buf_len (base c'),
        pending_len_len = n, pending_is_asn1 = False\<rparr>]) (buf_len b)"
      using s(3) [OF Some] assms(2,3) chain_ok_end [of 0 "take d (children c')" "buf_len (base c')"]
      by (simp add: chain_ok_split)
    then show ?thesis using s(2) [OF Some, of "replicate n 0"] a Some
      by (simp add: cbb_step_def cbb_ok_def)
  qed (use s(1) a in simp)
qed

lemma add_u_step:
  assumes "cbb_ok c" "n \<le> 4"
  shows "cbb_step c (snd (cbb_add_u c d v n))"
  unfolding cbb_add_u_def
proof (rule flushed_step [OF assms(1)])
  fix c' assume c': "cbb_ok c'" "children c' = take d (children c)"
  obtain r b where a: "cbb_buffer_add (base c') n = (r, b)" by fastforce
  have "n < 2 ^ 64" using assms(2) by simp
  note s = add_step [OF c'(1) this a]
  have err: "cbb_step c' (c'\<lparr>base := b'\<rparr>) \<Longrightarrow> cbb_step c' (c'\<lparr>base := b'\<lparr>buf_error := True\<rparr>\<rparr>)" for b'
    by (auto simp: cbb_step_def cbb_ok_def buf_step_def buf_ok_def)
  show "cbb_step c' (snd (case cbb_buffer_add_u (base c') v n of (ok, b) \<Rightarrow> (ok, c'\<lparr>base := b\<rparr>)))"
  proof (cases "n = 0")
    case False
    then show ?thesis
      using a s(1) s(2) [of _ "be_bytes n v"] err
      by (cases r) (auto simp: cbb_buffer_add_u_def store_be_eq Let_def)
  qed (simp add: cbb_buffer_add_u_def cbb_step_refl c')
qed

lemma add_bytes_step:
  assumes "cbb_ok c" "length xs < 2 ^ 64"
  shows "cbb_step c (snd (CBB_add_bytes c d xs))"
  unfolding CBB_add_bytes_def
proof (rule flushed_step [OF assms(1)])
  fix c' assume c': "cbb_ok c'" "children c' = take d (children c)"
  obtain r b where "cbb_buffer_add (base c') (length xs) = (r, b)" by fastforce
  with add_step [OF c'(1) assms(2) this] show "cbb_step c' (snd (case cbb_buffer_add (base c') (length xs) of
       (None, b) \<Rightarrow> (False, c'\<lparr>base := b\<rparr>)
     | (Some dest, b) \<Rightarrow> (True, c'\<lparr>base := b\<lparr>buf := store_bytes (buf b) dest xs\<rparr>\<rparr>)))"
    by (simp split: option.split)
qed

lemma add_space_step:
  assumes "cbb_ok c" "n < 2 ^ 64"
  shows "cbb_step c (snd (CBB_add_space c d n))"
  unfolding CBB_add_space_def
proof (rule flushed_step [OF assms(1)])
  fix c' assume c': "cbb_ok c'" "children c' = take d (children c)"
  obtain r b where "cbb_buffer_add (base c') n = (r, b)" by fastforce
  with add_step(1) [OF c'(1) assms(2) this] add_step(2) [OF c'(1) assms(2) this, of _ "[]"]
  show "cbb_step c' (snd (case cbb_buffer_add (base c') n of
       (None, b) \<Rightarrow> (False, c'\<lparr>base := b\<rparr>) | (Some _, b) \<Rightarrow> (True, c'\<lparr>base := b\<rparr>)))"
    by (simp split: option.split)
qed

lemma reserve_step:
  assumes "cbb_ok c" "n < 2 ^ 64"
  shows "cbb_step c (snd (CBB_reserve c d n))"
  unfolding CBB_reserve_def
proof (rule flushed_step [OF assms(1)])
  fix c' assume c': "cbb_ok c'" "children c' = take d (children c)"
  then have bok: "buf_ok (base c')" by (simp add: cbb_ok_def)
  obtain r b where r: "cbb_buffer_reserve (base c') n = (r, b)" by fastforce
  note f = reserve_cases [OF bok assms(2) r]
  have "buf_len b = buf_len (base c')" using f(2,3) by (cases r) auto
  with cbb_ok_base [OF c'(1) f(1)] r
  show "cbb_step c' (snd (case cbb_buffer_reserve (base c') n of
       (None, b) \<Rightarrow> (False, c'\<lparr>base := b\<rparr>) | (Some _, b) \<Rightarrow> (True, c'\<lparr>base := b\<rparr>)))"
    by (simp split: option.split)
qed

lemma did_write_step: "cbb_ok c \<Longrightarrow> cbb_step c (snd (CBB_did_write c d n))"
  by (auto simp: CBB_did_write_def Let_def cbb_step_def cbb_ok_def buf_step_def buf_ok_def
      intro: chain_ok_mono)

lemma discard_step:
  assumes "cbb_ok c"
  shows "cbb_step c (CBB_discard_child c d)"
proof (cases "d < length (children c)")
  case True
  have "chain_ok 0 (take d (children c) @ (children c ! d) # drop (Suc d) (children c)) (buf_len (base c))"
    using assms True by (simp add: cbb_ok_def id_take_nth_drop [symmetric])
  then have ch: "chain_ok 0 (take d (children c)) (chain_end 0 (take d (children c)))"
      "chain_end 0 (take d (children c)) \<le> child_offset (children c ! d)"
      "child_offset (children c ! d) \<le> buf_len (base c)"
    using chain_ok_le [of "child_offset (children c ! d) + pending_len_len (children c ! d)"
        "drop (Suc d) (children c)" "buf_len (base c)"] by (auto simp: chain_ok_split)
  then have "chain_ok 0 (take d (children c)) (child_offset (children c ! d))"
    by (blast intro: chain_ok_mono)
  note this ch(3)
  then show ?thesis using assms True
    by (simp add: CBB_discard_child_def cbb_step_def cbb_ok_def buf_step_def buf_ok_def)
qed (simp add: CBB_discard_child_def assms cbb_step_refl)

lemma flush_no_error: "cbb_ok c \<Longrightarrow> CBB_flush c d = (True, c') \<Longrightarrow> \<not> buf_error (base c')"
proof -
  assume a: "cbb_ok c" "CBB_flush c d = (True, c')"
  then obtain b cs where f: "cbb_flush (base c) (drop d (children c)) = (True, b, cs)" "base c' = b"
    by (auto simp: CBB_flush_def split: if_splits prod.splits)
  have "chain_ok (chain_end 0 (take d (children c))) (drop d (children c)) (buf_len (base c))" "buf_ok (base c)"
    using a(1) chain_ok_split [of 0 "take d (children c)" "drop d (children c)"] by (simp_all add: cbb_ok_def)
  then show ?thesis using flush_step [OF f(1)] f(2) by simp
qed

lemma add_u8_ok:
  assumes "cbb_ok c" "CBB_add_u8 c d x = (True, c')"
  shows "\<not> buf_error (base c')" "children c' = take d (children c)" "cbb_step c c'"
proof -
  show "cbb_step c c'" using add_u_step [OF assms(1), of 1 d "ucast x"] assms(2) by (simp add: CBB_add_u8_def)
  obtain c0 where f: "CBB_flush c d = (True, c0)" "(case cbb_buffer_add_u (base c0) (ucast x) 1 of
      (ok, b) \<Rightarrow> (ok, c0\<lparr>base := b\<rparr>)) = (True, c')"
    using assms(2) by (auto simp: CBB_add_u8_def cbb_add_u_def flushed_def split: prod.splits bool.splits)
  obtain r b where a: "cbb_buffer_add (base c0) 1 = (r, b)" by fastforce
  have ok: "buf_ok (base c0)" using flush_cbb_step [OF assms(1), of d] f(1) by (simp add: cbb_step_def cbb_ok_def)
  have ch: "children c0 = take d (children c)" "\<not> buf_error (base c0)"
    using CBB_flush_children [OF assms(1) f(1)] flush_no_error [OF assms(1) f(1)] by simp_all
  show "\<not> buf_error (base c')" "children c' = take d (children c)"
    using f(2) a add_cases(3) [OF ok _ a] ch
    by (auto simp: cbb_buffer_add_u_def store_bytes_single drop_bit_u8 split: option.splits)
qed

lemma add_asn1_step:
  assumes "cbb_ok c"
  shows "cbb_step c (snd (CBB_add_asn1 c d tag))"
proof (cases "length (children c) < d \<or> 0xff < tag \<or> tag AND 0x1f = 0x1f")
  case True
  then show ?thesis using assms cbb_step_refl [OF assms] buf_step_error
    by (auto simp: CBB_add_asn1_def cbb_step_def cbb_ok_def buf_step_def buf_ok_def)
next
  case False
  have "cbb_step c (snd (flushed c d (\<lambda>c.
          case CBB_add_u8 c d (ucast tag) of
            (False, c) \<Rightarrow> (False, c)
          | (True, c) \<Rightarrow>
              (case CBB_add_u8 c d 0 of
                (False, c2) \<Rightarrow> (False, c2)
              | (True, c2) \<Rightarrow>
                  (True, c2\<lparr>children := take d (children c2) @ [\<lparr>child_offset = buf_len (base c),
                    pending_len_len = 1, pending_is_asn1 = True\<rparr>]\<rparr>)))))"
  proof (rule flushed_step [OF assms(1)])
    fix c' assume c': "cbb_ok c'" "children c' = take d (children c)"
    then have d: "d = length (children c')" using False by simp
    obtain ok1 c1 where r1: "CBB_add_u8 c' d (ucast tag) = (ok1, c1)" by fastforce
    have s1: "cbb_step c' c1" using add_u_step [OF c'(1), of 1 d] r1 by (metis CBB_add_u8_def one_le_numeral snd_conv)
    show "cbb_step c' (snd (case CBB_add_u8 c' d (ucast tag) of
            (False, c) \<Rightarrow> (False, c)
          | (True, c) \<Rightarrow>
              (case CBB_add_u8 c d 0 of
                (False, c2) \<Rightarrow> (False, c2)
              | (True, c2) \<Rightarrow>
                  (True, c2\<lparr>children := take d (children c2) @ [\<lparr>child_offset = buf_len (base c),
                    pending_len_len = 1, pending_is_asn1 = True\<rparr>]\<rparr>))))"
    proof (cases ok1)
      case True
      then have r1: "CBB_add_u8 c' d (ucast tag) = (True, c1)" using r1 by simp
      note k1 = add_u8_ok [OF c'(1) r1]
      have c1: "cbb_ok c1" using s1 by (simp add: cbb_step_def)
      have d1: "d = length (children c1)" using k1(2) d by simp
      obtain r b where a: "cbb_buffer_add (base c1) 1 = (r, b)" by fastforce
      note s = add_step [OF c1 _ a]
      show ?thesis
      proof (cases r)
        case None
        then show ?thesis using r1 a s(1) d1 k1(1) cbb_step_trans [OF s1] by (simp add: add_u8_top)
      next
        case (Some out)
        have "chain_ok 0 (children c1) (buf_len (base c1))" using c1 by (simp add: cbb_ok_def)
        then have "chain_ok 0 (children c1 @ [\<lparr>child_offset = buf_len (base c1),
            pending_len_len = 1, pending_is_asn1 = True\<rparr>]) (buf_len b)"
          using s(3) [OF _ Some] chain_ok_end [of 0 "children c1" "buf_len (base c1)"]
          by (simp add: chain_ok_split)
        then show ?thesis
          using r1 a Some s(2) [OF _ Some, of "[0]"] d1 k1(1)
            cbb_step_trans [OF s1, of "c1\<lparr>base := b\<lparr>buf := store_bytes (buf b) out [0]\<rparr>, children := children c1 @ [\<lparr>child_offset = buf_len (base c1),
            pending_len_len = 1, pending_is_asn1 = True\<rparr>]\<rparr>"]
          by (simp add: add_u8_top cbb_step_def cbb_ok_def)
      qed
    qed (use r1 s1 in simp)
  qed
  then show ?thesis using False unfolding CBB_add_asn1_def Let_def by simp
qed

lemma add_u8_step: "cbb_ok c \<Longrightarrow> cbb_step c (snd (CBB_add_u8 c d x))"
  by (simp add: CBB_add_u8_def add_u_step)

text \<open>Sequencing of steps that may fail.\<close>

lemma step_bind:
  assumes "cbb_step c (snd p)" "\<And>c'. cbb_ok c' \<Longrightarrow> p = (True, c') \<Longrightarrow> cbb_step c' (snd (k c'))"
  shows "cbb_step c (snd (case p of (False, c') \<Rightarrow> (False, c') | (True, c') \<Rightarrow> k c'))"
  using assms cbb_step_trans
  by (cases p) (auto simp: cbb_step_def split: bool.split intro: buf_step_trans)

lemma uint64_bytes_step: "cbb_ok c \<Longrightarrow> cbb_step c (snd (snd (uint64_bytes bs started c d)))"
proof (induction bs started c d rule: uint64_bytes.induct)
  case (2 byte bs started c d)
  show ?case
  proof (cases "\<not> started \<and> byte = 0")
    case False
    let ?p = "if \<not> started \<and> byte AND 0x80 \<noteq> 0 then CBB_add_u8 c d 0 else (True, c)"
    obtain ok1 c1 where p: "?p = (ok1, c1)" by fastforce
    have s1: "cbb_step c c1" using p add_u8_step [OF 2(3), of d 0] cbb_step_refl [OF 2(3)]
      by (auto split: if_splits)
    then have "cbb_ok c1" by (simp add: cbb_step_def)
    obtain ok2 c2 where r: "CBB_add_u8 c1 d byte = (ok2, c2)" by fastforce
    have s2: "cbb_step c c2" using add_u8_step [OF \<open>cbb_ok c1\<close>, of d byte] r cbb_step_trans [OF s1] by simp
    then have "cbb_ok c2" by (simp add: cbb_step_def)
    then show ?thesis using False p r s1 s2 2(2) [OF False] cbb_step_trans [OF s2]
      by (cases ok1; cases ok2) auto
  qed (use 2 in simp)
qed (simp add: cbb_step_refl)

lemma add_asn1_uint64_step:
  assumes "cbb_ok c"
  shows "cbb_step c (snd (CBB_add_asn1_uint64 c d v))"
  unfolding CBB_add_asn1_uint64_def
proof (rule step_bind [OF add_asn1_step [OF assms]])
  fix c' assume c': "cbb_ok c'"
  let ?bs = "map (\<lambda>i. ucast (drop_bit (8 * (7 - i)) v AND 0xff)) [0..<8]"
  obtain ok started c2 where u: "uint64_bytes ?bs False c' (Suc d) = (ok, started, c2)" using prod_cases3 by blast
  have s: "cbb_step c' c2" using uint64_bytes_step [OF c', of ?bs False "Suc d"] u by simp
  then have c2: "cbb_ok c2" by (simp add: cbb_step_def)
  have "cbb_step c2 (snd (if \<not> started then CBB_add_u8 c2 (Suc d) 0 else (True, c2)))"
    using add_u8_step [OF c2] cbb_step_refl [OF c2] by simp
  from step_bind [OF this, of "\<lambda>c. CBB_flush c d"] flush_cbb_step
  have "cbb_step c2 (snd (case (if \<not> started then CBB_add_u8 c2 (Suc d) 0 else (True, c2)) of
      (False, c) \<Rightarrow> (False, c) | (True, c) \<Rightarrow> CBB_flush c d))" by blast
  with s show "cbb_step c' (snd (case uint64_bytes ?bs False c' (Suc d) of
      (False, _, c) \<Rightarrow> (False, c)
    | (True, started, c) \<Rightarrow>
        (case (if \<not> started then CBB_add_u8 c (Suc d) 0 else (True, c)) of
           (False, c) \<Rightarrow> (False, c) | (True, c) \<Rightarrow> CBB_flush c d)))"
    using cbb_step_trans [OF s] u by (cases ok) auto
qed

lemma base128_loop_step: "cbb_ok c \<Longrightarrow> cbb_step c (snd (base128_loop n c d v))"
proof (induction n c d v rule: base128_loop.induct)
  case (2 i c d v)
  show ?case
    unfolding base128_loop.simps Let_def
    by (rule step_bind [OF add_u8_step [OF 2(2)]]) (rule 2(1) [OF refl refl], auto)
qed (simp add: cbb_step_refl)

lemma add_base128_step: "cbb_ok c \<Longrightarrow> cbb_step c (snd (add_base128_integer c d v))"
  by (simp add: add_base128_integer_def Let_def base128_loop_step)

lemma oid_components_step: "cbb_ok c \<Longrightarrow> cbb_step c (snd (oid_components c d str))"
proof (induction c d str rule: oid_components.induct)
  case (1 c d str)
  show ?case
  proof (cases "str = []")
    case False
    obtain r rest where p: "parse_dotted_decimal str = (r, rest)" by fastforce
    show ?thesis
    proof (cases r)
      case (Some a)
      have "cbb_step c (snd (case add_base128_integer c d a of
          (False, c) \<Rightarrow> (False, c) | (True, c) \<Rightarrow> oid_components c d rest))"
        using 1(1) [OF False] p Some by (intro step_bind [OF add_base128_step [OF 1(2)]]) fastforce
      then show ?thesis using False p Some by (subst oid_components.simps) simp
    qed (use 1(2) False p in \<open>subst oid_components.simps, simp add: cbb_step_refl\<close>)
  qed (use 1(2) in \<open>subst oid_components.simps, simp add: cbb_step_refl\<close>)
qed

lemma oid_from_text_step: "cbb_ok c \<Longrightarrow> cbb_step c (snd (CBB_add_asn1_oid_from_text c d str))"
proof -
  assume c: "cbb_ok c"
  have tail: "cbb_step c' (snd (case add_base128_integer c' d w of
      (False, c) \<Rightarrow> (False, c) | (True, c) \<Rightarrow> oid_components c d rest))" if "cbb_ok c'" for c' w rest
    by (intro step_bind add_base128_step oid_components_step that)
  show ?thesis
    unfolding CBB_add_asn1_oid_from_text_def
  proof (rule step_bind [OF flush_cbb_step [OF c]])
    fix c' assume "cbb_ok c'"
    note [simp] = tail [OF this] cbb_step_refl [OF this]
    show "cbb_step c' (snd (case parse_dotted_decimal str of
          (None, _) \<Rightarrow> (False, c')
        | (Some a, str) \<Rightarrow>
            (case parse_dotted_decimal str of
               (None, _) \<Rightarrow> (False, c')
             | (Some b, str) \<Rightarrow>
                 if 2 < a \<or> (a < 2 \<and> 39 < b) \<or> 0xFFFFFFFF - 80 < b then (False, c')
                 else
                   (case add_base128_integer c' d (40 * a + b) of
                      (False, c) \<Rightarrow> (False, c) | (True, c) \<Rightarrow> oid_components c d str))))"
      by (simp split: option.split prod.split del: split_paired_All)
  qed
qed

text \<open>The states a client of the builder can reach, whatever the allocations and the results.\<close>

inductive builder_reach :: "cbb \<Rightarrow> cbb \<Rightarrow> bool" for c0 where
  start: "builder_reach c0 c0"
| run: "builder_reach c0 c \<Longrightarrow> op_small op \<Longrightarrow> builder_reach c0 (snd (cbb_run c op))"
| space: "builder_reach c0 c \<Longrightarrow> n < 2 ^ 64 \<Longrightarrow> builder_reach c0 (snd (CBB_add_space c d n))"
| reserve: "builder_reach c0 c \<Longrightarrow> n < 2 ^ 64 \<Longrightarrow> builder_reach c0 (snd (CBB_reserve c d n))"
| did_write: "builder_reach c0 c \<Longrightarrow> builder_reach c0 (snd (CBB_did_write c d n))"
| discard: "builder_reach c0 c \<Longrightarrow> builder_reach c0 (CBB_discard_child c d)"
| uint64: "builder_reach c0 c \<Longrightarrow> builder_reach c0 (snd (CBB_add_asn1_uint64 c d v))"
| oid: "builder_reach c0 c \<Longrightarrow> builder_reach c0 (snd (CBB_add_asn1_oid_from_text c d str))"

lemma run_step: "cbb_ok c \<Longrightarrow> op_small op \<Longrightarrow> cbb_step c (snd (cbb_run c op))"
  by (cases op) (simp_all add: flush_cbb_step add_bytes_step add_u8_step add_u_step length_prefixed_step
      add_asn1_step CBB_add_u16_def CBB_add_u24_def CBB_add_u32_def CBB_add_u8_length_prefixed_def
      CBB_add_u16_length_prefixed_def CBB_add_u24_length_prefixed_def)

lemma reach_step: "builder_reach c0 c \<Longrightarrow> cbb_ok c0 \<Longrightarrow> cbb_step c0 c"
proof (induction rule: builder_reach.induct)
  case start
  then show ?case by (rule cbb_step_refl)
qed (meson cbb_step_def cbb_step_trans run_step add_space_step reserve_step did_write_step
    discard_step add_asn1_uint64_step oid_from_text_step)+

text \<open>
  C18: whatever a client does with a builder and whatever the allocator answers, the bytes counted
  as valid lie in the buffer, the pending prefixes lie in order inside them, a fixed buffer keeps
  its size, nothing at or behind the end of the buffer is written, and an error stays.
\<close>

theorem builder_invariant:
  assumes "builder_reach c0 c" "cbb_ok c0"
  shows "buf_len (base c) \<le> buf_cap (base c) \<and> chain_ok 0 (children c) (buf_len (base c)) \<and>
    (\<not> can_resize (base c0) \<longrightarrow> buf_cap (base c) = buf_cap (base c0)) \<and>
    (\<forall>a \<ge> buf_cap (base c). buf (base c) a = buf (base c0) a) \<and>
    (buf_error (base c0) \<longrightarrow> buf_error (base c))"
  using reach_step [OF assms] by (auto simp: cbb_step_def cbb_ok_def buf_ok_def buf_step_def)

lemma fresh_fixed: "fresh_cbb 16 (the (CBB_init_fixed (\<lambda>_. 0) 16 True))"
  by (auto simp: fresh_cbb_def CBB_init_fixed_def Let_def)

theorem builder_invariant_witness:
  "\<exists>c. builder_reach (the (CBB_init_fixed (\<lambda>_. 0) 16 True)) c \<and> children c \<noteq> [] \<and> buf_cap (base c) = 16"
proof -
  let ?c = "the (CBB_init_fixed (\<lambda>_. 0) 16 True)"
  let ?r = "snd (cbb_run ?c (Open_Prefixed 0 2))"
  have "builder_reach ?c ?r" by (intro builder_reach.run builder_reach.start) simp
  moreover have "\<not> can_resize (base ?c)" "buf_cap (base ?c) = 16"
    by (simp_all add: CBB_init_fixed_def Let_def cbb_init_def)
  moreover have "children ?r \<noteq> []"
    by (simp add: CBB_init_fixed_def Let_def cbb_init_def CBB_add_u16_length_prefixed_def
        cbb_add_length_prefixed_def flushed_def CBB_flush_def cbb_buffer_add_def cbb_buffer_reserve_def)
  ultimately show ?thesis
    using builder_invariant [OF _ fresh_cbb_facts(1) [OF fresh_fixed], of ?r] by metis
qed

lemma flush_error: "buf_error (base c) \<Longrightarrow> \<not> fst (CBB_flush c d)"
  by (cases "drop d (children c)") (auto simp: CBB_flush_def)

lemma finish_error: "buf_error (base c) \<Longrightarrow> CBB_finish c d out = None"
  using flush_error [of c 0] by (auto simp: CBB_finish_def split: prod.split bool.split)

text \<open>
  C19: after an error, and whatever the client goes on to do, every operation that adds bytes, opens a child,
  flushes, or asks for room fails, and the builder never finishes: no partly written message is given out. The
  one operation with a result that does not look at the error is \<open>CBB_did_write\<close>: it succeeds or fails as it
  would without the error, and what it counts as written is never given out either.
\<close>

theorem builder_error_is_final:
  assumes "builder_reach c c'" "cbb_ok c" "buf_error (base c)"
  shows "\<not> fst (cbb_run c' op) \<and> \<not> fst (CBB_add_asn1_uint64 c' d v) \<and>
    \<not> fst (CBB_add_asn1_oid_from_text c' d str) \<and> \<not> fst (CBB_add_space c' d n) \<and> \<not> fst (CBB_reserve c' d n) \<and>
    CBB_finish c' d out = None \<and> CBB_finish (snd (CBB_did_write c' d n)) d out = None \<and>
    fst (CBB_did_write c' d n) = fst (CBB_did_write (c'\<lparr>base := (base c')\<lparr>buf_error := False\<rparr>\<rparr>) d n)"
proof -
  have e: "buf_error (base c')" using reach_step [OF assms(1,2)] assms(3)
    unfolding cbb_step_def buf_step_def by blast
  obtain g where f: "\<And>d. CBB_flush c' d = (False, g d)"
    using flush_error [OF e] that [of "\<lambda>d. snd (CBB_flush c' d)"] by (simp add: prod_eq_iff)
  then have fl: "flushed c' d k = (False, g d)" for d k by (simp add: flushed_def)
  have asn1: "\<not> fst (CBB_add_asn1 c' d tag)" for d tag
    by (simp add: CBB_add_asn1_def fl)
  moreover have "\<not> fst (cbb_run c' op)"
    using asn1 by (cases op) (simp_all add: f fl CBB_add_bytes_def CBB_add_u8_def CBB_add_u16_def
        CBB_add_u24_def CBB_add_u32_def cbb_add_u_def CBB_add_u8_length_prefixed_def
        CBB_add_u16_length_prefixed_def CBB_add_u24_length_prefixed_def cbb_add_length_prefixed_def)
  moreover have "\<not> fst (CBB_add_asn1_uint64 c' d v)"
    using asn1 [of d CBS_ASN1_INTEGER]
    by (cases "CBB_add_asn1 c' d CBS_ASN1_INTEGER") (simp add: CBB_add_asn1_uint64_def)
  moreover have "buf_error (base (snd (CBB_did_write c' d n)))" using e by (simp add: CBB_did_write_def Let_def)
  then have "CBB_finish (snd (CBB_did_write c' d n)) d out = None" by (rule finish_error)
  ultimately show ?thesis
    by (simp add: CBB_add_asn1_oid_from_text_def CBB_finish_def f fl CBB_add_space_def CBB_reserve_def
        CBB_did_write_def Let_def)
qed

theorem builder_error_is_final_witness:
  "\<not> fst (CBB_add_asn1_uint64 (snd (CBB_add_u8_length_prefixed (snd (CBB_add_asn1
     (the (CBB_init_fixed (\<lambda>_. 0) 16 True)) 0 0x1f)) 0)) 0 5)"
proof -
  let ?c = "the (CBB_init_fixed (\<lambda>_. 0) 16 True)"
  let ?e = "snd (CBB_add_asn1 ?c 0 0x1f)"
  have "cbb_ok ?e"
    using add_asn1_step [OF fresh_cbb_facts(1) [OF fresh_fixed]] by (simp add: cbb_step_def)
  moreover have "buf_error (base ?e)" by (simp add: CBB_add_asn1_def)
  moreover have "builder_reach ?e (snd (cbb_run ?e (Open_Prefixed 0 1)))"
    by (intro builder_reach.run builder_reach.start) simp
  ultimately show ?thesis using builder_error_is_final [of ?e] by simp
qed

end
