(* ===== verification/Cbb_Der.thy ===== *)
theory Cbb_Der
  imports Cbb_Spec
begin

text \<open>
  Builder and parser together: the integer that \<open>CBB_add_asn1_uint64\<close> writes is the one that
  \<open>CBS_get_asn1_uint64\<close> reads, and a tree of elements written with nested children is read back
  by descending with \<open>CBS_get_any_asn1\<close>.
\<close>

section \<open>Integers\<close>

lemma implements_fail: "implements_spec c (Some s) (False, c1) \<Longrightarrow> stack_len s \<le> stack_len t \<Longrightarrow>
    implements_spec c (Some t) (False, c1)"
  by (auto simp: implements_spec_def split: if_splits)

lemma implements_trans:
  assumes "implements_spec c (Some s) (True, c1)" "implements_spec c1 (Some t) r"
  shows "implements_spec c (Some t) r"
  using implements_specD [OF assms(1)] assms(2) step_limit [of "base c" "base c1"]
    buf_step_trans [of "base c" "base c1"]
  by (auto simp: implements_spec_def split: if_splits)

lemma implements_ok:
  assumes "implements_spec c (Some s) (True, c1)" "solid (base c)"
  shows "cbb_ok c1" "solid (base c1)" "\<not> buf_error (base c1)" "abs_cbb c1 = s"
  using implements_specD [OF assms(1)] assms(2) step_limit [of "base c" "base c1"] by auto

lemma implements_skip:
  "cbb_ok c \<Longrightarrow> \<not> buf_error (base c) \<Longrightarrow> implements_spec c (Some (abs_cbb c)) (True, c)"
  by (auto simp: implements_spec_def cbb_ok_def stack_len_abs_cbb buf_ok_limit)

lemma append_top_append: "append_top ys (append_top xs s) = append_top (xs @ ys) s"
  by (cases "snd s" rule: rev_cases) (auto simp: append_top_def)

lemma append_top_Nil: "snd s \<noteq> [] \<Longrightarrow> append_top [] s = s"
  by (cases s; cases "snd s" rule: rev_cases) (auto simp: append_top_def)

lemma add_u8_at_top:
  assumes "cbb_ok c" "solid (base c)" "\<not> buf_error (base c)" "length (children c) = d"
  shows "implements_spec c (Some (append_top [x] (abs_cbb c))) (CBB_add_u8 c d x)"
  using add_u8_implements [OF assms(1-3), of d x] spec_flush_top [of c] assms(4) by simp

text \<open>The bytes the loop writes.\<close>

fun uint_bytes :: "u8 list \<Rightarrow> bool \<Rightarrow> u8 list" where
  "uint_bytes [] started = []"
| "uint_bytes (b # bs) started =
     (if \<not> started \<and> b = 0 then uint_bytes bs False
      else (if \<not> started \<and> b AND 0x80 \<noteq> 0 then [0] else []) @ b # uint_bytes bs True)"

lemma uint_bytes_started: "uint_bytes bs True = bs"
  by (induction bs) auto

lemma abs_depth: "length (fst (abs_cbb c)) = length (children c)"
  by (simp add: abs_cbb_def)

lemma uint64_bytes_implements:
  "cbb_ok c \<Longrightarrow> solid (base c) \<Longrightarrow> \<not> buf_error (base c) \<Longrightarrow> length (children c) = d \<Longrightarrow>
     uint64_bytes bs started c d = (ok, st, c') \<Longrightarrow>
     implements_spec c (Some (append_top (uint_bytes bs started) (abs_cbb c))) (ok, c') \<and>
     (ok \<longrightarrow> st = (started \<or> (\<exists>b\<in>set bs. b \<noteq> 0)))"
proof (induction bs started c d arbitrary: ok st c' rule: uint64_bytes.induct)
  case (1 started c d)
  then show ?case by (auto simp: append_top_Nil implements_skip)
next
  case (2 byte bs started c d)
  show ?case
  proof (cases "\<not> started \<and> byte = 0")
    case True
    then show ?thesis using 2 by simp
  next
    case False
    let ?pad = "\<not> started \<and> byte AND 0x80 \<noteq> 0"
    let ?x = "if ?pad then [0] else []" and ?a = "abs_cbb c"
    have ne: "snd (abs_cbb c) \<noteq> []" by simp
    obtain ok1 c1 where p: "(if ?pad then CBB_add_u8 c d 0 else (True, c)) = (ok1, c1)" by fastforce
    have i1: "implements_spec c (Some (append_top ?x ?a)) (ok1, c1)"
    proof (cases ?pad)
      case True
      then show ?thesis using p add_u8_at_top [OF 2(3-6), of 0] by simp
    next
      case False
      then show ?thesis using p 2(3-5) by (auto simp: append_top_Nil implements_skip)
    qed
    obtain ok2 c2 where r: "CBB_add_u8 c1 d byte = (ok2, c2)" by fastforce
    let ?t = "append_top (uint_bytes (byte # bs) started) ?a"
    have t: "?t = append_top (uint_bytes bs True) (append_top [byte] (append_top ?x ?a))"
      using False by (auto simp: append_top_append)
    show ?thesis
    proof (cases ok1)
      case f: False
      have "stack_len (append_top ?x ?a) \<le> stack_len ?t"
        unfolding t using stack_len_append_top_le le_trans by blast
      then show ?thesis using 2(7) False p f implements_fail [of c _ c1] i1 by auto
    next
      case True
      note i1 = i1 [unfolded eqTrueI [OF True]]
      note c1 = implements_ok [OF i1 2(4)]
      have d1: "length (children c1) = d" using c1(4) abs_depth [of c1] abs_depth [of c] 2(6)
        by (simp add: append_top_def)
      have i2: "implements_spec c1 (Some (append_top [byte] (abs_cbb c1))) (ok2, c2)"
        using add_u8_at_top [OF c1(1-3) d1, of byte] r by simp
      show ?thesis
      proof (cases ok2)
        case f: False
        have "stack_len (append_top [byte] (abs_cbb c1)) \<le> stack_len ?t"
          unfolding t c1(4) by (rule stack_len_append_top_le)
        then have "implements_spec c (Some ?t) (False, c2)"
          using implements_trans [OF i1] implements_fail [of c1 _ c2] i2 f by auto
        then show ?thesis using 2(7) False p r f True by auto
      next
        case ok2: True
        note i2 = i2 [unfolded eqTrueI [OF ok2]]
        note c2 = implements_ok [OF i2 c1(2)]
        have d2: "length (children c2) = d" using c2(4) abs_depth [of c2] abs_depth [of c1] d1
          by (simp add: append_top_def)
        have u: "uint64_bytes bs True c2 d = (ok, st, c')"
          using 2(7) False p r True ok2 by (auto split: if_splits)
        have "implements_spec c2 (Some (append_top (uint_bytes bs True) (abs_cbb c2))) (ok, c') \<and>
            (ok \<longrightarrow> st = (True \<or> (\<exists>b\<in>set bs. b \<noteq> 0)))"
          using 2(2) [OF False p [symmetric] eqTrueI [OF True] r [symmetric] eqTrueI [OF ok2] c2(1-3) d2 u] .
        then show ?thesis
          using implements_trans [OF i1 implements_trans [OF i2]] t c1(4) c2(4) False by auto
      qed
    qed
  qed
qed

lemma uint_bytes_nat: "(\<exists>b\<in>set bs. b \<noteq> 0) \<Longrightarrow> uint_bytes bs False = uint_contents (be_nat bs)"
proof (induction bs)
  case (Cons b bs)
  show ?case
  proof (cases "b = 0")
    case True
    then show ?thesis using Cons by simp
  next
    case False
    then have "base256 (be_nat (b # bs)) = b # bs" by (intro base256_be_nat) auto
    then show ?thesis using False by (auto simp: uint_contents_def uint_bytes_started low_byte not_less)
  qed
qed simp

lemma be_nat_zeros: "\<not> (\<exists>b\<in>set bs. b \<noteq> 0) \<Longrightarrow> uint_bytes bs False = [] \<and> be_nat bs = 0"
  by (induction bs) auto

lemma uint64_digits:
  "map (\<lambda>i. ucast (drop_bit (8 * (7 - i)) v AND 0xff)) [0..<8] = be_bytes 8 (v :: u64)"
proof -
  have "ucast (drop_bit n v AND 0xff) = (ucast (drop_bit n v) :: u8)" for n
  proof -
    have "drop_bit n v AND 0xff = take_bit 8 (drop_bit n v)"
      by (simp add: take_bit_eq_mask mask_eq_exp_minus_1)
    then show ?thesis by (simp only:) (rule bit_word_eqI, auto simp: bit_simps)
  qed
  then show ?thesis by (simp add: be_bytes_def le_bytes_unfold upt_rec)
qed

lemma be_nat_digits: "be_nat (be_bytes 8 (v :: u64)) = unat v"
  using unsigned_less [of v, where 'a = nat] by (simp add: be_nat_be_bytes)

lemma spec_flush_push:
  assumes "length (snd s) = Suc (length (fst s))" "length xs \<le> 0xfffffffe"
  shows "spec_flush (length (fst s)) (append_top xs (push Der_Length (append_top ys s))) =
      Some (append_top (ys @ der_length (length xs) @ xs) s)"
  using assms by (cases s; cases "snd s" rule: rev_cases)
    (auto simp: spec_flush_def push_def append_top_def butlast_append)

lemma contents_implements:
  assumes "cbb_ok c" "solid (base c)" "\<not> buf_error (base c)" "length (children c) = d"
    and "uint64_bytes (be_bytes 8 (v :: u64)) False c d = (ok, started, c')"
  shows "implements_spec c (Some (append_top (uint_contents (unat v)) (abs_cbb c)))
    (if ok then (if \<not> started then CBB_add_u8 c' d 0 else (True, c')) else (False, c'))"
proof -
  note u = uint64_bytes_implements [OF assms]
  show ?thesis
  proof (cases "\<exists>b\<in>set (be_bytes 8 v). b \<noteq> 0")
    case True
    then show ?thesis using u uint_bytes_nat [OF True] be_nat_digits [of v] by auto
  next
    case False
    then have z: "uint_bytes (be_bytes 8 v) False = []" "uint_contents (unat v) = [0]"
      using be_nat_zeros [OF False] be_nat_digits [of v]
      by (simp_all add: uint_contents_def base256.simps)
    show ?thesis
    proof (cases ok)
      case f: False
      then show ?thesis
        using u z implements_fail [of c "abs_cbb c" c'] stack_len_append_top_le by (simp add: append_top_Nil)
    next
      case True
      have i: "implements_spec c (Some (abs_cbb c)) (True, c')" using u z True by (simp add: append_top_Nil)
      note c' = implements_ok [OF i assms(2)]
      have "length (children c') = d" using abs_depth [of c] abs_depth [of c'] c'(4) assms(4) by simp
      then show ?thesis
        using implements_trans [OF i add_u8_at_top [OF c'(1-3)]] u True False c'(4) z by simp
    qed
  qed
qed

lemma length_uint64_contents: "length (uint_contents (unat (v :: u64))) \<le> 9"
  using length_uint_contents [of "unat v" 8] unsigned_less [of v, where 'a = nat] by simp

lemma add_uint64_implements:
  assumes "cbb_ok c" "solid (base c)" "\<not> buf_error (base c)" "d \<le> length (children c)"
  shows "implements_spec c (map_option (append_top (der_element 2 (uint_contents (unat v))))
      (spec_flush d (abs_cbb c))) (CBB_add_asn1_uint64 c d v)"
proof -
  let ?xs = "uint_contents (unat v)"
  obtain ok1 c1 where r1: "CBB_add_asn1 c d CBS_ASN1_INTEGER = (ok1, c1)" by fastforce
  have i1: "implements_spec c (map_option (push Der_Length \<circ> append_top [2]) (spec_flush d (abs_cbb c))) (ok1, c1)"
    using add_asn1_implements [OF assms, of 2] r1 by simp
  show ?thesis
  proof (cases "spec_flush d (abs_cbb c)")
    case None
    then show ?thesis using i1 r1 by (auto simp: CBB_add_asn1_uint64_def implements_spec_def)
  next
    case (Some s)
    have shape: "length (snd s) = Suc (length (fst s))" "length (fst s) = d"
      using Some assms(4) by (auto simp: spec_flush_def abs_cbb_def)
    let ?s1 = "push Der_Length (append_top [2] s)" and ?t = "append_top (der_element 2 ?xs) s"
    have ne: "snd s \<noteq> []" "snd ?s1 \<noteq> []" using shape by (auto simp: push_def)
    have le: "stack_len ?s1 \<le> stack_len ?t" "stack_len (append_top ?xs ?s1) \<le> stack_len ?t"
      using ne length_der_length_pos [of "length ?xs"]
      by (simp_all add: length_der_element Suc_le_eq) 
    have i1: "implements_spec c (Some ?s1) (ok1, c1)" using i1 Some by simp
    show ?thesis
    proof (cases ok1)
      case False
      then show ?thesis using i1 implements_fail [OF _ le(1)] r1 Some
        by (simp add: CBB_add_asn1_uint64_def)
    next
      case True
      then have i1: "implements_spec c (Some ?s1) (True, c1)" using i1 by simp
      note c1 = implements_ok [OF i1 assms(2)]
      have d1: "length (children c1) = Suc d" using abs_depth [of c1] c1(4) shape by (simp add: push_def append_top_def)
      obtain ok st c2 where u: "uint64_bytes (be_bytes 8 v) False c1 (Suc d) = (ok, st, c2)"
        using prod_cases3 by blast
      obtain ok3 c3 where r3: "(if ok then (if \<not> st then CBB_add_u8 c2 (Suc d) 0 else (True, c2)) else (False, c2)) = (ok3, c3)"
        by fastforce
      have i3: "implements_spec c (Some (append_top ?xs ?s1)) (ok3, c3)"
        using implements_trans [OF i1 contents_implements [OF c1(1-3) d1 u]] r3 c1(4) by simp
      have op: "CBB_add_asn1_uint64 c d v = (if ok3 then CBB_flush c3 d else (False, c3))"
        using r1 True u r3 unfolding CBB_add_asn1_uint64_def uint64_digits
        by (cases ok; cases st) (auto split: bool.splits if_splits)
      show ?thesis
      proof (cases ok3)
        case False
        then show ?thesis using op i3 implements_fail [OF _ le(2)] Some by simp
      next
        case True
        then have i3: "implements_spec c (Some (append_top ?xs ?s1)) (True, c3)" using i3 by simp
        note c3 = implements_ok [OF i3 assms(2)]
        have "d \<le> length (children c3)"
          using abs_depth [of c3] c3(4) shape by (simp add: push_def append_top_def)
        from flush_implements [OF c3(1-3) this]
        have "implements_spec c3 (Some ?t) (CBB_flush c3 d)"
          using spec_flush_push [OF shape(1), of ?xs "[2]"] length_uint64_contents [of v] c3(4) shape(2)
          by (simp add: der_element_def)
        with implements_trans [OF i3 this] op True Some show ?thesis by simp
      qed
    qed
  qed
qed

text \<open>
  The integer written by \<open>CBB_add_asn1_uint64\<close> on a new builder with room for eleven bytes is
  the one that \<open>CBS_get_asn1_uint64\<close> reads back, for every 64-bit value.
\<close>

theorem uint64_roundtrip:
  assumes "fresh_cbb cap c" "can_resize (base c) \<or> 11 \<le> cap"
  shows "\<exists>c' bs. CBB_add_asn1_uint64 c 0 v = (True, c') \<and> CBB_finish c' 0 True = Some bs \<and>
    fst (CBS_get_asn1_uint64 (mem_of bs) (CBS_init 0 (length bs))) = Some v"
proof -
  note f = fresh_cbb_facts [OF assms(1)]
  let ?bs = "der_element 2 (uint_contents (unat v))"
  obtain ok c' where r: "CBB_add_asn1_uint64 c 0 v = (ok, c')" by fastforce
  have len: "length ?bs \<le> 11"
    using length_uint64_contents [of v] by (simp add: length_der_element der_length_def)
  have lim: "11 \<le> limit (base c)"
    using assms by (auto simp: limit_def fresh_cbb_def CBB_init_def CBB_init_fixed_def cbb_init_def)
  have "implements_spec c (Some ([], [?bs])) (ok, c')"
    using add_uint64_implements [OF f(1-3), of 0 v] r f(4) by (simp add: spec_flush_def append_top_def)
  moreover have "stack_len ([], [?bs]) \<le> limit (base c)" using len lim by (simp add: stack_len_def)
  ultimately have i: "implements_spec c (Some ([], [?bs])) (True, c')" "ok"
    by (auto simp: implements_spec_def)
  note c' = implements_ok [OF i(1) f(2)]
  have "limit (base c') = limit (base c)" using implements_specD [OF i(1)] step_limit by blast
  then have "CBB_finish c' 0 True = Some ?bs"
    using finish_refines [OF c'(1-3)] c'(4) len lim abs_depth [of c'] by simp
  moreover have "fst (CBS_get_asn1_uint64 (mem_of ?bs) (CBS_init 0 (length ?bs))) = Some v"
    by (rule asn1_uint64_reads [where rest = "[]"]) simp
  moreover have "CBB_add_asn1_uint64 c 0 v = (True, c')" using r i(2) by simp
  ultimately show ?thesis by blast
qed

theorem uint64_roundtrip_witness:
  "\<exists>c' bs. CBB_add_asn1_uint64 (the (CBB_init_fixed (\<lambda>_. 0) 16 True)) 0 0x80 = (True, c') \<and>
     CBB_finish c' 0 True = Some bs \<and>
     fst (CBS_get_asn1_uint64 (mem_of bs) (CBS_init 0 (length bs))) = Some 0x80"
  by (rule uint64_roundtrip [OF fresh_fixed]) simp

section \<open>Trees of elements\<close>

datatype der = Primitive u8 "u8 list" | Constructed u8 "der list"

fun der_bytes :: "der \<Rightarrow> u8 list" where
  "der_bytes (Primitive tag xs) = der_element tag xs"
| "der_bytes (Constructed tag ts) = der_element tag (concat (map der_bytes ts))"

text \<open>The calls that write a tree into the builder at depth \<open>d\<close>, and a reader that descends into
  the elements with the constructed bit.\<close>

fun der_ops :: "nat \<Rightarrow> der \<Rightarrow> cbb_op list" where
  "der_ops d (Primitive tag xs) = [Open_Asn1 d tag, Add_Bytes (Suc d) xs]"
| "der_ops d (Constructed tag ts) = Open_Asn1 d tag # concat (map (der_ops (Suc d)) ts)"

fun der_read :: "nat \<Rightarrow> mem \<Rightarrow> cbs \<Rightarrow> der list option" where
  "der_read 0 m c = None"
| "der_read (Suc n) m c =
     (if CBS_len c = 0 then Some []
      else case CBS_get_any_asn1 m c of
          (None, _) \<Rightarrow> None
        | (Some (out, tag), c) \<Rightarrow>
            (case (if tag AND CBS_ASN1_CONSTRUCTED = 0 then Some (Primitive (ucast tag) (cbs_bytes m out))
                   else map_option (Constructed (ucast tag)) (der_read n m out)) of
               None \<Rightarrow> None
             | Some t \<Rightarrow> map_option ((#) t) (der_read n m c)))"

fun der_size :: "der \<Rightarrow> nat" where
  "der_size (Primitive tag xs) = 1"
| "der_size (Constructed tag ts) = Suc (sum_list (map der_size ts) + length ts)"

text \<open>Single-byte tags with the right constructed bit and contents below 4 GiB.\<close>

fun der_ok :: "der \<Rightarrow> bool" where
  "der_ok (Primitive tag xs) \<longleftrightarrow> tag AND 0x1f \<noteq> 0x1f \<and> tag AND 0x20 = 0 \<and> length xs \<le> 0xfffffffe"
| "der_ok (Constructed tag ts) \<longleftrightarrow> tag AND 0x1f \<noteq> 0x1f \<and> tag AND 0x20 \<noteq> 0 \<and> list_all der_ok ts \<and>
     length (concat (map der_bytes ts)) \<le> 0xfffffffe"

text \<open>A stack whose frame at depth \<open>d\<close> has the contents \<open>x\<close> once the frames below are closed.\<close>

definition stack_at :: "nat \<Rightarrow> frame_stack \<Rightarrow> announce list \<Rightarrow> u8 list list \<Rightarrow> u8 list \<Rightarrow> bool" where
  "stack_at d s ks fs x \<longleftrightarrow> length (snd s) = Suc (length (fst s)) \<and> d \<le> length (fst s) \<and>
     spec_flush d s = Some (ks, fs @ [x])"

lemma stack_at_depth: "stack_at d s ks fs x \<Longrightarrow> length ks = d \<and> length fs = d"
  by (cases s) (auto simp: stack_at_def spec_flush_def)

lemma stack_at_open:
  assumes "stack_at d s ks fs x" "tag AND 0x1f \<noteq> 0x1f"
  shows "spec_run s (Open_Asn1 d tag) = Some (ks @ [Der_Length], fs @ [x @ [tag], []])"
    "stack_at (Suc d) (ks @ [Der_Length], fs @ [x @ [tag], []]) (ks @ [Der_Length]) (fs @ [x @ [tag]]) []"
  using assms stack_at_depth [OF assms(1)]
  by (auto simp: stack_at_def spec_run_def append_top_def push_def spec_flush_def)

lemma spec_flush_flush:
  assumes "length fs = Suc (length ks)" "d < length ks"
  shows "spec_flush d (ks, fs) = Option.bind (spec_flush (Suc d) (ks, fs)) (spec_flush d)"
proof -
  have "drop d ks = ks ! d # drop (Suc d) ks" "drop d fs = fs ! d # drop (Suc d) fs"
    using assms by (simp_all add: Cons_nth_drop_Suc)
  moreover have "take (Suc d) ks = take d ks @ [ks ! d]" "take (Suc d) fs = take d fs @ [fs ! d]"
    using assms by (simp_all add: take_Suc_conv_app_nth)
  ultimately show ?thesis using assms
    by (auto simp: spec_flush_def min_def split: option.split bind_splits)
qed

lemma stack_at_close:
  assumes "stack_at (Suc d) s (ks @ [Der_Length]) (fs @ [x @ [tag]]) y" "length ks = d" "length y \<le> 0xfffffffe"
  shows "stack_at d s ks fs (x @ der_element tag y)"
proof -
  have s: "length (snd s) = Suc (length (fst s))" "Suc d \<le> length (fst s)" "length fs = d"
      "spec_flush (Suc d) s = Some (ks @ [Der_Length], fs @ [x @ [tag], y])"
    using assms(1) stack_at_depth [OF assms(1)] by (auto simp: stack_at_def)
  have "spec_flush d s = spec_flush d (ks @ [Der_Length], fs @ [x @ [tag], y])"
    using spec_flush_flush [of "snd s" "fst s" d] s by simp
  also have "\<dots> = Some (ks, fs @ [x @ der_element tag y])"
    using assms(2,3) s(3) by (simp add: spec_flush_def der_element_def)
  finally show ?thesis using s by (simp add: stack_at_def)
qed

lemma spec_runs_append: "spec_runs s (xs @ ys) = Option.bind (spec_runs s xs) (\<lambda>s. spec_runs s ys)"
  by (induction xs arbitrary: s) (auto split: option.split)

lemma der_ops_write:
  "der_ok t \<Longrightarrow> stack_at d s ks fs x \<Longrightarrow>
     \<exists>s'. spec_runs s (der_ops d t) = Some s' \<and> stack_at d s' ks fs (x @ der_bytes t)"
proof (induction d t arbitrary: s ks fs x rule: der_ops.induct)
  case (1 d tag xs)
  note o = stack_at_open [OF 1(2), of tag] and dp = stack_at_depth [OF 1(2)]
  let ?s = "(ks @ [Der_Length], fs @ [x @ [tag], xs])"
  have "stack_at (Suc d) ?s (ks @ [Der_Length]) (fs @ [x @ [tag]]) xs"
    using dp by (simp add: stack_at_def spec_flush_def)
  then have "stack_at d ?s ks fs (x @ der_element tag xs)"
    using stack_at_close 1(1) dp by simp
  moreover have "spec_run (ks @ [Der_Length], fs @ [x @ [tag], []]) (Add_Bytes (Suc d) xs) = Some ?s"
    using dp by (simp add: spec_run_def spec_flush_def append_top_def butlast_append)
  ultimately show ?case using o 1(1) by simp
next
  case (2 d tag ts)
  note o = stack_at_open [OF 2(3), of tag] and dp = stack_at_depth [OF 2(3)]
  have "list_all der_ok us \<Longrightarrow> set us \<subseteq> set ts \<Longrightarrow>
      stack_at (Suc d) s1 (ks @ [Der_Length]) (fs @ [x @ [tag]]) y \<Longrightarrow>
      \<exists>s2. spec_runs s1 (concat (map (der_ops (Suc d)) us)) = Some s2 \<and>
        stack_at (Suc d) s2 (ks @ [Der_Length]) (fs @ [x @ [tag]]) (y @ concat (map der_bytes us))" for us s1 y
  proof (induction us arbitrary: s1 y)
    case (Cons u us)
    have "u \<in> set ts" "der_ok u" using Cons.prems by auto
    from 2(1) [OF this Cons.prems(3)] obtain s2 where
      "spec_runs s1 (der_ops (Suc d) u) = Some s2"
      "stack_at (Suc d) s2 (ks @ [Der_Length]) (fs @ [x @ [tag]]) (y @ der_bytes u)" by blast
    with Cons.IH [of s2 "y @ der_bytes u"] Cons.prems show ?case by (simp add: spec_runs_append)
  qed simp
  from this [of ts, OF _ _ o(2)] obtain s2 where
    "spec_runs (ks @ [Der_Length], fs @ [x @ [tag], []]) (concat (map (der_ops (Suc d)) ts)) = Some s2"
    "stack_at (Suc d) s2 (ks @ [Der_Length]) (fs @ [x @ [tag]]) (concat (map der_bytes ts))"
    using 2(2) by auto
  then show ?case using o(1) 2(2) stack_at_close [of d s2 ks fs x tag] dp by auto
qed

lemma get_any_element:
  assumes "tag AND 0x1f \<noteq> 0x1f" "length xs \<le> 0xfffffffe" "cbs_bytes m c = der_element tag xs @ rest"
  shows "\<exists>out c'. CBS_get_any_asn1 m c = (Some (out, ucast tag), c') \<and> cbs_bytes m out = xs \<and>
    cbs_bytes m c' = rest"
proof -
  have "length xs < 2 ^ 32" using assms(2) by simp
  note h = der_element_header [OF assms(1) this assms(3)]
  then show ?thesis
    by (simp add: CBS_get_any_asn1_eq length_der_element assms(3))
qed

lemma ucast_and_0x20: "ucast (tag :: u8) AND (0x20 :: u32) = 0 \<longleftrightarrow> tag AND 0x20 = 0"
proof -
  have "ucast tag AND 0x20 = (ucast (tag AND 0x20) :: u32)"
    by (rule bit_word_eqI) (auto simp: bit_simps dest: bit_imp_le_length)
  then show ?thesis using ucast_byte_inj [of "tag AND 0x20" 0] by simp
qed

lemma der_read_bytes:
  "list_all der_ok ts \<Longrightarrow> cbs_bytes m c = concat (map der_bytes ts) \<Longrightarrow>
     sum_list (map der_size ts) + length ts < n \<Longrightarrow> der_read n m c = Some ts"
proof (induction n arbitrary: ts c)
  case (Suc n)
  show ?case
  proof (cases ts)
    case Nil
    then show ?thesis using Suc.prems length_cbs_bytes [of m c] by (simp add: CBS_len_def)
  next
    case (Cons t us)
    obtain tag xs where t: "der_bytes t = der_element tag xs" "tag AND 0x1f \<noteq> 0x1f" "length xs \<le> 0xfffffffe"
        "case t of Primitive g ys \<Rightarrow> g = tag \<and> ys = xs \<and> tag AND 0x20 = 0
         | Constructed g ts \<Rightarrow> g = tag \<and> xs = concat (map der_bytes ts) \<and> tag AND 0x20 \<noteq> 0"
      using Suc.prems(1) Cons by (cases t) auto
    have b: "cbs_bytes m c = der_element tag xs @ concat (map der_bytes us)"
      using Suc.prems(2) Cons t(1) by simp
    from get_any_element [OF t(2,3) b] obtain out c' where g:
      "CBS_get_any_asn1 m c = (Some (out, ucast tag), c')" "cbs_bytes m out = xs"
      "cbs_bytes m c' = concat (map der_bytes us)" by blast
    have c0: "CBS_len c \<noteq> 0" using b length_cbs_bytes [of m c] by (simp add: CBS_len_def der_element_def)
    have rest: "der_read n m c' = Some us"
      using Suc.IH [of us c'] Suc.prems Cons g(3) by simp
    show ?thesis
    proof (cases t)
      case (Primitive g ys)
      then show ?thesis using t(4) g(1,2) c0 rest Cons by (simp add: ucast_and_0x20)
    next
      case (Constructed g vs)
      have "der_read n m out = Some vs"
        using Suc.IH [of vs out] Suc.prems Cons Constructed t(4) g(2) by simp
      then show ?thesis using t(4) g(1,2) c0 rest Cons Constructed by (simp add: ucast_and_0x20)
    qed
  qed
qed simp

lemma der_ops_small: "der_ok t \<Longrightarrow> list_all op_small (der_ops d t)"
  by (induction d t rule: der_ops.induct) (auto simp: list_all_iff)

text \<open>
  C20: a tree of ASN.1 elements written with nested children into a builder with room for it is
  finished as its DER encoding, all lengths filled in afterwards and moved into the long form where
  needed, and descending into that encoding with \<open>CBS_get_any_asn1\<close> gives the tree back.
\<close>

theorem der_tree_roundtrip:
  assumes "fresh_cbb cap c" "der_ok t" "can_resize (base c) \<or> length (der_bytes t) \<le> cap"
  shows "build c (der_ops 0 t) = Some (der_bytes t) \<and>
    der_read (der_size t + 2) (mem_of (der_bytes t)) (CBS_init 0 (length (der_bytes t))) = Some [t]"
proof
  have "stack_at 0 ([], [[]]) [] [] []" by (simp add: stack_at_def spec_flush_def)
  from der_ops_write [OF assms(2) this] obtain s where s: "spec_runs ([], [[]]) (der_ops 0 t) = Some s"
    "stack_at 0 s [] [] (der_bytes t)" by auto
  then have "spec_build (der_ops 0 t) = Some (der_bytes t)"
    by (cases s) (auto simp: spec_build_def stack_at_def spec_flush_def)
  moreover have "length (der_bytes t) \<le> 2 ^ 64 - 1"
  proof -
    obtain tag xs where t: "der_bytes t = der_element tag xs" "length xs \<le> 0xfffffffe"
      using assms(2) by (cases t) auto
    moreover have "length (der_length (length xs)) \<le> 5"
      using octets_le_4 [of "length xs"] t(2) by (simp add: der_length_def)
    ultimately show ?thesis by (simp add: length_der_element)
  qed
  ultimately show "build c (der_ops 0 t) = Some (der_bytes t)"
    using build_fresh [OF assms(1) der_ops_small [OF assms(2)]] assms(3) by auto
  show "der_read (der_size t + 2) (mem_of (der_bytes t)) (CBS_init 0 (length (der_bytes t))) = Some [t]"
    using assms(2) by (intro der_read_bytes) simp_all
qed

theorem der_tree_roundtrip_witness:
  "build (the (CBB_init_fixed (\<lambda>_. 0) 16 True))
     (der_ops 0 (Constructed 0x30 [Primitive 2 [1], Constructed 0x31 [Primitive 4 []]])) =
   Some [0x30, 7, 2, 1, 1, 0x31, 2, 4, 0]"
proof -
  have bs: "der_bytes (Constructed 0x30 [Primitive 2 [1], Constructed 0x31 [Primitive 4 []]]) =
      [0x30, 7, 2, 1, 1, 0x31, 2, 4, 0]"
    by (simp add: der_element_def der_length_def)
  let ?t = "Constructed 0x30 [Primitive 2 [1], Constructed 0x31 [Primitive 4 []]]"
  have "der_ok ?t" by (simp add: der_element_def der_length_def)
  moreover have "length (der_bytes ?t) \<le> 16" by (simp only: bs) simp
  ultimately show ?thesis
    unfolding bs [symmetric] by (intro conjunct1 [OF der_tree_roundtrip [OF fresh_fixed]] disjI2)
qed

end
