(* ===== verification/Ber.thy ===== *)
theory Ber
  imports Cbb_Der
begin

text \<open>
  The conversion of BER to DER, \<open>crypto/bytestring/ber.c\<close>: a walk over the elements that looks for what DER
  does not allow, and a conversion that reads with the parser and writes with the builder. The input is in
  one memory, the buffer of the builder in another.
\<close>

section \<open>Model\<close>

definition kMaxDepth :: nat where "kMaxDepth = 2048"

text \<open>The tag numbers of \<open>CBS_ASN1_BITSTRING\<close>, \<open>CBS_ASN1_OCTETSTRING\<close> and the character strings.\<close>

definition is_string_type :: "u32 \<Rightarrow> bool" where
  "is_string_type tag \<longleftrightarrow> tag AND 0xc0 = 0 \<and>
     tag AND 0x1f \<in> {0x3, 0x4, 0xc, 0x12, 0x13, 0x14, 0x15, 0x16, 0x19, 0x1a, 0x1b, 0x1c, 0x1e}"

text \<open>The test for an element of indefinite length.\<close>

definition is_indefinite :: "mem \<Rightarrow> nat \<Rightarrow> cbs \<Rightarrow> bool" where
  "is_indefinite m header_len contents \<longleftrightarrow>
     CBS_len contents = header_len \<and> 0 < header_len \<and> m (CBS_data contents + (header_len - 1)) = 0x80"

lemma ber_element_shrinks:
  assumes "CBS_get_any_ber_asn1_element m c = (Some (contents, tag, header_len), c')"
  shows "CBS_len c' < CBS_len c" "CBS_skip contents header_len = (True, d) \<Longrightarrow> CBS_len d < CBS_len c"
proof -
  have "CBS_len c' < CBS_len c \<and> (CBS_skip contents header_len = (True, d) \<longrightarrow> CBS_len d < CBS_len c)"
  proof (cases "cbs_bytes m c" rule: der_header.cases)
    case (1 t lb bs)
    then have "2 \<le> cbs_len c" using length_cbs_bytes [of m c] by simp
    then show ?thesis using assms 1
      by (auto simp: CBS_get_any_ber_asn1_element_def element_cases long_element_eq asn1_take_eq CBS_len_def
          CBS_skip_eq der_long_def Let_def split: if_splits option.splits)
  qed (use assms length_cbs_bytes [of m c] in \<open>auto simp: CBS_get_any_ber_asn1_element_def element_short\<close>)
  then show "CBS_len c' < CBS_len c" "CBS_skip contents header_len = (True, d) \<Longrightarrow> CBS_len d < CBS_len c"
    by simp_all
qed

text \<open>\<open>found\<close> is \<open>*ber_found\<close>, which every call sets to zero first; the result is its value at the end.\<close>

function cbs_find_ber :: "mem \<Rightarrow> cbs \<Rightarrow> bool \<Rightarrow> nat \<Rightarrow> bool option" where
  "cbs_find_ber m inp found depth =
     (if kMaxDepth < depth then None
      else if CBS_len inp = 0 then Some found
      else case CBS_get_any_ber_asn1_element m inp of
          (None, _) \<Rightarrow> None
        | (Some (contents, tag, header_len), inp') \<Rightarrow>
            if is_indefinite m header_len contents then Some True
            else if tag AND CBS_ASN1_CONSTRUCTED \<noteq> 0 then
              if is_string_type tag then Some True
              else
                (case CBS_skip contents header_len of
                   (False, _) \<Rightarrow> None
                 | (True, contents) \<Rightarrow>
                     (case cbs_find_ber m contents False (Suc depth) of
                        None \<Rightarrow> None
                      | Some found \<Rightarrow> cbs_find_ber m inp' found depth))
            else cbs_find_ber m inp' found depth)"
  by pat_completeness auto
termination
  by (relation "measure (\<lambda>(m, inp, found, depth). CBS_len inp)") (auto dest: ber_element_shrinks(1) [OF sym] ber_element_shrinks(2) [OF sym sym])

declare cbs_find_ber.simps [simp del]

definition is_eoc :: "mem \<Rightarrow> nat \<Rightarrow> cbs \<Rightarrow> bool" where
  "is_eoc m header_len contents \<longleftrightarrow> header_len = 2 \<and> CBS_len contents = 2 \<and> cbs_bytes m contents = [0, 0]"

text \<open>
  \<open>out\<close> is the handle at depth \<open>d\<close> of the builder. The loop is the recursion at the same depth; the other
  recursive calls are those of the code. \<open>None\<close> would be a call that does not return.
\<close>

partial_function (option) cbs_convert_ber ::
    "mem \<Rightarrow> cbs \<Rightarrow> cbb \<Rightarrow> nat \<Rightarrow> u32 \<Rightarrow> bool \<Rightarrow> nat \<Rightarrow> (bool \<times> cbs \<times> cbb) option" where
  "cbs_convert_ber m inp out d string_tag looking_for_eoc depth =
     (if kMaxDepth < depth then Some (False, inp, out)
      else if CBS_len inp = 0 then Some (\<not> looking_for_eoc, inp, out)
      else case CBS_get_any_ber_asn1_element m inp of
          (None, inp) \<Rightarrow> Some (False, inp, out)
        | (Some (contents, tag, header_len), inp) \<Rightarrow>
            if is_eoc m header_len contents then Some (looking_for_eoc, inp, out)
            else if string_tag \<noteq> 0 \<and> tag AND NOT CBS_ASN1_CONSTRUCTED \<noteq> string_tag then Some (False, inp, out)
            else
              let string = (string_tag = 0 \<and> tag AND CBS_ASN1_CONSTRUCTED \<noteq> 0 \<and> is_string_type tag);
                  out_tag = (if string then tag AND NOT CBS_ASN1_CONSTRUCTED else tag);
                  child_string_tag = (if string then out_tag else string_tag);
                  added = (if string_tag \<noteq> 0 then (True, out) else CBB_add_asn1 out d out_tag);
                  out_contents = (if string_tag \<noteq> 0 then d else Suc d) in
              if \<not> fst added then Some (False, inp, snd added)
              else if is_indefinite m header_len contents then
                Option.bind (cbs_convert_ber m inp (snd added) out_contents child_string_tag True (Suc depth))
                  (\<lambda>(ok, inp, out).
                    if \<not> ok then Some (False, inp, out)
                    else
                      let flushed = CBB_flush out d in
                      if \<not> fst flushed then Some (False, inp, snd flushed)
                      else cbs_convert_ber m inp (snd flushed) d string_tag looking_for_eoc depth)
              else
                let skipped = CBS_skip contents header_len in
                if \<not> fst skipped then Some (False, inp, snd added)
                else
                  Option.bind
                    (if tag AND CBS_ASN1_CONSTRUCTED \<noteq> 0 then
                       cbs_convert_ber m (snd skipped) (snd added) out_contents child_string_tag False (Suc depth)
                     else
                       let wrote = CBB_add_bytes (snd added) out_contents (cbs_bytes m (snd skipped)) in
                       Some (fst wrote, snd skipped, snd wrote))
                    (\<lambda>(ok, _, out).
                      if \<not> ok then Some (False, inp, out)
                      else
                        let flushed = CBB_flush out d in
                        if \<not> fst flushed then Some (False, inp, snd flushed)
                        else cbs_convert_ber m inp (snd flushed) d string_tag looking_for_eoc depth))"

text \<open>
  The outer \<open>None\<close> is a call that does not return, the next one a failure; \<open>Some None\<close> sets \<open>*out\<close> to
  \<open>NULL\<close>. The parameters are those of \<open>CBB_init\<close>.
\<close>

definition CBS_asn1_ber_to_der ::
    "mem \<Rightarrow> cbs \<Rightarrow> mem \<Rightarrow> bool \<Rightarrow> bool \<Rightarrow> (nat \<Rightarrow> bool) \<Rightarrow> (u8 list option option \<times> cbs) option" where
  "CBS_asn1_ber_to_der m inp m0 buf_alloc base_alloc alloc =
     (case cbs_find_ber m inp False 0 of
        None \<Rightarrow> Some (None, inp)
      | Some conversion_needed \<Rightarrow>
          if \<not> conversion_needed then Some (Some None, inp)
          else
            (case CBB_init m0 (CBS_len inp) buf_alloc base_alloc alloc of
               None \<Rightarrow> Some (None, inp)
             | Some cbb \<Rightarrow>
                 Option.bind (cbs_convert_ber m inp cbb 0 0 False 0) (\<lambda>(ok, inp, cbb).
                   if \<not> ok then Some (None, inp)
                   else
                     case CBB_finish cbb 0 True of
                       None \<Rightarrow> Some (None, inp)
                     | Some out \<Rightarrow> Some (Some (Some out), inp))))"

lemma get_asn1_shrinks: "CBS_get_asn1 m c t = (Some out, c') \<Longrightarrow> CBS_len c' < CBS_len c"
  by (auto simp: CBS_get_asn1_eq CBS_len_def dest!: der_header_Some split: option.splits if_splits)

function implicit_chunks :: "mem \<Rightarrow> cbs \<Rightarrow> u32 \<Rightarrow> cbb \<Rightarrow> bool \<times> cbb" where
  "implicit_chunks m child inner_tag result =
     (if CBS_len child = 0 then (True, result)
      else case CBS_get_asn1 m child inner_tag of
          (None, _) \<Rightarrow> (False, result)
        | (Some chunk, child) \<Rightarrow>
            (case CBB_add_bytes result 0 (cbs_bytes m chunk) of
               (False, result) \<Rightarrow> (False, result)
             | (True, result) \<Rightarrow> implicit_chunks m child inner_tag result))"
  by pat_completeness auto
termination
  by (relation "measure (\<lambda>(m, child, inner_tag, result). CBS_len child)") (auto dest: get_asn1_shrinks [OF sym])

declare implicit_chunks.simps [simp del]

text \<open>\<open>Inl\<close> is a part of the input, without storage; \<open>Inr\<close> are the bytes in \<open>*out_storage\<close>.\<close>

definition CBS_get_asn1_implicit_string ::
    "mem \<Rightarrow> cbs \<Rightarrow> u32 \<Rightarrow> u32 \<Rightarrow> mem \<Rightarrow> bool \<Rightarrow> bool \<Rightarrow> (nat \<Rightarrow> bool) \<Rightarrow> (cbs + u8 list) option \<times> cbs" where
  "CBS_get_asn1_implicit_string m inp outer_tag inner_tag m0 buf_alloc base_alloc alloc =
     (if CBS_peek_asn1_tag m inp outer_tag then
        (case CBS_get_asn1 m inp outer_tag of (out, inp) \<Rightarrow> (map_option Inl out, inp))
      else
        case CBB_init m0 (CBS_len inp) buf_alloc base_alloc alloc of
          None \<Rightarrow> (None, inp)
        | Some result \<Rightarrow>
            (case CBS_get_asn1 m inp (outer_tag OR CBS_ASN1_CONSTRUCTED) of
               (None, inp) \<Rightarrow> (None, inp)
             | (Some child, inp) \<Rightarrow>
                 (case implicit_chunks m child inner_tag result of
                    (False, _) \<Rightarrow> (None, inp)
                  | (True, result) \<Rightarrow>
                      (case CBB_finish result 0 True of
                         None \<Rightarrow> (None, inp)
                       | Some data \<Rightarrow> (Some (Inr data), inp)))))"

section \<open>Elements in BER\<close>

datatype ber = Prim u8 "u8 list" | Def u8 "ber list" | Indef u8 "ber list"

fun ber_bytes :: "ber \<Rightarrow> u8 list" where
  "ber_bytes (Prim tag xs) = der_element tag xs"
| "ber_bytes (Def tag ts) = der_element tag (concat (map ber_bytes ts))"
| "ber_bytes (Indef tag ts) = tag # 0x80 # concat (map ber_bytes ts) @ [0, 0]"

abbreviation string_tag :: "u8 \<Rightarrow> bool" where
  "string_tag tag \<equiv> is_string_type (ucast tag)"

text \<open>The pieces of a constructed string.\<close>

fun fragments :: "ber \<Rightarrow> u8 list" where
  "fragments (Prim tag xs) = xs"
| "fragments (Def tag ts) = concat (map fragments ts)"
| "fragments (Indef tag ts) = concat (map fragments ts)"

text \<open>What the conversion makes of an element: definite lengths, and the pieces of a constructed string joined in a
  primitive one.\<close>

fun normal :: "ber \<Rightarrow> ber" where
  "normal (Prim tag xs) = Prim tag xs"
| "normal (Def tag ts) =
     (if string_tag tag then Prim (tag AND NOT 0x20) (concat (map fragments ts)) else Def tag (map normal ts))"
| "normal (Indef tag ts) =
     (if string_tag tag then Prim (tag AND NOT 0x20) (concat (map fragments ts)) else Def tag (map normal ts))"

text \<open>The nesting of the constructed elements.\<close>

fun height :: "ber \<Rightarrow> nat" where
  "height (Prim tag xs) = 0"
| "height (Def tag ts) = Suc (Max (insert 0 (height ` set ts)))"
| "height (Indef tag ts) = Suc (Max (insert 0 (height ` set ts)))"

lemma height_le: "height (Def tag ts) \<le> Suc n \<longleftrightarrow> (\<forall>t \<in> set ts. height t \<le> n)"
  "height (Indef tag ts) \<le> Suc n \<longleftrightarrow> (\<forall>t \<in> set ts. height t \<le> n)"
  by auto

text \<open>
  Well-formed elements: single-byte tags with the right constructed bit, lengths of four bytes at most, no
  end-of-contents where an element is, and in a constructed string pieces of its own type only.
\<close>

fun pieces_of :: "u8 \<Rightarrow> ber \<Rightarrow> bool" where
  "pieces_of btag (Prim tag xs) \<longleftrightarrow> tag = btag \<and> length xs < 2 ^ 32"
| "pieces_of btag (Def tag ts) \<longleftrightarrow> tag = btag OR 0x20 \<and> list_all (pieces_of btag) ts \<and>
     length (concat (map ber_bytes ts)) < 2 ^ 32"
| "pieces_of btag (Indef tag ts) \<longleftrightarrow> tag = btag OR 0x20 \<and> list_all (pieces_of btag) ts"

fun ber_ok :: "ber \<Rightarrow> bool" where
  "ber_ok (Prim tag xs) \<longleftrightarrow> tag AND 0x1f \<noteq> 0x1f \<and> tag AND 0x20 = 0 \<and> length xs \<le> 0xfffffffe \<and>
     \<not> (tag = 0 \<and> xs = [])"
| "ber_ok (Def tag ts) \<longleftrightarrow> tag AND 0x1f \<noteq> 0x1f \<and> tag AND 0x20 \<noteq> 0 \<and> length (concat (map ber_bytes ts)) < 2 ^ 32 \<and>
     (if string_tag tag then list_all (pieces_of (tag AND NOT 0x20)) ts \<and> length (concat (map fragments ts)) \<le> 0xfffffffe
      else list_all ber_ok ts \<and> length (concat (map (ber_bytes \<circ> normal) ts)) \<le> 0xfffffffe)"
| "ber_ok (Indef tag ts) \<longleftrightarrow> tag AND 0x1f \<noteq> 0x1f \<and> tag AND 0x20 \<noteq> 0 \<and>
     (if string_tag tag then list_all (pieces_of (tag AND NOT 0x20)) ts \<and> length (concat (map fragments ts)) \<le> 0xfffffffe
      else list_all ber_ok ts \<and> length (concat (map (ber_bytes \<circ> normal) ts)) \<le> 0xfffffffe)"

section \<open>The reader on elements\<close>

lemma ber_element_definite:
  assumes "tag AND 0x1f \<noteq> 0x1f" "length xs < 2 ^ 32" "cbs_bytes m c = der_element tag xs @ rest"
  obtains contents h c' d where "CBS_get_any_ber_asn1_element m c = (Some (contents, ucast tag, h), c')"
    "cbs_bytes m c' = rest" "\<not> is_indefinite m h contents"
    "CBS_skip contents h = (True, d)" "cbs_bytes m d = xs" "is_eoc m h contents \<longleftrightarrow> tag = 0 \<and> xs = []"
proof -
  define h where "h = 1 + length (der_length (length xs))"
  note e = der_element_header [OF assms]
  have n: "h + length xs = length (der_element tag xs)" by (simp add: h_def length_der_element)
  define contents where "contents = CBS_init (cbs_data c) (h + length xs)"
  obtain lb bs where b: "cbs_bytes m c = tag # lb # bs"
    using assms(3) by (auto simp: der_element_def der_length_def split: if_splits)
  have lb: "lb AND 0x80 = 0 \<or> unat (lb AND 0x7f) \<noteq> 0"
    using e(1) b by (auto simp: der_long_def Let_def split: if_splits)
  have g: "CBS_get_any_ber_asn1_element m c = (Some (contents, ucast tag, h), cbs_adv c (h + length xs))"
    using e(1,2) b lb assms(1) n unfolding CBS_get_any_ber_asn1_element_def element_cases [OF b] long_element_eq [OF b]
    by (auto simp: asn1_take_eq contents_def h_def add.commute split: if_splits option.splits)
  have bytes: "cbs_bytes m contents = der_element tag xs"
    using take_cbs_bytes [of "h + length xs" c m] e(2) n assms(3) by (simp add: contents_def)
  have len: "CBS_len contents = h + length xs" by (simp add: contents_def CBS_len_def)
  have skip: "CBS_skip contents h = (True, cbs_adv contents h)"
    by (simp add: CBS_skip_eq contents_def)
  have d: "cbs_bytes m (cbs_adv contents h) = xs" by (simp add: bytes h_def der_element_def)
  have last: "m (CBS_data contents + (h - 1)) = 0" if "xs = []"
    using nth_cbs_bytes [of 1 contents m] that bytes
    by (simp add: contents_def CBS_data_def h_def der_element_def der_length_def load_bytes_Suc)
  have "\<not> is_indefinite m h contents"
    using len last by (auto simp: is_indefinite_def)
  moreover have "is_eoc m h contents \<longleftrightarrow> tag = 0 \<and> xs = []"
    using len by (auto simp: is_eoc_def bytes h_def der_element_def der_length_def)
  ultimately show thesis using that [OF g _ _ skip d] assms(3) n by simp
qed

lemma ber_element_indefinite:
  assumes "tag AND 0x1f \<noteq> 0x1f" "tag AND 0x20 \<noteq> 0" "cbs_bytes m c = tag # 0x80 # rest"
  obtains contents c' where "CBS_get_any_ber_asn1_element m c = (Some (contents, ucast tag, 2), c')"
    "cbs_bytes m c' = rest" "is_indefinite m 2 contents" "\<not> is_eoc m 2 contents"
proof -
  define contents where "contents = CBS_init (cbs_data c) 2"
  have l: "2 \<le> cbs_len c" using assms(3) length_cbs_bytes [of m c] by simp
  have "CBS_get_any_ber_asn1_element m c = (Some (contents, ucast tag, 2), cbs_adv c 2)"
    using assms(1,2) l by (simp add: CBS_get_any_ber_asn1_element_def element_cases [OF assms(3)] asn1_take_eq
        contents_def ucast_and_0x20)
  moreover have "cbs_bytes m contents = [tag, 0x80]"
    using take_cbs_bytes [of 2 c m] l assms(3) by (simp add: contents_def)
  moreover from this have "m (CBS_data contents + 1) = 0x80"
    using nth_cbs_bytes [of 1 contents m] by (simp add: contents_def CBS_data_def)
  ultimately show thesis using that [of contents "cbs_adv c 2"] assms(3)
    by (simp add: is_indefinite_def is_eoc_def contents_def CBS_len_def)
qed

section \<open>The search\<close>

text \<open>What \<open>*ber_found\<close> is in the end: each element whose children are searched resets it.\<close>

fun last_found :: "bool \<Rightarrow> ber list \<Rightarrow> bool" where
  "last_found found [] = found"
| "last_found found (Prim tag xs # ts) = last_found found ts"
| "last_found found (Def tag us # ts) = (string_tag tag \<or> last_found (last_found False us) ts)"
| "last_found found (Indef tag us # ts) = True"

lemma der_element_neq_Nil [simp]: "der_element tag xs \<noteq> []"
  by (simp add: der_element_def)

lemma CBS_len_0_iff: "CBS_len c = 0 \<longleftrightarrow> cbs_bytes m c = []"
  by (metis CBS_len_def length_0_conv length_cbs_bytes)

lemma find_ber_elements:
  "list_all ber_ok ts \<Longrightarrow> cbs_bytes m c = concat (map ber_bytes ts) \<Longrightarrow> \<forall>t \<in> set ts. depth + height t \<le> kMaxDepth \<Longrightarrow>
    depth \<le> kMaxDepth \<Longrightarrow> cbs_find_ber m c found depth = Some (last_found found ts)"
proof (induction found ts arbitrary: c depth rule: last_found.induct)
  case (1 found)
  then show ?case by (subst cbs_find_ber.simps) (simp add: CBS_len_0_iff [of _ m])
next
  case (2 found tag xs ts)
  have "cbs_bytes m c = der_element tag xs @ concat (map ber_bytes ts)" "length xs < 2 ^ 32" "tag AND 0x1f \<noteq> 0x1f"
    using 2(2,3) by auto
  from ber_element_definite [OF this(3,2,1)] obtain contents h c' d where
    g: "CBS_get_any_ber_asn1_element m c = (Some (contents, ucast tag, h), c')"
      "cbs_bytes m c' = concat (map ber_bytes ts)" "\<not> is_indefinite m h contents"
      "CBS_skip contents h = (True, d)" "cbs_bytes m d = xs" "is_eoc m h contents \<longleftrightarrow> tag = 0 \<and> xs = []" .
  have "cbs_find_ber m c' found depth = Some (last_found found ts)" using 2(1) [of c' depth] 2(2-) g(2) by simp
  then show ?case using g 2(2-)
    by (subst cbs_find_ber.simps) (simp add: CBS_len_0_iff [of _ m] ucast_and_0x20)
next
  case (3 found tag us ts)
  have "cbs_bytes m c = der_element tag (concat (map ber_bytes us)) @ concat (map ber_bytes ts)"
      "length (concat (map ber_bytes us)) < 2 ^ 32" "tag AND 0x1f \<noteq> 0x1f"
    using 3(3,4) by auto
  from ber_element_definite [OF this(3,2,1)] obtain contents h c' d where
    g: "CBS_get_any_ber_asn1_element m c = (Some (contents, ucast tag, h), c')"
      "cbs_bytes m c' = concat (map ber_bytes ts)" "\<not> is_indefinite m h contents"
      "CBS_skip contents h = (True, d)" "cbs_bytes m d = concat (map ber_bytes us)"
      "is_eoc m h contents \<longleftrightarrow> tag = 0 \<and> concat (map ber_bytes us) = []" .
  show ?case
  proof (cases "string_tag tag")
    case True
    then show ?thesis using g 3(3-)
      by (subst cbs_find_ber.simps) (simp add: CBS_len_0_iff [of _ m] ucast_and_0x20)
  next
    case False
    have "Suc depth + height u \<le> kMaxDepth" if "u \<in> set us" for u
      using 3(5) that le_trans [of "Suc depth + height u" "depth + height (Def tag us)" kMaxDepth] by simp
    moreover have "Suc depth \<le> kMaxDepth" using 3(5) by simp
    ultimately have "cbs_find_ber m d False (Suc depth) = Some (last_found False us)"
      using 3(1) [of d "Suc depth"] 3(3) False g(5) by simp
    moreover have "cbs_find_ber m c' (last_found False us) depth = Some (last_found (last_found False us) ts)"
      using 3(2) [of c' depth] 3(3-) g(2) False by simp
    ultimately show ?thesis using g 3(3-) False
      by (subst cbs_find_ber.simps) (simp add: CBS_len_0_iff [of _ m] ucast_and_0x20)
  qed
next
  case (4 found tag us ts)
  have "cbs_bytes m c = tag # 0x80 # concat (map ber_bytes us) @ [0, 0] @ concat (map ber_bytes ts)"
      "tag AND 0x20 \<noteq> 0" "tag AND 0x1f \<noteq> 0x1f"
    using 4(1,2) by auto
  from ber_element_indefinite [OF this(3,2,1)] obtain contents c' where
    "CBS_get_any_ber_asn1_element m c = (Some (contents, ucast tag, 2), c')"
    "cbs_bytes m c' = concat (map ber_bytes us) @ [0, 0] @ concat (map ber_bytes ts)"
    "is_indefinite m 2 contents" "\<not> is_eoc m 2 contents" .
  then show ?case using 4 by (subst cbs_find_ber.simps) (simp add: CBS_len_0_iff [of _ m])
qed

section \<open>The conversion as builder calls\<close>

text \<open>\<open>b\<close> is the tag of the constructed string around an element, or zero.\<close>

definition child_tag :: "u8 \<Rightarrow> u8 \<Rightarrow> u8" where
  "child_tag b tag = (if b = 0 then (if string_tag tag then tag AND NOT 0x20 else 0) else b)"

definition open_ops :: "u8 \<Rightarrow> nat \<Rightarrow> u8 \<Rightarrow> cbb_op list" where
  "open_ops b d tag = (if b = 0 then [Open_Asn1 d (if string_tag tag then tag AND NOT 0x20 else tag)] else [])"

abbreviation child_depth :: "u8 \<Rightarrow> nat \<Rightarrow> nat" where
  "child_depth b d \<equiv> if b = 0 then Suc d else d"

fun elem_ops :: "u8 \<Rightarrow> nat \<Rightarrow> ber \<Rightarrow> cbb_op list" where
  "elem_ops b d (Prim tag xs) = open_ops b d tag @ [Add_Bytes (child_depth b d) xs, Flush d]"
| "elem_ops b d (Def tag us) =
     open_ops b d tag @ concat (map (elem_ops (child_tag b tag) (child_depth b d)) us) @ [Flush d]"
| "elem_ops b d (Indef tag us) =
     open_ops b d tag @ concat (map (elem_ops (child_tag b tag) (child_depth b d)) us) @ [Flush d]"

definition elem_ok :: "u8 \<Rightarrow> ber \<Rightarrow> bool" where
  "elem_ok b t \<longleftrightarrow> (if b = 0 then ber_ok t else pieces_of b t)"

definition base_ok :: "u8 \<Rightarrow> bool" where
  "base_ok b \<longleftrightarrow> b \<noteq> 0 \<longrightarrow> string_tag b \<and> b AND 0x20 = 0"

lemma ucast_and_u8: "ucast (x :: u8) AND (ucast y :: u32) = ucast (x AND y)"
  by (rule bit_word_eqI) (auto simp: bit_simps dest: bit_imp_le_length)

lemma ucast_base_tag: "ucast (tag :: u8) AND NOT (0x20 :: u32) = ucast (tag AND NOT 0x20)"
proof (rule bit_word_eqI)
  fix n
  have "bit (0x20 :: u32) n \<longleftrightarrow> bit (ucast (0x20 :: u8) :: u32) n" by simp
  then show "bit (ucast tag AND NOT (0x20 :: u32)) n = bit (ucast (tag AND NOT 0x20) :: u32) n" if "n < LENGTH(32)"
    using that by (auto simp: bit_simps dest: bit_imp_le_length simp del: bit_numeral_iff)
qed

lemma base_low_bits: "(tag AND NOT 0x20) AND 0x1f = tag AND (0x1f :: u8)"
  "(tag AND NOT 0x20) AND 0xc0 = tag AND (0xc0 :: u8)" "(tag AND NOT 0x20) AND 0x20 = (0 :: u8)"
  by (simp_all add: and.assoc)

lemma runs_append: "cbb_runs c (xs @ ys) = (True, c') \<longleftrightarrow> (\<exists>c1. cbb_runs c xs = (True, c1) \<and> cbb_runs c1 ys = (True, c'))"
  by (induction xs arbitrary: c) (auto split: prod.splits bool.splits)

lemma base_of_string: "string_tag tag \<Longrightarrow> string_tag (tag AND NOT 0x20) \<and> tag AND NOT 0x20 \<noteq> 0"
proof -
  assume s: "string_tag tag"
  have e: "ucast (tag AND NOT 0x20) AND (0x1f :: u32) = ucast tag AND 0x1f"
    "ucast (tag AND NOT 0x20) AND (0xc0 :: u32) = ucast tag AND 0xc0"
    using base_low_bits [of tag] ucast_and_u8 [of tag "0x1f"] ucast_and_u8 [of "tag AND NOT 0x20" "0x1f"]
      ucast_and_u8 [of tag "0xc0"] ucast_and_u8 [of "tag AND NOT 0x20" "0xc0"] by simp_all
  then have "string_tag (tag AND NOT 0x20)" using s by (simp add: is_string_type_def)
  moreover have "\<not> string_tag 0" by (simp add: is_string_type_def)
  ultimately show ?thesis by metis
qed

lemma child_base_ok: "base_ok b \<Longrightarrow> base_ok (child_tag b tag)"
  using base_of_string [of tag] base_low_bits(3) [of tag] by (auto simp: base_ok_def child_tag_def)

lemma base_facts:
  assumes "base_ok b" "b \<noteq> 0"
  shows "b AND 0x1f \<noteq> 0x1f" "(b OR 0x20) AND 0x1f \<noteq> 0x1f" "(b OR 0x20) AND 0x20 \<noteq> 0" "(b OR 0x20) AND NOT 0x20 = b"
    "b AND NOT 0x20 = b" "b AND 0x20 = 0"
proof -
  have b: "string_tag b" "b AND 0x20 = 0" using assms by (auto simp: base_ok_def)
  have "ucast b AND (0x1f :: u32) = ucast (b AND 0x1f)" using ucast_and_u8 [of b "0x1f"] by simp
  then show 1: "b AND 0x1f \<noteq> 0x1f" using b(1) by (auto simp: is_string_type_def)
  show 2: "b AND 0x20 = 0" by (rule b(2))
  have "b = b AND (0x20 OR NOT 0x20)" by simp
  then show 3: "b AND NOT 0x20 = b" using b(2) unfolding bit.conj_disj_distrib by simp
  have "(0x20 :: u8) AND 0x1f = 0" "(0x20 :: u8) AND NOT 0x20 = 0" "(0x20 :: u8) AND 0x20 = 0x20" by simp_all
  then show "(b OR 0x20) AND 0x1f \<noteq> 0x1f" "(b OR 0x20) AND 0x20 \<noteq> 0" "(b OR 0x20) AND NOT 0x20 = b"
    using 1 2 3 by (simp_all add: bit.conj_disj_distrib2)
qed

text \<open>One element: what follows the parsing.\<close>

definition after_element :: "mem \<Rightarrow> cbs \<Rightarrow> nat \<Rightarrow> u32 \<Rightarrow> bool \<Rightarrow> nat \<Rightarrow> bool \<times> cbs \<times> cbb \<Rightarrow> (bool \<times> cbs \<times> cbb) option" where
  "after_element m inp d st looking depth r =
     (case r of (ok, _, out) \<Rightarrow>
        if \<not> ok then Some (False, inp, out)
        else
          let flushed = CBB_flush out d in
          if \<not> fst flushed then Some (False, inp, snd flushed)
          else cbs_convert_ber m inp (snd flushed) d st looking depth)"

lemma after_element_flush: "CBB_flush out1 d = (True, out2) \<Longrightarrow>
    after_element m inp d st looking depth (True, x, out1) = cbs_convert_ber m inp out2 d st looking depth"
  by (simp add: after_element_def)

lemma ucast_neq_0: "(ucast (b :: u8) :: u32) = 0 \<longleftrightarrow> b = 0"
  using ucast_byte_inj [of b 0] by simp

lemma open_runs:
  assumes "cbb_runs out (open_ops b d tag) = (True, out1)" "b = 0 \<Longrightarrow> \<not> string_tag tag \<Longrightarrow> x = ucast tag"
    "b = 0 \<Longrightarrow> string_tag tag \<Longrightarrow> x = ucast (tag AND NOT 0x20)"
  shows "(if (ucast b :: u32) \<noteq> 0 then (True, out) else CBB_add_asn1 out d x) = (True, out1)"
  using assms by (auto simp: open_ops_def ucast_neq_0 split: if_splits prod.splits bool.splits)

lemma convert_constructed:
  assumes get: "CBS_get_any_ber_asn1_element m c = (Some (contents, ucast tag, h), c1)"
    and "depth \<le> kMaxDepth" "cbs_bytes m c \<noteq> []" "\<not> is_eoc m h contents" "tag AND 0x20 \<noteq> 0" "b \<noteq> 0 \<Longrightarrow> tag AND NOT 0x20 = b"
    and open_ops: "cbb_runs out (open_ops b d tag) = (True, out1)"
  shows "is_indefinite m h contents \<Longrightarrow> cbs_convert_ber m c out d (ucast b) looking depth =
      Option.bind (cbs_convert_ber m c1 out1 (child_depth b d) (ucast (child_tag b tag)) True (Suc depth))
        (\<lambda>(ok, c1, out). after_element m c1 d (ucast b) looking depth (ok, c1, out))"
    and "\<not> is_indefinite m h contents \<Longrightarrow> CBS_skip contents h = (True, c2) \<Longrightarrow>
      cbs_convert_ber m c out d (ucast b) looking depth =
      Option.bind (cbs_convert_ber m c2 out1 (child_depth b d) (ucast (child_tag b tag)) False (Suc depth))
        (after_element m c1 d (ucast b) looking depth)"
proof -
  define string where "string = ((ucast b :: u32) = 0 \<and> ucast tag AND CBS_ASN1_CONSTRUCTED \<noteq> 0 \<and> string_tag tag)"
  have s: "string \<longleftrightarrow> b = 0 \<and> string_tag tag" using assms(5) by (simp add: string_def ucast_neq_0 ucast_and_0x20)
  have o: "(if (ucast b :: u32) \<noteq> 0 then (True, out)
      else CBB_add_asn1 out d (if string then ucast tag AND NOT CBS_ASN1_CONSTRUCTED else ucast tag)) = (True, out1)"
    by (rule open_runs [OF open_ops]) (auto simp: s ucast_base_tag [simplified])
  have t: "(if string then if string then ucast tag AND NOT CBS_ASN1_CONSTRUCTED else ucast tag else ucast b) =
      (ucast (child_tag b tag) :: u32)"
    by (simp add: s child_tag_def ucast_base_tag [simplified])
  have n: "CBS_len c \<noteq> 0" using assms(3) CBS_len_0_iff by blast
  have g: "\<not> ((ucast b :: u32) \<noteq> 0 \<and> ucast tag AND NOT CBS_ASN1_CONSTRUCTED \<noteq> (ucast b :: u32))"
    using assms(6) by (auto simp: ucast_base_tag [simplified] ucast_neq_0)
  have d: "(if (ucast b :: u32) \<noteq> 0 then d else Suc d) = child_depth b d" by (simp add: ucast_neq_0)
  note unf = cbs_convert_ber.simps [of m c out d "ucast b" looking depth] get option.case prod.case string_def [symmetric]
    Let_def o t d fst_conv snd_conv
  have c: "(kMaxDepth < depth) = False" "(CBS_len c = 0) = False" "is_eoc m h contents = False"
    "((ucast b :: u32) \<noteq> 0 \<and> ucast tag AND NOT CBS_ASN1_CONSTRUCTED \<noteq> (ucast b :: u32)) = False"
    using assms(2,4) n g by auto
  have k: "(ucast tag AND CBS_ASN1_CONSTRUCTED \<noteq> 0) = True" using assms(5) by (simp add: ucast_and_0x20)
  show "is_indefinite m h contents \<Longrightarrow> cbs_convert_ber m c out d (ucast b) looking depth =
      Option.bind (cbs_convert_ber m c1 out1 (child_depth b d) (ucast (child_tag b tag)) True (Suc depth))
        (\<lambda>(ok, c1, out). after_element m c1 d (ucast b) looking depth (ok, c1, out))"
    unfolding unf c after_element_def by simp
  show "\<not> is_indefinite m h contents \<Longrightarrow> CBS_skip contents h = (True, c2) \<Longrightarrow>
      cbs_convert_ber m c out d (ucast b) looking depth =
      Option.bind (cbs_convert_ber m c2 out1 (child_depth b d) (ucast (child_tag b tag)) False (Suc depth))
        (after_element m c1 d (ucast b) looking depth)"
    unfolding unf c after_element_def [abs_def] unfolding k by simp
qed

lemma convert_primitive:
  assumes get: "CBS_get_any_ber_asn1_element m c = (Some (contents, ucast tag, h), c1)"
    and "depth \<le> kMaxDepth" "cbs_bytes m c \<noteq> []" "\<not> is_eoc m h contents" "tag AND 0x20 = 0" "b \<noteq> 0 \<Longrightarrow> tag = b"
    and open_ops: "cbb_runs out (open_ops b d tag) = (True, out1)" "tag AND NOT 0x20 = tag"
    and "\<not> is_indefinite m h contents" "CBS_skip contents h = (True, c2)"
    and add: "CBB_add_bytes out1 (child_depth b d) (cbs_bytes m c2) = (True, out2)"
  shows "cbs_convert_ber m c out d (ucast b) looking depth = after_element m c1 d (ucast b) looking depth (True, c2, out2)"
proof -
  have o: "(if (ucast b :: u32) \<noteq> 0 then (True, out) else CBB_add_asn1 out d (ucast tag)) = (True, out1)"
  proof -
    have "(if string_tag tag then tag AND NOT 0x20 else tag) = tag" unfolding open_ops(2) by simp
    then have "open_ops b d tag = (if b = 0 then [Open_Asn1 d tag] else [])" by (simp only: open_ops_def)
    then show ?thesis using open_ops(1) by (auto simp: ucast_neq_0 split: prod.splits bool.splits if_splits)
  qed
  have n: "CBS_len c \<noteq> 0" using assms(3) CBS_len_0_iff by blast
  have k: "ucast tag AND CBS_ASN1_CONSTRUCTED = 0" using assms(5) by (simp add: ucast_and_0x20)
  have g: "\<not> ((ucast b :: u32) \<noteq> 0 \<and> ucast tag AND NOT CBS_ASN1_CONSTRUCTED \<noteq> (ucast b :: u32))"
    using assms(6,8) by (auto simp: ucast_base_tag [simplified] ucast_neq_0)
  have d: "(if (ucast b :: u32) \<noteq> 0 then d else Suc d) = child_depth b d" by (simp add: ucast_neq_0)
  have c: "(kMaxDepth < depth) = False" "(CBS_len c = 0) = False" "is_eoc m h contents = False"
    "((ucast b :: u32) \<noteq> 0 \<and> ucast tag AND NOT CBS_ASN1_CONSTRUCTED \<noteq> (ucast b :: u32)) = False"
    "is_indefinite m h contents = False" "(ucast tag AND CBS_ASN1_CONSTRUCTED \<noteq> 0) = False"
    using assms(2,4,9) n g k by auto
  show ?thesis
    unfolding cbs_convert_ber.simps [of m c out d "ucast b" looking depth] get option.case prod.case
      c if_False if_True simp_thms Let_def o d assms(10) fst_conv snd_conv add after_element_def
    by simp
qed

fun ber_count :: "ber list \<Rightarrow> nat" where
  "ber_count [] = 0"
| "ber_count (Prim tag xs # ts) = Suc (ber_count ts)"
| "ber_count (Def tag us # ts) = Suc (ber_count us + ber_count ts)"
| "ber_count (Indef tag us # ts) = Suc (ber_count us + ber_count ts)"

lemma elem_ok_prim:
  assumes "elem_ok b (Prim tag xs)" "base_ok b"
  shows "tag AND 0x1f \<noteq> 0x1f" "tag AND 0x20 = 0" "length xs < 2 ^ 32" "\<not> (tag = 0 \<and> xs = [])" "b \<noteq> 0 \<Longrightarrow> tag = b"
    "tag AND NOT 0x20 = tag"
proof -
  show 1: "tag AND 0x1f \<noteq> 0x1f" "tag AND 0x20 = 0" "length xs < 2 ^ 32" "\<not> (tag = 0 \<and> xs = [])" "b \<noteq> 0 \<Longrightarrow> tag = b"
    using assms base_facts [OF assms(2)] by (auto simp: elem_ok_def split: if_splits)
  have "tag = tag AND (0x20 OR NOT 0x20)" by simp
  then show "tag AND NOT 0x20 = tag" using 1(2) unfolding bit.conj_disj_distrib by simp
qed

lemma elem_ok_constructed:
  assumes "base_ok b" "elem_ok b (Def tag us) \<or> elem_ok b (Indef tag us)"
  shows "tag AND 0x1f \<noteq> 0x1f" "tag AND 0x20 \<noteq> 0" "b \<noteq> 0 \<Longrightarrow> tag AND NOT 0x20 = b"
    "list_all (elem_ok (child_tag b tag)) us"
proof -
  have e: "elem_ok 0 = ber_ok" "b \<noteq> 0 \<Longrightarrow> elem_ok b = pieces_of b" for b by (auto simp: elem_ok_def fun_eq_iff)
  show "tag AND 0x1f \<noteq> 0x1f" "tag AND 0x20 \<noteq> 0" "b \<noteq> 0 \<Longrightarrow> tag AND NOT 0x20 = b"
    using assms base_facts [OF assms(1)] by (auto simp: elem_ok_def split: if_splits)
  show "list_all (elem_ok (child_tag b tag)) us"
    using assms(2) base_of_string [of tag]
    by (cases "b = 0"; cases "string_tag tag") (auto simp: e child_tag_def)
qed

lemma children_depth:
  assumes "depth + height (Def tag us) \<le> n \<or> depth + height (Indef tag us) \<le> n"
  shows "\<forall>u \<in> set us. Suc depth + height u \<le> n" "Suc depth \<le> n"
proof -
  have "height u \<le> Max (insert 0 (height ` set us))" if "u \<in> set us" for u using that by simp
  moreover have "Suc depth + Max (insert 0 (height ` set us)) \<le> n" using assms by auto
  ultimately show "\<forall>u \<in> set us. Suc depth + height u \<le> n" by (meson add_left_mono le_trans)
  show "Suc depth \<le> n" using assms by auto
qed

lemma cbs_bytes_Nil: "cbs_bytes m c = [] \<Longrightarrow> depth \<le> kMaxDepth \<Longrightarrow>
    cbs_convert_ber m c out d st False depth = Some (True, c, out)"
  by (subst cbs_convert_ber.simps) (simp add: CBS_len_0_iff [of _ m])

lemma eoc_element:
  assumes "cbs_bytes m c = 0 # 0 # rest"
  obtains contents c' where "CBS_get_any_ber_asn1_element m c = (Some (contents, 0, 2), c')" "is_eoc m 2 contents"
    "cbs_bytes m c' = rest"
proof -
  have e: "cbs_bytes m c = der_element 0 [] @ rest" using assms by (simp add: der_element_def der_length_def)
  have "(0 :: u8) AND 0x1f \<noteq> 0x1f" "length ([] :: u8 list) < 2 ^ 32" by simp_all
  from ber_element_definite [OF this e] obtain contents h c' d where
    "CBS_get_any_ber_asn1_element m c = (Some (contents, ucast (0 :: u8), h), c')"
    "cbs_bytes m c' = rest" "\<not> is_indefinite m h contents"
    "CBS_skip contents h = (True, d)" "cbs_bytes m d = []" "is_eoc m h contents \<longleftrightarrow> (0 :: u8) = 0 \<and> ([] :: u8 list) = []" .
  moreover from this(6) have "is_eoc m h contents" "h = 2" by (simp_all add: is_eoc_def)
  ultimately show thesis using that [of contents c'] by simp
qed

lemma convert_eoc: "cbs_bytes m c = 0 # 0 # rest \<Longrightarrow> depth \<le> kMaxDepth \<Longrightarrow>
    \<exists>c'. cbs_bytes m c' = rest \<and> cbs_convert_ber m c out d st True depth = Some (True, c', out)"
  by (rule eoc_element [of m c rest], assumption) (subst cbs_convert_ber.simps, auto simp: CBS_len_0_iff [of _ m])

lemma runs_Cons: "cbb_runs c (op # ops) = (True, c') \<longleftrightarrow> (\<exists>c1. cbb_run c op = (True, c1) \<and> cbb_runs c1 ops = (True, c'))"
  by (auto split: prod.splits bool.splits)

text \<open>Converting elements is making the builder calls for them.\<close>

lemma convert_elements:
  "list_all (elem_ok b) ts \<Longrightarrow> base_ok b \<Longrightarrow> cbs_bytes m c = concat (map ber_bytes ts) @ tail \<Longrightarrow>
    \<forall>t \<in> set ts. depth + height t \<le> kMaxDepth \<Longrightarrow> depth \<le> kMaxDepth \<Longrightarrow>
    cbb_runs out (concat (map (elem_ops b d) ts)) = (True, out') \<Longrightarrow>
    \<exists>c'. cbs_bytes m c' = tail \<and>
      cbs_convert_ber m c out d (ucast b) looking depth = cbs_convert_ber m c' out' d (ucast b) looking depth"
proof (induction ts arbitrary: b c out out' d depth looking tail rule: ber_count.induct)
  case (2 tag xs ts)
  have el: "elem_ok b (Prim tag xs)" using 2(2) by simp
  note o = elem_ok_prim [OF el 2(3)]
  obtain out1 out2 out3 where runs: "cbb_runs out (open_ops b d tag) = (True, out1)"
    "CBB_add_bytes out1 (child_depth b d) xs = (True, out2)" "CBB_flush out2 d = (True, out3)"
    "cbb_runs out3 (concat (map (elem_ops b d) ts)) = (True, out')"
    using 2(7) by (auto simp: runs_append runs_Cons simp del: cbb_runs.simps(2))
  have "cbs_bytes m c = der_element tag xs @ concat (map ber_bytes ts) @ tail" using 2(4) by simp
  from ber_element_definite [OF o(1,3) this] obtain contents h c1 c2 where
    g: "CBS_get_any_ber_asn1_element m c = (Some (contents, ucast tag, h), c1)"
      "cbs_bytes m c1 = concat (map ber_bytes ts) @ tail" "\<not> is_indefinite m h contents"
      "CBS_skip contents h = (True, c2)" "cbs_bytes m c2 = xs" "is_eoc m h contents \<longleftrightarrow> tag = 0 \<and> xs = []" .
  have "cbs_convert_ber m c out d (ucast b) looking depth = after_element m c1 d (ucast b) looking depth (True, c2, out2)"
    by (rule convert_primitive [OF g(1) 2(6)]) (use 2(4) g o runs in auto)
  also have "\<dots> = cbs_convert_ber m c1 out3 d (ucast b) looking depth"
    by (rule after_element_flush [OF runs(3)])
  finally show ?case
    using 2(1) [of b c1 tail depth out3 d out' looking] 2(2-6) g(2) runs(4) by simp
next
  case (3 tag us ts)
  have el: "elem_ok b (Def tag us)" using 3(3) by simp
  note o = elem_ok_constructed [OF 3(4) disjI1 [OF el]]
  obtain out1 out2 out3 where runs: "cbb_runs out (open_ops b d tag) = (True, out1)"
    "cbb_runs out1 (concat (map (elem_ops (child_tag b tag) (child_depth b d)) us)) = (True, out2)"
    "CBB_flush out2 d = (True, out3)" "cbb_runs out3 (concat (map (elem_ops b d) ts)) = (True, out')"
    using 3(8) by (auto simp: runs_append runs_Cons simp del: cbb_runs.simps(2))
  have l: "length (concat (map ber_bytes us)) < 2 ^ 32" using el by (auto simp: elem_ok_def split: if_splits)
  have "cbs_bytes m c = der_element tag (concat (map ber_bytes us)) @ concat (map ber_bytes ts) @ tail" using 3(5) by simp
  from ber_element_definite [OF o(1) l this] obtain contents h c1 c2 where
    g: "CBS_get_any_ber_asn1_element m c = (Some (contents, ucast tag, h), c1)"
      "cbs_bytes m c1 = concat (map ber_bytes ts) @ tail" "\<not> is_indefinite m h contents"
      "CBS_skip contents h = (True, c2)" "cbs_bytes m c2 = concat (map ber_bytes us)"
      "is_eoc m h contents \<longleftrightarrow> tag = 0 \<and> concat (map ber_bytes us) = []" .
  have dp: "\<forall>u \<in> set us. Suc depth + height u \<le> kMaxDepth" "Suc depth \<le> kMaxDepth"
    using children_depth [of depth tag us kMaxDepth] 3(6) by auto
  obtain c3 where c3: "cbs_bytes m c3 = []" "cbs_convert_ber m c2 out1 (child_depth b d) (ucast (child_tag b tag)) False (Suc depth) =
      cbs_convert_ber m c3 out2 (child_depth b d) (ucast (child_tag b tag)) False (Suc depth)"
    using 3(1) [OF o(4) child_base_ok [OF 3(4)] _ dp runs(2), of c2 "[]" False] g(5) by auto
  have "cbs_convert_ber m c out d (ucast b) looking depth =
      Option.bind (cbs_convert_ber m c2 out1 (child_depth b d) (ucast (child_tag b tag)) False (Suc depth))
        (after_element m c1 d (ucast b) looking depth)"
    by (rule convert_constructed(2) [OF g(1) 3(7) _ _ o(2) o(3) runs(1) g(3,4)]) (use 3(5) g(6) o(2) in auto)
  also have "\<dots> = after_element m c1 d (ucast b) looking depth (True, c3, out2)"
    unfolding c3(2) cbs_bytes_Nil [OF c3(1) dp(2)] by simp
  also have "\<dots> = cbs_convert_ber m c1 out3 d (ucast b) looking depth"
    by (rule after_element_flush [OF runs(3)])
  finally show ?case
    using 3(2) [of b c1 tail depth out3 d out' looking] 3(3-7) g(2) runs(4) by simp
next
  case (4 tag us ts)
  have el: "elem_ok b (Indef tag us)" using 4(3) by simp
  note o = elem_ok_constructed [OF 4(4) disjI2 [OF el]]
  obtain out1 out2 out3 where runs: "cbb_runs out (open_ops b d tag) = (True, out1)"
    "cbb_runs out1 (concat (map (elem_ops (child_tag b tag) (child_depth b d)) us)) = (True, out2)"
    "CBB_flush out2 d = (True, out3)" "cbb_runs out3 (concat (map (elem_ops b d) ts)) = (True, out')"
    using 4(8) by (auto simp: runs_append runs_Cons simp del: cbb_runs.simps(2))
  have "cbs_bytes m c = tag # 0x80 # concat (map ber_bytes us) @ [0, 0] @ concat (map ber_bytes ts) @ tail" using 4(5) by simp
  from ber_element_indefinite [OF o(1,2) this] obtain contents c1 where
    g: "CBS_get_any_ber_asn1_element m c = (Some (contents, ucast tag, 2), c1)"
      "cbs_bytes m c1 = concat (map ber_bytes us) @ [0, 0] @ concat (map ber_bytes ts) @ tail"
      "is_indefinite m 2 contents" "\<not> is_eoc m 2 contents" .
  have dp: "\<forall>u \<in> set us. Suc depth + height u \<le> kMaxDepth" "Suc depth \<le> kMaxDepth"
    using children_depth [of depth tag us kMaxDepth] 4(6) by auto
  obtain c2 where c2: "cbs_bytes m c2 = [0, 0] @ concat (map ber_bytes ts) @ tail"
    "cbs_convert_ber m c1 out1 (child_depth b d) (ucast (child_tag b tag)) True (Suc depth) =
      cbs_convert_ber m c2 out2 (child_depth b d) (ucast (child_tag b tag)) True (Suc depth)"
    using 4(1) [OF o(4) child_base_ok [OF 4(4)] g(2) dp runs(2)] by blast
  from c2(1) have "cbs_bytes m c2 = 0 # 0 # concat (map ber_bytes ts) @ tail" by simp
  from convert_eoc [OF this dp(2)] obtain c3 where c3: "cbs_bytes m c3 = concat (map ber_bytes ts) @ tail"
    "cbs_convert_ber m c2 out2 (child_depth b d) (ucast (child_tag b tag)) True (Suc depth) = Some (True, c3, out2)"
    by blast
  have "cbs_convert_ber m c out d (ucast b) looking depth =
      Option.bind (cbs_convert_ber m c1 out1 (child_depth b d) (ucast (child_tag b tag)) True (Suc depth))
        (\<lambda>(ok, c1, out). after_element m c1 d (ucast b) looking depth (ok, c1, out))"
    by (rule convert_constructed(1) [OF g(1) 4(7) _ g(4) o(2) o(3) runs(1) g(3)]) (use 4(5) in auto)
  also have "\<dots> = after_element m c3 d (ucast b) looking depth (True, c3, out2)"
    unfolding c2(2) c3(2) by simp
  also have "\<dots> = cbs_convert_ber m c3 out3 d (ucast b) looking depth"
    by (rule after_element_flush [OF runs(3)])
  finally show ?case
    using 4(2) [of b c3 tail depth out3 d out' looking] 4(3-7) c3(1) runs(4) by simp
qed auto

section \<open>What the calls write\<close>

definition written :: "u8 \<Rightarrow> ber \<Rightarrow> u8 list" where
  "written b t = (if b = 0 then ber_bytes (normal t) else fragments t)"

lemma stack_at_flush: "stack_at d s ks fs x \<Longrightarrow> spec_run s (Flush d) = Some (ks, fs @ [x]) \<and> stack_at d (ks, fs @ [x]) ks fs x"
  using stack_at_depth [of d s ks fs x] by (auto simp: stack_at_def spec_run_def spec_flush_def)

lemma stack_at_add: "stack_at d s ks fs x \<Longrightarrow>
    spec_run s (Add_Bytes d xs) = Some (ks, fs @ [x @ xs]) \<and> stack_at d (ks, fs @ [x @ xs]) ks fs (x @ xs)"
  using stack_at_depth [of d s ks fs x]
  by (auto simp: stack_at_def spec_run_def spec_flush_def append_top_def butlast_append)

text \<open>An element around contents: the frame is opened, filled and flushed, or filled in place.\<close>

lemma element_write:
  assumes s: "stack_at d s ks fs x"
    and fill: "\<And>s1 ks1 fs1 x1. stack_at (child_depth b d) s1 ks1 fs1 x1 \<Longrightarrow>
      \<exists>s2. spec_runs s1 ops = Some s2 \<and> stack_at (child_depth b d) s2 ks1 fs1 (x1 @ y)"
    and tag: "otag = (if string_tag tag then tag AND NOT 0x20 else tag)" "b = 0 \<Longrightarrow> otag AND 0x1f \<noteq> 0x1f \<and> length y \<le> 0xfffffffe"
  shows "\<exists>s'. spec_runs s (open_ops b d tag @ ops @ [Flush d]) = Some s' \<and>
    stack_at d s' ks fs (x @ (if b = 0 then der_element otag y else y))"
proof (cases "b = 0")
  case False
  obtain s2 where "spec_runs s ops = Some s2" "stack_at d s2 ks fs (x @ y)" using fill [of s ks fs x] s False by auto
  then show ?thesis using stack_at_flush [of d s2] False by (simp add: spec_runs_append open_ops_def)
next
  case True
  note o = stack_at_open [OF s, of otag]
  obtain s2 where s2: "spec_runs (ks @ [Der_Length], fs @ [x @ [otag], []]) ops = Some s2"
    "stack_at (Suc d) s2 (ks @ [Der_Length]) (fs @ [x @ [otag]]) y"
    using fill [of "(ks @ [Der_Length], fs @ [x @ [otag], []])"] o(2) tag(2) True by fastforce
  have "stack_at d s2 ks fs (x @ der_element otag y)"
    using stack_at_close [OF s2(2)] stack_at_depth [OF s] tag(2) True by simp
  then show ?thesis using stack_at_flush [of d s2] s2(1) o(1) tag True by (simp add: spec_runs_append open_ops_def)
qed

lemma written_child: "concat (map (written (child_tag b tag)) us) =
    (if b = 0 \<and> \<not> string_tag tag then concat (map (ber_bytes \<circ> normal) us) else concat (map fragments us))"
proof -
  have "child_tag b tag = 0 \<longleftrightarrow> b = 0 \<and> \<not> string_tag tag"
    using base_of_string [of tag] by (auto simp: child_tag_def)
  then show ?thesis by (cases "b = 0 \<and> \<not> string_tag tag") (auto simp: written_def [abs_def] o_def)
qed

lemma out_tag_low: "(if string_tag tag then tag AND NOT 0x20 else tag) AND 0x1f = tag AND (0x1f :: u8)"
  using base_low_bits(1) [of tag] by simp

lemma elements_write:
  "list_all (elem_ok b) ts \<Longrightarrow> base_ok b \<Longrightarrow> stack_at d s ks fs x \<Longrightarrow>
    \<exists>s'. spec_runs s (concat (map (elem_ops b d) ts)) = Some s' \<and>
      stack_at d s' ks fs (x @ concat (map (written b) ts))"
proof (induction ts arbitrary: b d s ks fs x rule: ber_count.induct)
  case (2 tag xs ts)
  have el: "elem_ok b (Prim tag xs)" using 2(2) by simp
  note o = elem_ok_prim [OF el 2(3)]
  have l: "b = 0 \<Longrightarrow> length xs \<le> 0xfffffffe" using el by (simp add: elem_ok_def)
  have w: "written b (Prim tag xs) = (if b = 0 then der_element (if string_tag tag then tag AND NOT 0x20 else tag) xs else xs)"
    unfolding o(6) by (simp add: written_def)
  obtain s1 where s1: "spec_runs s (open_ops b d tag @ [Add_Bytes (child_depth b d) xs] @ [Flush d]) = Some s1"
    "stack_at d s1 ks fs (x @ written b (Prim tag xs))"
    using element_write [OF 2(4) _ refl, of b "[Add_Bytes (child_depth b d) xs]" xs tag] stack_at_add o(1) l out_tag_low [of tag]
    unfolding w by fastforce
  have "spec_runs s (elem_ops b d (Prim tag xs)) = Some s1" using s1(1) by simp
  then show ?case using 2(1) [OF _ 2(3) s1(2)] 2(2) by (simp add: spec_runs_append del: elem_ops.simps)
next
  case (3 tag us ts)
  have el: "elem_ok b (Def tag us)" using 3(3) by simp
  note o = elem_ok_constructed [OF 3(4) disjI1 [OF el]]
  define y where "y = concat (map (written (child_tag b tag)) us)"
  have l: "b = 0 \<Longrightarrow> length y \<le> 0xfffffffe" using el by (simp add: elem_ok_def y_def written_child split: if_splits)
  have w: "written b (Def tag us) = (if b = 0 then der_element (if string_tag tag then tag AND NOT 0x20 else tag) y else y)"
    by (simp add: written_def y_def written_child o_def)
  have "\<exists>s1. spec_runs s (open_ops b d tag @ concat (map (elem_ops (child_tag b tag) (child_depth b d)) us) @ [Flush d]) = Some s1 \<and>
    stack_at d s1 ks fs (x @ written b (Def tag us))"
    unfolding w
    by (rule element_write [OF 3(5) _ refl])
      (use 3(1) [OF o(4) child_base_ok [OF 3(4)]] o(1) l out_tag_low [of tag] in \<open>simp_all add: y_def\<close>)
  then obtain s1 where s1: "spec_runs s (elem_ops b d (Def tag us)) = Some s1" "stack_at d s1 ks fs (x @ written b (Def tag us))"
    by auto
  then show ?case using 3(2) [OF _ 3(4) s1(2)] 3(3) by (simp add: spec_runs_append del: elem_ops.simps)
next
  case (4 tag us ts)
  have el: "elem_ok b (Indef tag us)" using 4(3) by simp
  note o = elem_ok_constructed [OF 4(4) disjI2 [OF el]]
  define y where "y = concat (map (written (child_tag b tag)) us)"
  have l: "b = 0 \<Longrightarrow> length y \<le> 0xfffffffe" using el by (simp add: elem_ok_def y_def written_child split: if_splits)
  have w: "written b (Indef tag us) = (if b = 0 then der_element (if string_tag tag then tag AND NOT 0x20 else tag) y else y)"
    by (simp add: written_def y_def written_child o_def)
  have "\<exists>s1. spec_runs s (open_ops b d tag @ concat (map (elem_ops (child_tag b tag) (child_depth b d)) us) @ [Flush d]) = Some s1 \<and>
    stack_at d s1 ks fs (x @ written b (Indef tag us))"
    unfolding w
    by (rule element_write [OF 4(5) _ refl])
      (use 4(1) [OF o(4) child_base_ok [OF 4(4)]] o(1) l out_tag_low [of tag] in \<open>simp_all add: y_def\<close>)
  then obtain s1 where s1: "spec_runs s (elem_ops b d (Indef tag us)) = Some s1" "stack_at d s1 ks fs (x @ written b (Indef tag us))"
    by auto
  then show ?case using 4(2) [OF _ 4(4) s1(2)] 4(3) by (simp add: spec_runs_append del: elem_ops.simps)
qed auto

lemma elem_ops_small: "list_all (elem_ok b) ts \<Longrightarrow> base_ok b \<Longrightarrow> list_all op_small (concat (map (elem_ops b d) ts))"
proof (induction ts arbitrary: b d rule: ber_count.induct)
  case (2 tag xs ts)
  then show ?case using elem_ok_prim(3) [of b tag xs] by (simp add: open_ops_def)
next
  case (3 tag us ts)
  then show ?case using elem_ok_constructed(4) [of b tag us] child_base_ok [of b tag] by (simp add: open_ops_def)
next
  case (4 tag us ts)
  then show ?case using elem_ok_constructed(4) [of b tag us] child_base_ok [of b tag] by (simp add: open_ops_def)
qed auto

lemma build_elements:
  assumes "fresh_cbb cap c" "list_all ber_ok ts" "length (concat (map (ber_bytes \<circ> normal) ts)) < 2 ^ 64"
    "can_resize (base c)"
  shows "build c (concat (map (elem_ops 0 0) ts)) = Some (concat (map (ber_bytes \<circ> normal) ts))"
proof -
  have b: "base_ok 0" by (simp add: base_ok_def)
  have e: "elem_ok 0 = ber_ok" "written 0 = ber_bytes \<circ> normal" by (auto simp: elem_ok_def written_def)
  have "stack_at 0 ([], [[]]) [] [] []" by (simp add: stack_at_def spec_flush_def)
  from elements_write [OF _ b this, of ts] assms(2) obtain s where
    "spec_runs ([], [[]]) (concat (map (elem_ops 0 0) ts)) = Some s" "stack_at 0 s [] [] (concat (map (ber_bytes \<circ> normal) ts))"
    by (auto simp: e)
  then have "spec_build (concat (map (elem_ops 0 0) ts)) = Some (concat (map (ber_bytes \<circ> normal) ts))"
    by (cases s) (auto simp: spec_build_def stack_at_def spec_flush_def)
  then show ?thesis
    using build_fresh [OF assms(1)] elem_ops_small [OF _ b, of ts 0] assms(2-4) by (simp add: e)
qed

section \<open>Every call returns\<close>

lemma ber_element_none: "CBS_get_any_ber_asn1_element m c = (None, c') \<Longrightarrow> c' = c"
proof (cases "cbs_bytes m c" rule: der_header.cases)
  case (1 t lb bs)
  then show "CBS_get_any_ber_asn1_element m c = (None, c') \<Longrightarrow> c' = c"
    by (auto simp: CBS_get_any_ber_asn1_element_def element_cases long_element_eq asn1_take_eq split: if_splits option.splits)
qed (use length_cbs_bytes [of m c] in \<open>auto simp: CBS_get_any_ber_asn1_element_def element_short\<close>)

lemma convert_returns:
  "\<exists>ok c' out'. cbs_convert_ber m c out d st looking depth = Some (ok, c', out') \<and> CBS_len c' \<le> CBS_len c"
proof (induction "CBS_len c" arbitrary: c out d st looking depth rule: less_induct)
  case less
  have after: "\<exists>ok c' out'. after_element m c1 d st looking depth r = Some (ok, c', out') \<and> CBS_len c' \<le> CBS_len c"
    if l: "CBS_len c1 < CBS_len c" for c1 r
  proof -
    obtain ok x out1 where r: "r = (ok, x, out1)" using prod_cases3 by blast
    obtain ok2 c2 out2 where "cbs_convert_ber m c1 (snd (CBB_flush out1 d)) d st looking depth = Some (ok2, c2, out2)"
      "CBS_len c2 \<le> CBS_len c1" using less(1) [OF l] by blast
    then show ?thesis using l r by (auto simp: after_element_def Let_def)
  qed
  have nested: "\<exists>ok c' out'. Option.bind (cbs_convert_ber m c1 out1 d1 st1 True (Suc depth))
        (\<lambda>(ok, c1, out). after_element m c1 d st looking depth (ok, c1, out)) = Some (ok, c', out') \<and> CBS_len c' \<le> CBS_len c"
    if l: "CBS_len c1 < CBS_len c" for c1 out1 d1 st1
  proof -
    obtain ok2 c2 out2 where "cbs_convert_ber m c1 out1 d1 st1 True (Suc depth) = Some (ok2, c2, out2)" "CBS_len c2 \<le> CBS_len c1"
      using less(1) [OF l] by blast
    then show ?thesis using after [of c2 "(ok2, c2, out2)"] l by simp
  qed
  have inside: "\<exists>ok c' out'. Option.bind (cbs_convert_ber m c2 out1 d1 st1 False (Suc depth))
        (after_element m c1 d st looking depth) = Some (ok, c', out') \<and> CBS_len c' \<le> CBS_len c"
    if l: "CBS_len c1 < CBS_len c" "CBS_len c2 < CBS_len c" for c1 c2 out1 d1 st1
  proof -
    obtain ok3 c3 out3 where "cbs_convert_ber m c2 out1 d1 st1 False (Suc depth) = Some (ok3, c3, out3)"
      using less(1) [OF l(2)] by blast
    then show ?thesis using after [OF l(1), of "(ok3, c3, out3)"] by simp
  qed
  show ?case
  proof (cases "CBS_get_any_ber_asn1_element m c")
    case (Pair el c1)
    show ?thesis
    proof (cases el)
      case None
      then have "c1 = c" using ber_element_none Pair by blast
      then show ?thesis using Pair None by (subst cbs_convert_ber.simps) auto
    next
      case (Some e)
      obtain contents tag h where e: "e = (contents, tag, h)" using prod_cases3 by blast
      note s = ber_element_shrinks [OF Pair [unfolded Some e]]
      obtain ok2 c2 where sk: "CBS_skip contents h = (ok2, c2)" by fastforce
      have l2: "ok2 \<Longrightarrow> CBS_len c2 < CBS_len c" using s(2) sk by simp
      define R where "R r \<longleftrightarrow> (\<exists>ok c' out'. r = Some (ok, c', out') \<and> CBS_len c' \<le> CBS_len c)" for r :: "(bool \<times> cbs \<times> cbb) option"
      have R_if: "R (if P then x else y)" if "P \<Longrightarrow> R x" "\<not> P \<Longrightarrow> R y" for P x y using that by simp
      have R_Some: "R (Some (ok, c1, x))" "R (Some (ok, c, x))" for ok x using s(1) by (auto simp: R_def)
      note R = nested [OF s(1), folded R_def, unfolded after_element_def prod.case Let_def]
        inside [OF s(1), folded R_def, unfolded after_element_def [abs_def] Let_def]
      have R_rest: "R (cbs_convert_ber m c1 out1 d st looking depth)" for out1
        using less(1) [OF s(1), of out1 d st looking depth] s(1) unfolding R_def by fastforce
      have bind_if: "Option.bind (if P then x else Some y) f = (if P then Option.bind x f else f y)"
        for P and x :: "(bool \<times> cbs \<times> cbb) option" and y and f :: "bool \<times> cbs \<times> cbb \<Rightarrow> (bool \<times> cbs \<times> cbb) option" by simp
      have "R (cbs_convert_ber m c out d st looking depth)"
        unfolding cbs_convert_ber.simps [of m c out d st looking depth] Pair Some e option.case prod.case sk fst_conv snd_conv
          Let_def bind_if
        by (intro R_if R_Some R_rest R; (rule l2)?; simp?)
      then show ?thesis by (simp add: R_def)
    qed
  qed
qed

section \<open>Normal elements\<close>

lemma height_normal: "height (normal t) \<le> height t"
proof (induction t rule: normal.induct)
  case (2 tag ts)
  have "height (normal u) \<le> Max (insert 0 (height ` set ts))" if "\<not> string_tag tag" "u \<in> set ts" for u
    using 2 [OF that] that by (meson List.finite_set Max_ge finite_imageI finite_insert image_eqI insertI2 le_trans)
  then show ?case by auto
next
  case (3 tag ts)
  have "height (normal u) \<le> Max (insert 0 (height ` set ts))" if "\<not> string_tag tag" "u \<in> set ts" for u
    using 3 [OF that] that by (meson List.finite_set Max_ge finite_imageI finite_insert image_eqI insertI2 le_trans)
  then show ?case by auto
qed simp

lemma normal_normal: "normal (normal t) = normal t"
  by (induction t rule: normal.induct) auto

lemma prim_string_ok: "tag AND 0x1f \<noteq> 0x1f \<Longrightarrow> string_tag tag \<Longrightarrow> length xs \<le> 0xfffffffe \<Longrightarrow> ber_ok (Prim (tag AND NOT 0x20) xs)"
  using base_of_string [of tag] base_low_bits [of tag] by simp

lemma ber_ok_normal: "ber_ok t \<Longrightarrow> ber_ok (normal t)"
proof (induction t rule: normal.induct)
  case (2 tag ts)
  show ?case
  proof (cases "string_tag tag")
    case True
    have "tag AND 0x1f \<noteq> 0x1f" "length (concat (map fragments ts)) \<le> 0xfffffffe" using 2(2) True by simp_all
    then have "ber_ok (Prim (tag AND NOT 0x20) (concat (map fragments ts)))" by (intro prim_string_ok True)
    then show ?thesis using True by (simp only: normal.simps if_True)
  next
    case False
    then show ?thesis using 2 by (auto simp: list_all_iff o_def normal_normal)
  qed
next
  case (3 tag ts)
  show ?case
  proof (cases "string_tag tag")
    case True
    have "tag AND 0x1f \<noteq> 0x1f" "length (concat (map fragments ts)) \<le> 0xfffffffe" using 3(2) True by simp_all
    then have "ber_ok (Prim (tag AND NOT 0x20) (concat (map fragments ts)))" by (intro prim_string_ok True)
    then show ?thesis using True by (simp only: normal.simps if_True)
  next
    case False
    then show ?thesis using 3 by (auto simp: list_all_iff o_def normal_normal)
  qed
qed simp

text \<open>Definite lengths and primitive strings only.\<close>

fun der_only :: "ber \<Rightarrow> bool" where
  "der_only (Prim tag xs) = True"
| "der_only (Def tag ts) \<longleftrightarrow> \<not> string_tag tag \<and> list_all der_only ts"
| "der_only (Indef tag ts) = False"

lemma der_only_normal: "der_only (normal t)"
  by (induction t rule: normal.induct) (auto simp: list_all_iff)

lemma der_only_not_found: "list_all der_only ts \<Longrightarrow> last_found False ts = False"
proof -
  have "list_all der_only ts \<Longrightarrow> \<not> found \<Longrightarrow> \<not> last_found found ts" for found
    by (induction found ts rule: last_found.induct) auto
  then show "list_all der_only ts \<Longrightarrow> last_found False ts = False" by blast
qed

section \<open>Properties\<close>

lemma load_bytes_all: "length bs = n \<Longrightarrow> load_bytes (mem_of bs) 0 n = bs"
  by auto

text \<open>Every element is searched to the end of the last constructed one.\<close>

lemma ber_to_der_not_found:
  assumes "cbs_bytes m inp = concat (map ber_bytes ts)" "list_all ber_ok ts" "\<forall>t \<in> set ts. height t \<le> kMaxDepth"
    and "\<not> last_found False ts"
  shows "CBS_asn1_ber_to_der m inp m0 buf_alloc base_alloc alloc = Some (Some None, inp)"
  using find_ber_elements [OF assms(2,1), of 0 False] assms(3,4) by (simp add: CBS_asn1_ber_to_der_def)

lemma ber_to_der_found:
  assumes "cbs_bytes m inp = concat (map ber_bytes ts)" "list_all ber_ok ts" "\<forall>t \<in> set ts. height t \<le> kMaxDepth"
    and "length (concat (map (ber_bytes \<circ> normal) ts)) < 2 ^ 64" "CBS_len inp < 2 ^ 64" "last_found False ts"
  shows "\<exists>inp'. CBS_asn1_ber_to_der m inp m0 True True (\<lambda>_. True) =
      Some (Some (Some (concat (map (ber_bytes \<circ> normal) ts))), inp') \<and> cbs_bytes m inp' = []"
proof -
  have f: "cbs_find_ber m inp False 0 = Some True"
    using find_ber_elements [OF assms(2,1), of 0 False] assms(3,6) by simp
  obtain cbb where c: "CBB_init m0 (CBS_len inp) True True (\<lambda>_. True) = Some cbb" by (simp add: CBB_init_def)
  have fresh: "fresh_cbb (CBS_len inp) cbb" "can_resize (base cbb)"
    using c assms(5) by (auto simp: fresh_cbb_def CBB_init_def cbb_init_def)
  have "build cbb (concat (map (elem_ops 0 0) ts)) = Some (concat (map (ber_bytes \<circ> normal) ts))"
    by (rule build_elements [OF fresh(1) assms(2,4) fresh(2)])
  then obtain cbb' where b: "cbb_runs cbb (concat (map (elem_ops 0 0) ts)) = (True, cbb')"
      "CBB_finish cbb' 0 True = Some (concat (map (ber_bytes \<circ> normal) ts))"
    by (auto simp: build_def split: prod.splits bool.splits)
  have "elem_ok 0 = ber_ok" by (auto simp: elem_ok_def)
  then obtain inp' where i: "cbs_bytes m inp' = []"
      "cbs_convert_ber m inp cbb 0 (ucast (0 :: u8)) False 0 = cbs_convert_ber m inp' cbb' 0 (ucast (0 :: u8)) False 0"
    using convert_elements [of 0 ts m inp "[]" 0 cbb 0 cbb' False] assms(1-3) b(1) by (auto simp: base_ok_def)
  have "cbs_convert_ber m inp cbb 0 0 False 0 = Some (True, inp', cbb')"
    using i(2) cbs_bytes_Nil [OF i(1), of 0 cbb' 0 0] by simp
  then show "\<exists>inp'. CBS_asn1_ber_to_der m inp m0 True True (\<lambda>_. True) =
      Some (Some (Some (concat (map (ber_bytes \<circ> normal) ts))), inp') \<and> cbs_bytes m inp' = []"
    using f c b(2) i(1) by (auto simp: CBS_asn1_ber_to_der_def)
qed

text \<open>
  C39: \<open>CBS_asn1_ber_to_der\<close> returns on every input, whatever the allocator does: the conversion, which goes on
  in the same input inside elements of indefinite length, always moves forward and never past the input.
\<close>

theorem ber_to_der_returns:
  "\<exists>r inp'. CBS_asn1_ber_to_der m inp m0 buf_alloc base_alloc alloc = Some (r, inp') \<and> CBS_len inp' \<le> CBS_len inp"
proof (cases "cbs_find_ber m inp False 0 = Some True \<and> CBB_init m0 (CBS_len inp) buf_alloc base_alloc alloc \<noteq> None")
  case True
  then obtain cbb where "cbs_find_ber m inp False 0 = Some True" "CBB_init m0 (CBS_len inp) buf_alloc base_alloc alloc = Some cbb"
    by blast
  moreover obtain ok inp' cbb' where "cbs_convert_ber m inp cbb 0 0 False 0 = Some (ok, inp', cbb')" "CBS_len inp' \<le> CBS_len inp"
    using convert_returns by blast
  ultimately show ?thesis by (simp add: CBS_asn1_ber_to_der_def split: option.split)
next
  case False
  then show ?thesis by (auto simp: CBS_asn1_ber_to_der_def split: option.split)
qed

section \<open>Values\<close>

text \<open>
  The value of an element, as X.690 gives it to both encodings: the value of a constructed string is that of its
  pieces joined, and for a bit string (8.6.4) the first octet of each piece counts unused bits and is not part
  of the string; that of the last piece counts for the whole.
\<close>

datatype asn1_value = Simple u8 "u8 list" | Compound u8 "asn1_value list"

fun leaves :: "ber \<Rightarrow> u8 list list" where
  "leaves (Prim tag xs) = [xs]"
| "leaves (Def tag ts) = concat (map leaves ts)"
| "leaves (Indef tag ts) = concat (map leaves ts)"

definition joined :: "u8 \<Rightarrow> u8 list list \<Rightarrow> u8 list" where
  "joined tag pieces =
     (if tag \<noteq> 3 then concat pieces
      else (if pieces = [] then 0 else hd (last pieces)) # concat (map tl pieces))"

fun ber_value :: "ber \<Rightarrow> asn1_value" where
  "ber_value (Prim tag xs) = Simple tag xs"
| "ber_value (Def tag ts) =
     (if string_tag tag then Simple (tag AND NOT 0x20) (joined (tag AND NOT 0x20) (concat (map leaves ts)))
      else Compound tag (map ber_value ts))"
| "ber_value (Indef tag ts) =
     (if string_tag tag then Simple (tag AND NOT 0x20) (joined (tag AND NOT 0x20) (concat (map leaves ts)))
      else Compound tag (map ber_value ts))"

fun no_bit_pieces :: "ber \<Rightarrow> bool" where
  "no_bit_pieces (Prim tag xs) = True"
| "no_bit_pieces (Def tag ts) \<longleftrightarrow> tag AND NOT 0x20 \<noteq> 3 \<and> list_all no_bit_pieces ts"
| "no_bit_pieces (Indef tag ts) \<longleftrightarrow> tag AND NOT 0x20 \<noteq> 3 \<and> list_all no_bit_pieces ts"

lemma concat_concat_map: "concat (concat (map f ts)) = concat (map (concat \<circ> f) ts)"
  by (induction ts) auto

lemma concat_leaves: "concat (leaves t) = fragments t"
  by (induction t rule: leaves.induct) (auto simp: concat_concat_map intro!: arg_cong [where f = concat])

lemma joined_leaves: "tag \<noteq> 3 \<Longrightarrow> joined tag (concat (map leaves ts)) = concat (map fragments ts)"
  using concat_leaves [of "Def 0 ts"] by (simp add: joined_def)

lemma ber_value_normal: "no_bit_pieces t \<Longrightarrow> ber_value (normal t) = ber_value t"
  by (induction t rule: normal.induct) (auto simp: joined_leaves list_all_iff)

section \<open>The conversion\<close>

text \<open>
  C38: The conversion gives DER. A sequence of well-formed BER elements, nested at most 2048 deep, with no
  constructed bit string among them, in which the search finds something to convert, becomes the DER encoding
  of the same values: definite lengths of the shortest form, and strings that are primitive. That encoding
  is again well-formed and, converted once more, needs no conversion. (For constructed bit strings the code
  gives another value, see \<open>bit_string_pieces\<close>.)
\<close>

theorem ber_to_der_converts:
  assumes "cbs_bytes m inp = concat (map ber_bytes ts)" "list_all ber_ok ts" "\<forall>t \<in> set ts. height t \<le> 2048"
    and "length (concat (map (ber_bytes \<circ> normal) ts)) < 2 ^ 64" "CBS_len inp < 2 ^ 64" "last_found False ts"
    and "list_all no_bit_pieces ts"
  shows "\<exists>us out inp'. CBS_asn1_ber_to_der m inp m0 True True (\<lambda>_. True) = Some (Some (Some out), inp') \<and>
    cbs_bytes m inp' = [] \<and> out = concat (map ber_bytes us) \<and> map ber_value us = map ber_value ts \<and>
    list_all ber_ok us \<and> list_all der_only us \<and>
    CBS_asn1_ber_to_der (mem_of out) (CBS_init 0 (length out)) m0 True True (\<lambda>_. True) =
      Some (Some None, CBS_init 0 (length out))"
proof -
  let ?us = "map normal ts" and ?out = "concat (map ber_bytes (map normal ts))"
  have us: "list_all ber_ok ?us" "list_all der_only ?us" "\<forall>t \<in> set ?us. height t \<le> kMaxDepth"
    using assms(2,3) by (auto simp: list_all_iff ber_ok_normal der_only_normal kMaxDepth_def intro: le_trans [OF height_normal])
  have same: "concat (map (ber_bytes \<circ> normal) ts) = ?out" by (simp add: o_def)
  have "CBS_asn1_ber_to_der (mem_of ?out) (CBS_init 0 (length ?out)) m0 True True (\<lambda>_. True) =
      Some (Some None, CBS_init 0 (length ?out))"
    by (rule ber_to_der_not_found [OF _ us(1,3)]) (use der_only_not_found [OF us(2)] in simp_all)
  moreover obtain inp' where "CBS_asn1_ber_to_der m inp m0 True True (\<lambda>_. True) = Some (Some (Some ?out), inp')"
    "cbs_bytes m inp' = []"
    using ber_to_der_found [OF assms(1,2) _ assms(4,5,6), of m0] assms(3) by (auto simp only: same kMaxDepth_def)
  moreover have "map ber_value ?us = map ber_value ts"
    using assms(7) by (simp add: ber_value_normal list_all_iff)
  ultimately show ?thesis using us by (intro exI [of _ ?us] exI [of _ ?out] exI [of _ inp']) blast
qed

text \<open>An octet string in two pieces inside a sequence of indefinite length.\<close>

theorem ber_to_der_converts_witness:
  "\<exists>out inp'. CBS_asn1_ber_to_der (mem_of [0x30, 0x80, 0x24, 6, 4, 1, 7, 4, 1, 8, 0, 0]) (CBS_init 0 12) (\<lambda>_. 0) True True (\<lambda>_. True) =
      Some (Some (Some out), inp') \<and>
    (\<exists>us. out = concat (map ber_bytes us) \<and> map ber_value us = [Compound 0x30 [Simple 4 [7, 8]]] \<and> list_all der_only us)"
proof -
  define t where "t = Indef 0x30 [Def 0x24 [Prim 4 [7], Prim 4 [8]]]"
  have b: "ber_bytes t = [0x30, 0x80, 0x24, 6, 4, 1, 7, 4, 1, 8, 0, 0]"
    by (simp add: t_def der_element_def der_length_def)
  have v: "ber_value t = Compound 0x30 [Simple 4 [7, 8]]" "no_bit_pieces t"
    by (simp_all add: t_def is_string_type_def joined_def)
  have ok: "ber_ok t" "height t \<le> 2048" "last_found False [t]" "length (ber_bytes (normal t)) < 2 ^ 64"
    by (simp_all add: t_def is_string_type_def der_element_def der_length_def)
  have i: "cbs_bytes (mem_of (ber_bytes t)) (CBS_init 0 12) = concat (map ber_bytes [t])"
    by (simp add: b load_bytes_all)
  have h: "list_all ber_ok [t]" "\<forall>u \<in> set [t]. height u \<le> 2048" "list_all no_bit_pieces [t]"
      "length (concat (map (ber_bytes \<circ> normal) [t])) < 2 ^ 64" "CBS_len (CBS_init 0 12) < 2 ^ 64"
    unfolding list.pred_inject list.set list.map concat.simps append_Nil2 comp_def using ok v(2) by (simp_all add: CBS_len_def)
  show ?thesis
    using ber_to_der_converts [OF i h(1,2,4,5) ok(3) h(3), of "\<lambda>_. 0"] unfolding b list.map v(1)
    by (elim exE conjE) (intro exI conjI, assumption+)
qed

text \<open>
  The pieces are joined whole, also those of a bit string, whose first octet counts the unused bits: two pieces
  with the bits \<open>aa\<close> and \<open>bb\<close> become a bit string of the three octets \<open>aa 00 bb\<close>.
\<close>

lemma bit_string_pieces:
  "\<exists>inp'. CBS_asn1_ber_to_der (mem_of [0x23, 8, 3, 2, 0, 0xaa, 3, 2, 0, 0xbb]) (CBS_init 0 10) m0 True True (\<lambda>_. True) =
    Some (Some (Some [3, 4, 0, 0xaa, 0, 0xbb]), inp')"
  "ber_value (Def 0x23 [Prim 3 [0, 0xaa], Prim 3 [0, 0xbb]]) = Simple 3 [0, 0xaa, 0xbb]"
proof -
  define t where "t = Def 0x23 [Prim 3 [0, 0xaa], Prim 3 [0, 0xbb]]"
  show "ber_value (Def 0x23 [Prim 3 [0, 0xaa], Prim 3 [0, 0xbb]]) = Simple 3 [0, 0xaa, 0xbb]"
    by (simp add: is_string_type_def joined_def)
  have e: "ber_bytes t = [0x23, 8, 3, 2, 0, 0xaa, 3, 2, 0, 0xbb]" "ber_bytes (normal t) = [3, 4, 0, 0xaa, 0, 0xbb]"
    by (simp_all add: t_def is_string_type_def der_element_def der_length_def)
  have ok: "ber_ok t" "height t \<le> kMaxDepth" "last_found False [t]"
    by (simp_all add: t_def is_string_type_def der_element_def der_length_def kMaxDepth_def)
  have "cbs_bytes (mem_of (ber_bytes t)) (CBS_init 0 10) = concat (map ber_bytes [t])" by (simp add: e load_bytes_all)
  from ber_to_der_found [OF this _ _ _ _ ok(3), of m0]
  show "\<exists>inp'. CBS_asn1_ber_to_der (mem_of [0x23, 8, 3, 2, 0, 0xaa, 3, 2, 0, 0xbb]) (CBS_init 0 10) m0 True True (\<lambda>_. True) =
      Some (Some (Some [3, 4, 0, 0xaa, 0, 0xbb]), inp')"
    using ok(1,2) by (auto simp: e CBS_len_def)
qed

text \<open>The search goes on behind an element when it is primitive, or constructed and entered.\<close>

fun entered :: "ber \<Rightarrow> bool" where
  "entered (Prim tag xs) = True"
| "entered (Def tag ts) = (\<not> string_tag tag)"
| "entered (Indef tag ts) = False"

lemma last_found_append: "list_all entered ts \<Longrightarrow> last_found found (ts @ us) = last_found (last_found found ts) us"
  by (induction found ts rule: last_found.induct) auto

text \<open>
  C40: The search overlooks what it has found. When the last of a sequence of elements is constructed, not a
  string, and its contents need no conversion, \<open>CBS_asn1_ber_to_der\<close> reports that the whole input needs none,
  whatever the elements before it have inside (as long as none of them stops the search: each is primitive, or
  of definite length and not a constructed string): the search of the last one resets the flag.
\<close>

theorem ber_overlooked:
  assumes "cbs_bytes m inp = concat (map ber_bytes (ts @ [Def tag us]))" "list_all ber_ok (ts @ [Def tag us])"
    and "\<forall>t \<in> set (ts @ [Def tag us]). height t \<le> 2048"
    and "list_all entered ts" "\<not> string_tag tag" "list_all der_only us"
  shows "CBS_asn1_ber_to_der m inp m0 buf_alloc base_alloc alloc = Some (Some None, inp)"
  using ber_to_der_not_found [OF assms(1,2)] assms(3) last_found_append [OF assms(4)] assms(5) der_only_not_found [OF assms(6)]
  by (simp add: kMaxDepth_def)

text \<open>
  An element of indefinite length inside the first of two sequences: it is overlooked, and the reader of DER
  refuses it; with the two in the other order it is converted.
\<close>

theorem ber_overlooked_witness:
  "CBS_asn1_ber_to_der (mem_of [0x30, 4, 0x30, 0x80, 0, 0, 0x30, 0]) (CBS_init 0 8) (\<lambda>_. 0) True True (\<lambda>_. True) =
     Some (Some None, CBS_init 0 8) \<and>
   fst (CBS_get_any_asn1 (mem_of [0x30, 4, 0x30, 0x80, 0, 0, 0x30, 0]) (CBS_init 2 4)) = None \<and>
   (\<exists>inp'. CBS_asn1_ber_to_der (mem_of [0x30, 0, 0x30, 4, 0x30, 0x80, 0, 0]) (CBS_init 0 8) (\<lambda>_. 0) True True (\<lambda>_. True) =
      Some (Some (Some [0x30, 0, 0x30, 2, 0x30, 0]), inp'))"
proof -
  define a b where "a = Def 0x30 [Indef 0x30 []]" and "b = Def 0x30 []"
  have e: "ber_bytes a = [0x30, 4, 0x30, 0x80, 0, 0]" "ber_bytes b = [0x30, 0]" "ber_bytes (normal a) = [0x30, 2, 0x30, 0]"
      "ber_bytes (normal b) = [0x30, 0]"
    by (simp_all add: a_def b_def der_element_def der_length_def is_string_type_def)
  have ok: "ber_ok a" "ber_ok b" "height a \<le> 2048" "height b \<le> 2048" "entered a" "last_found False [b, a]"
    by (simp_all add: a_def b_def is_string_type_def der_element_def der_length_def)
  have i: "cbs_bytes (mem_of [0x30, 4, 0x30, 0x80, 0, 0, 0x30, 0]) (CBS_init 0 8) = concat (map ber_bytes ([a] @ [Def 0x30 []]))"
      "cbs_bytes (mem_of [0x30, 0, 0x30, 4, 0x30, 0x80, 0, 0]) (CBS_init 0 8) = concat (map ber_bytes [b, a])"
    using e by (simp_all add: load_bytes_all b_def)
  have "CBS_asn1_ber_to_der (mem_of [0x30, 4, 0x30, 0x80, 0, 0, 0x30, 0]) (CBS_init 0 8) (\<lambda>_. 0) True True (\<lambda>_. True) =
     Some (Some None, CBS_init 0 8)"
    by (rule ber_overlooked [OF i(1)]) (use ok(1-5) in \<open>auto simp: b_def is_string_type_def\<close>)
  moreover have "fst (CBS_get_any_asn1 (mem_of [0x30, 4, 0x30, 0x80, 0, 0, 0x30, 0]) (CBS_init 2 4)) = None"
    by (simp add: CBS_get_any_asn1_eq load_bytes_def upt_rec mem_of_def der_long_def)
  moreover have "\<exists>inp'. CBS_asn1_ber_to_der (mem_of [0x30, 0, 0x30, 4, 0x30, 0x80, 0, 0]) (CBS_init 0 8) (\<lambda>_. 0) True True (\<lambda>_. True) =
      Some (Some (Some [0x30, 0, 0x30, 2, 0x30, 0]), inp')"
    using ber_to_der_found [OF i(2) _ _ _ _ ok(6), of "\<lambda>_. 0"] ok(1-4) e by (auto simp: kMaxDepth_def CBS_len_def)
  ultimately show ?thesis by blast
qed

section \<open>Implicitly tagged strings\<close>

lemma get_asn1_reads:
  assumes "tag AND 0x1f \<noteq> 0x1f" "length xs < 2 ^ 32" "cbs_bytes m c = der_element tag xs @ rest"
  obtains out c' where "CBS_get_asn1 m c (ucast tag) = (Some out, c')" "cbs_bytes m out = xs" "cbs_bytes m c' = rest"
    "CBS_peek_asn1_tag m c t \<longleftrightarrow> ucast tag = t"
proof -
  note h = der_element_header [OF assms]
  have "CBS_get_asn1 m c (ucast tag) = (Some (der_result c (1 + length (der_length (length xs))) (length xs)),
      cbs_adv c (length (der_element tag xs)))"
    using h(1,2) by (simp add: CBS_get_asn1_eq length_der_element)
  moreover have "cbs_bytes m (cbs_adv c (length (der_element tag xs))) = rest" by (simp add: assms(3))
  moreover have "m (CBS_data c) = tag" "0 < CBS_len c"
    using nth_cbs_bytes [of 0 c m] assms(3) h(2) by (simp_all add: der_element_def CBS_len_def CBS_data_def)
  then have "CBS_peek_asn1_tag m c t \<longleftrightarrow> ucast tag = t" by (simp add: CBS_peek_asn1_tag_def)
  ultimately show thesis using that h(3) by blast
qed

lemma chunks_append:
  assumes "tag AND 0x1f \<noteq> 0x1f"
  shows "\<forall>x \<in> set xs. length x < 2 ^ 32 \<Longrightarrow> cbs_bytes m child = concat (map (der_element tag) xs) \<Longrightarrow>
    cbb_runs c (map (Add_Bytes 0) xs) = (True, c') \<Longrightarrow> implicit_chunks m child (ucast tag) c = (True, c')"
proof (induction xs arbitrary: child c)
  case Nil
  then show ?case using length_cbs_bytes [of m child] by (simp add: implicit_chunks.simps CBS_len_def)
next
  case (Cons x xs)
  then have x: "length x < 2 ^ 32" "cbs_bytes m child = der_element tag x @ concat (map (der_element tag) xs)" by simp_all
  obtain out child' where g: "CBS_get_asn1 m child (ucast tag) = (Some out, child')" "cbs_bytes m out = x"
      "cbs_bytes m child' = concat (map (der_element tag) xs)"
    by (rule get_asn1_reads [OF assms x])
  have "CBS_len child \<noteq> 0" using get_asn1_shrinks [OF g(1)] by simp
  moreover obtain c1 where "CBB_add_bytes c 0 x = (True, c1)" "cbb_runs c1 (map (Add_Bytes 0) xs) = (True, c')"
    using Cons(4) by (auto split: prod.splits bool.splits)
  ultimately show ?case
    using Cons(1) [OF _ g(3)] Cons(2) g by (subst implicit_chunks.simps) simp
qed

lemma build_chunks:
  assumes "fresh_cbb cap c" "can_resize (base c)" "length (concat xs) < 2 ^ 64"
  shows "build c (map (Add_Bytes 0) xs) = Some (concat xs)"
proof -
  have "stack_at 0 s [] [] y \<Longrightarrow> \<exists>s'. spec_runs s (map (Add_Bytes 0) xs) = Some s' \<and> stack_at 0 s' [] [] (y @ concat xs)" for s y
  proof (induction xs arbitrary: s y)
    case (Cons x xs)
    then show ?case using stack_at_add [OF Cons(2), of x] by fastforce
  qed simp
  moreover have "stack_at 0 ([], [[]]) [] [] []" by (simp add: stack_at_def spec_flush_def)
  ultimately obtain s where "spec_runs ([], [[]]) (map (Add_Bytes 0) xs) = Some s" "stack_at 0 s [] [] (concat xs)" by fastforce
  then have "spec_build (map (Add_Bytes 0) xs) = Some (concat xs)"
    by (cases s) (auto simp: spec_build_def stack_at_def spec_flush_def)
  moreover have "length x \<le> length (concat xs)" if "x \<in> set xs" for x
    using that by (induction xs) auto
  then have "list_all op_small (map (Add_Bytes 0) xs)" using assms(3) by (fastforce simp: list_all_iff)
  ultimately show ?thesis using build_fresh [OF assms(1)] assms(2,3) by simp
qed

lemma chunk_le: "x \<in> set xs \<Longrightarrow> length x \<le> length (concat (map (der_element tag) xs))"
  by (induction xs) (auto simp: length_der_element)

lemma concat_chunks_le: "length (concat xs) \<le> length (concat (map (der_element tag) xs))"
  by (induction xs) (auto simp: length_der_element)

lemma constructed_differs: "tag AND 0x20 = 0 \<Longrightarrow> (ucast (tag OR 0x20 :: u8) :: u32) \<noteq> ucast tag"
proof
  assume t: "tag AND 0x20 = 0" "(ucast (tag OR 0x20) :: u32) = ucast tag"
  then have "tag OR 0x20 = tag" using ucast_byte_inj by blast
  then have "(tag OR 0x20) AND 0x20 = 0" using t(1) by simp
  then show False by (simp add: bit.conj_disj_distrib2)
qed

text \<open>
  \<open>CBS_get_asn1_implicit_string\<close> reads a string under an implicit tag in both of its forms: a primitive
  element gives its contents as a part of the input, without storage, and a constructed one gives the contents
  of its pieces, joined in storage of its own. Either way the element is consumed and nothing after it.
\<close>

theorem implicit_string_value:
  assumes "outer AND 0x1f \<noteq> 0x1f" "outer AND 0x20 = 0" "inner AND 0x1f \<noteq> 0x1f"
    and "cbs_bytes m inp = (if primitive then der_element outer (concat xs)
      else der_element (outer OR 0x20) (concat (map (der_element inner) xs))) @ rest"
    and "length (concat (map (der_element inner) xs)) < 2 ^ 32" "CBS_len inp < 2 ^ 64"
  shows "\<exists>v inp'. CBS_get_asn1_implicit_string m inp (ucast outer) (ucast inner) m0 True True (\<lambda>_. True) = (Some v, inp') \<and>
    cbs_bytes m inp' = rest \<and>
    (case v of Inl out \<Rightarrow> primitive \<and> cbs_bytes m out = concat xs | Inr data \<Rightarrow> \<not> primitive \<and> data = concat xs)"
proof (cases primitive)
  case True
  have "length (concat xs) < 2 ^ 32" using concat_chunks_le [of xs inner] assms(5) by linarith
  then obtain out inp' where "CBS_get_asn1 m inp (ucast outer) = (Some out, inp')" "cbs_bytes m out = concat xs"
      "cbs_bytes m inp' = rest" "CBS_peek_asn1_tag m inp (ucast outer)"
    using get_asn1_reads [OF assms(1), of "concat xs" m inp rest "ucast outer"] assms(4) True by auto
  then show ?thesis using True by (simp add: CBS_get_asn1_implicit_string_def)
next
  case False
  have tag: "(outer OR 0x20) AND 0x1f \<noteq> 0x1f" "ucast (outer OR 0x20) = ucast outer OR CBS_ASN1_CONSTRUCTED"
    using assms(1) by (simp_all add: bit.conj_disj_distrib2 unsigned_or_eq)
  obtain child inp' where g: "CBS_get_asn1 m inp (ucast (outer OR 0x20)) = (Some child, inp')"
      "cbs_bytes m child = concat (map (der_element inner) xs)" "cbs_bytes m inp' = rest"
      "\<not> CBS_peek_asn1_tag m inp (ucast outer)"
    using get_asn1_reads [OF tag(1) assms(5), of m inp rest "ucast outer"] assms(4) False constructed_differs [OF assms(2)] by auto
  obtain c where c: "CBB_init m0 (CBS_len inp) True True (\<lambda>_. True) = Some c" by (simp add: CBB_init_def)
  have fresh: "fresh_cbb (CBS_len inp) c" "can_resize (base c)"
    using c assms(6) by (auto simp: fresh_cbb_def CBB_init_def cbb_init_def)
  have "length (concat xs) < 2 ^ 64" using concat_chunks_le [of xs inner] assms(5) by simp
  then obtain c' where b: "cbb_runs c (map (Add_Bytes 0) xs) = (True, c')" "CBB_finish c' 0 True = Some (concat xs)"
    using build_chunks [OF fresh, of xs] by (auto simp: build_def split: prod.splits bool.splits)
  have "\<forall>x \<in> set xs. length x < 2 ^ 32" using chunk_le [of _ xs inner] assms(5) by fastforce
  then have "implicit_chunks m child (ucast inner) c = (True, c')" using chunks_append [OF assms(3) _ g(2) b(1)] by blast
  then show ?thesis using g c b(2) False by (simp add: CBS_get_asn1_implicit_string_def tag(2))
qed

text \<open>An octet string under the tag \<open>[0]\<close>, in two pieces.\<close>

theorem implicit_string_value_witness:
  "\<exists>inp'. CBS_get_asn1_implicit_string (mem_of [0xa0, 6, 4, 1, 7, 4, 1, 8, 5]) (CBS_init 0 9) (ucast (0x80 :: u8)) (ucast (4 :: u8))
      (\<lambda>_. 0) True True (\<lambda>_. True) = (Some (Inr [7, 8]), inp') \<and>
    cbs_bytes (mem_of [0xa0, 6, 4, 1, 7, 4, 1, 8, 5]) inp' = [5]"
proof -
  have i: "cbs_bytes (mem_of [0xa0, 6, 4, 1, 7, 4, 1, 8, 5]) (CBS_init 0 9) = (if False then der_element 0x80 (concat [[7], [8]])
      else der_element (0x80 OR 0x20) (concat (map (der_element 4) [[7], [8]]))) @ [5]"
    by (simp add: load_bytes_all der_element_def der_length_def)
  have l: "length (concat (map (der_element 4) [[7], [8]])) < 2 ^ 32" "CBS_len (CBS_init 0 9) < 2 ^ 64"
    by (simp_all add: der_element_def der_length_def CBS_len_def)
  have "\<exists>v inp'. CBS_get_asn1_implicit_string (mem_of [0xa0, 6, 4, 1, 7, 4, 1, 8, 5]) (CBS_init 0 9) (ucast (0x80 :: u8))
      (ucast (4 :: u8)) (\<lambda>_. 0) True True (\<lambda>_. True) = (Some v, inp') \<and>
      cbs_bytes (mem_of [0xa0, 6, 4, 1, 7, 4, 1, 8, 5]) inp' = [5] \<and>
      (case v of Inl out \<Rightarrow> False \<and> cbs_bytes (mem_of [0xa0, 6, 4, 1, 7, 4, 1, 8, 5]) out = concat [[7], [8]]
       | Inr data \<Rightarrow> \<not> False \<and> data = concat [[7], [8]])"
    by (rule implicit_string_value [OF _ _ _ i l]) simp_all
  then obtain v inp' where "CBS_get_asn1_implicit_string (mem_of [0xa0, 6, 4, 1, 7, 4, 1, 8, 5]) (CBS_init 0 9) (ucast (0x80 :: u8))
      (ucast (4 :: u8)) (\<lambda>_. 0) True True (\<lambda>_. True) = (Some v, inp')"
    "cbs_bytes (mem_of [0xa0, 6, 4, 1, 7, 4, 1, 8, 5]) inp' = [5]" "v = Inr [7, 8]"
    by (elim exE conjE) (simp split: sum.split_asm)
  then show ?thesis by blast
qed

end
