(* ===== verification/Constant_Time.thy ===== *)
theory Constant_Time
  imports Prelude
begin

text \<open>
  The constant-time comparisons and selections of \<open>crypto/internal.h\<close> over \<open>crypto_word_t\<close>, the
  64-bit word of the target, and the proof that each is the comparison it stands for, as a mask.
\<close>

type_synonym crypto_word = u64

definition constant_time_msb_w :: "crypto_word \<Rightarrow> crypto_word" where
  "constant_time_msb_w a = 0 - drop_bit 63 a"

definition constant_time_lt_w :: "crypto_word \<Rightarrow> crypto_word \<Rightarrow> crypto_word" where
  "constant_time_lt_w a b = constant_time_msb_w (a XOR ((a XOR b) OR ((a - b) XOR a)))"

definition constant_time_lt_8 :: "crypto_word \<Rightarrow> crypto_word \<Rightarrow> u8" where
  "constant_time_lt_8 a b = ucast (constant_time_lt_w a b)"

definition constant_time_ge_w :: "crypto_word \<Rightarrow> crypto_word \<Rightarrow> crypto_word" where
  "constant_time_ge_w a b = NOT (constant_time_lt_w a b)"

definition constant_time_ge_8 :: "crypto_word \<Rightarrow> crypto_word \<Rightarrow> u8" where
  "constant_time_ge_8 a b = ucast (constant_time_ge_w a b)"

definition constant_time_is_zero_w :: "crypto_word \<Rightarrow> crypto_word" where
  "constant_time_is_zero_w a = constant_time_msb_w (NOT a AND (a - 1))"

definition constant_time_is_zero_8 :: "crypto_word \<Rightarrow> u8" where
  "constant_time_is_zero_8 a = ucast (constant_time_is_zero_w a)"

definition constant_time_eq_w :: "crypto_word \<Rightarrow> crypto_word \<Rightarrow> crypto_word" where
  "constant_time_eq_w a b = constant_time_is_zero_w (a XOR b)"

definition constant_time_eq_8 :: "crypto_word \<Rightarrow> crypto_word \<Rightarrow> u8" where
  "constant_time_eq_8 a b = ucast (constant_time_eq_w a b)"

definition constant_time_eq_int :: "32 word \<Rightarrow> 32 word \<Rightarrow> crypto_word" where
  "constant_time_eq_int a b = constant_time_eq_w (scast a) (scast b)"

definition constant_time_eq_int_8 :: "32 word \<Rightarrow> 32 word \<Rightarrow> u8" where
  "constant_time_eq_int_8 a b = constant_time_eq_8 (scast a) (scast b)"

definition constant_time_select_w :: "crypto_word \<Rightarrow> crypto_word \<Rightarrow> crypto_word \<Rightarrow> crypto_word" where
  "constant_time_select_w m a b = (m AND a) OR (NOT m AND b)"

definition constant_time_select_8 :: "u8 \<Rightarrow> u8 \<Rightarrow> u8 \<Rightarrow> u8" where
  "constant_time_select_8 m a b = ucast (constant_time_select_w (ucast m) (ucast a) (ucast b))"

definition constant_time_select_int :: "crypto_word \<Rightarrow> 32 word \<Rightarrow> 32 word \<Rightarrow> 32 word" where
  "constant_time_select_int m a b = ucast (constant_time_select_w m (scast a) (scast b))"

section \<open>Masks\<close>

definition mask_of :: "bool \<Rightarrow> 'a::len word" where
  "mask_of p = (if p then - 1 else 0)"

named_theorems ct_simps "the comparisons as masks"

lemma drop_bit_63: "drop_bit 63 a = of_bool (bit (a :: u64) 63)"
proof (rule bit_word_eqI)
  fix n assume "n < LENGTH(64)"
  show "bit (drop_bit 63 a) n = bit (of_bool (bit a 63) :: u64) n"
    by (cases "n = 0") (auto simp: bit_simps dest: bit_imp_le_length)
qed

lemma bit63: "bit (a :: u64) 63 \<longleftrightarrow> 2 ^ 63 \<le> unat a"
proof -
  have "bit a 63 \<longleftrightarrow> drop_bit 63 a \<noteq> 0" by (simp add: drop_bit_63)
  then show ?thesis by (simp only: drop_bit_eq_0_unat not_less)
qed

lemma msb_mask [ct_simps]: "constant_time_msb_w a = mask_of (bit a 63)"
  by (simp add: constant_time_msb_w_def mask_of_def drop_bit_63)

lemma mask_of_simps [simp]: "NOT (mask_of p) = (mask_of (\<not> p) :: 'a::len word)"
  "mask_of p = (0 :: 'a word) \<longleftrightarrow> \<not> p"
  by (simp_all add: mask_of_def)

lemma ucast_mask_of [simp]: "ucast (mask_of p :: u64) = (mask_of p :: u8)"
  by (rule bit_word_eqI) (auto simp: mask_of_def bit_simps)

lemma u8_mask_of [simp]: "(mask_of p :: u8) = (if p then 0xff else 0)"
  by (simp add: mask_of_def)

lemma lt_mask [ct_simps]: "constant_time_lt_w a b = mask_of (a < b)"
proof -
  have ab: "unat a < 2 ^ 64" "unat b < 2 ^ 64"
    using unsigned_less [of a, where 'a = nat] unsigned_less [of b, where 'a = nat] by simp_all
  have sub: "unat (a - b) = (if unat b \<le> unat a then unat a - unat b else unat a + 2 ^ 64 - unat b)"
    by (simp add: unat_sub_if_size word_size)
  have "bit (a XOR ((a XOR b) OR ((a - b) XOR a))) 63 \<longleftrightarrow>
      (if bit a 63 = bit b 63 then bit (a - b) 63 else bit b 63)"
    by (auto simp: bit_simps)
  also have "\<dots> \<longleftrightarrow> a < b"
    unfolding bit63 word_less_nat_alt sub
    using ab by (cases "unat b \<le> unat a"; cases "2 ^ 63 \<le> unat a"; cases "2 ^ 63 \<le> unat b") auto
  finally show ?thesis by (simp add: constant_time_lt_w_def msb_mask)
qed

lemma is_zero_mask [ct_simps]: "constant_time_is_zero_w a = mask_of (a = 0)"
proof (cases "a = 0")
  case True
  then show ?thesis by (simp add: constant_time_is_zero_w_def msb_mask mask_of_def bit_simps)
next
  case False
  then have "0 < unat a" by (simp add: unat_gt_0)
  moreover have "unat (a - 1) = unat a - 1" using False by (simp add: unat_minus_one)
  ultimately have "\<not> (\<not> bit a 63 \<and> bit (a - 1) 63)" by (simp add: bit63) linarith
  then show ?thesis using False by (simp add: constant_time_is_zero_w_def msb_mask mask_of_def bit_simps)
qed

lemma eq_mask [ct_simps]: "constant_time_eq_w a b = mask_of (a = b)"
proof -
  have "a XOR b = 0 \<longleftrightarrow> a = b" by (auto simp: bit_eq_iff bit_simps)
  then show ?thesis by (simp add: constant_time_eq_w_def is_zero_mask)
qed

lemma select_mask [ct_simps]: "constant_time_select_w (mask_of p) a b = (if p then a else b)"
  by (simp add: constant_time_select_w_def mask_of_def)

lemma select_8_mask [ct_simps]: "constant_time_select_8 (mask_of p) a b = (if p then a else b)"
  by (rule bit_word_eqI) (auto simp: constant_time_select_8_def constant_time_select_w_def mask_of_def bit_simps
    simp del: u8_mask_of)

lemma ucast_scast_32: "(ucast (scast (i :: u32) :: u64) :: u32) = i"
proof (rule bit_word_eqI)
  fix n assume "n < LENGTH(32)"
  then show "bit (ucast (scast i :: u64) :: u32) n = bit i n"
    by (cases "n = 31") (auto simp: bit_simps min_def)
qed

text \<open>
  C21: every constant-time comparison is the mask of the comparison it is named after, all ones or
  all zeros, and every selection by such a mask is the choice: the branch-free code computes what
  the branching code would.
\<close>

theorem constant_time_correct:
  "constant_time_lt_w a b = (if a < b then - 1 else 0) \<and>
   constant_time_ge_w a b = (if a \<ge> b then - 1 else 0) \<and>
   constant_time_eq_w a b = (if a = b then - 1 else 0) \<and>
   constant_time_is_zero_w a = (if a = 0 then - 1 else 0) \<and>
   constant_time_lt_8 a b = (if a < b then 0xff else 0) \<and>
   constant_time_ge_8 a b = (if a \<ge> b then 0xff else 0) \<and>
   constant_time_eq_8 a b = (if a = b then 0xff else 0) \<and>
   constant_time_is_zero_8 a = (if a = 0 then 0xff else 0) \<and>
   constant_time_eq_int i j = (if i = j then - 1 else 0) \<and>
   constant_time_eq_int_8 i j = (if i = j then 0xff else 0) \<and>
   constant_time_select_w (if p then - 1 else 0) a b = (if p then a else b) \<and>
   constant_time_select_8 (if p then 0xff else 0) x y = (if p then x else y) \<and>
   constant_time_select_int (if p then - 1 else 0) i j = (if p then i else j)"
proof -
  have scast: "scast i = (scast j :: u64) \<longleftrightarrow> i = j" for i j :: u32
  proof
    assume "scast i = (scast j :: u64)"
    then have "(ucast (scast i :: u64) :: u32) = ucast (scast j :: u64)" by simp
    then show "i = j" by (simp add: ucast_scast_32)
  qed simp
  have s8: "constant_time_select_8 (if p then 0xff else 0) x y = (if p then x else y)"
    using select_8_mask [of p x y] by simp
  have sw: "constant_time_select_w (if p then - 1 else 0) a b = (if p then a else b)" for p a b
    using select_mask [of p a b] by (simp add: mask_of_def)
  show ?thesis
    using s8 sw by (simp add: ct_simps constant_time_lt_8_def constant_time_ge_w_def constant_time_ge_8_def
      constant_time_eq_8_def constant_time_is_zero_8_def constant_time_eq_int_def
      constant_time_eq_int_8_def constant_time_select_int_def scast ucast_scast_32)
      (auto simp: mask_of_def not_less not_le word_neq_0_conv)
qed

end
