(* ===== verification/Base64.thy ===== *)
theory Base64
  imports Constant_Time
begin

text \<open>
  The base64 coder of BoringSSL (\<open>crypto/base64/base64.c\<close>): the constant-time character tables, the
  block coder, and the streaming coder with its context. Output is the list of the bytes stored
  through the output pointer; characters are bytes, with ASCII codes as numbers.
\<close>

section \<open>Characters\<close>

definition constant_time_lt_args_8 :: "u8 \<Rightarrow> u8 \<Rightarrow> u8" where
  "constant_time_lt_args_8 a b =
     (let aw = ucast a; bw = ucast b in ucast (constant_time_msb_w (aw - bw)))"

definition constant_time_in_range_8 :: "u8 \<Rightarrow> u8 \<Rightarrow> u8 \<Rightarrow> u8" where
  "constant_time_in_range_8 a lo hi = constant_time_lt_args_8 (a - lo) (hi - lo + 1)"

definition conv_bin2ascii :: "u8 \<Rightarrow> u8" where
  "conv_bin2ascii a =
     (let a = a AND 0x3f;
          ret = constant_time_select_8 (constant_time_eq_8 (ucast a) 62) 43 47;
          ret = constant_time_select_8 (constant_time_lt_args_8 a 62) (a - 52 + 48) ret;
          ret = constant_time_select_8 (constant_time_lt_args_8 a 52) (a - 26 + 97) ret in
      constant_time_select_8 (constant_time_lt_args_8 a 26) (a + 65) ret)"

definition base64_ascii_to_bin :: "u8 \<Rightarrow> u8" where
  "base64_ascii_to_bin a =
     (let is_upper = constant_time_in_range_8 a 65 90;
          is_lower = constant_time_in_range_8 a 97 122;
          is_digit = constant_time_in_range_8 a 48 57;
          is_plus = constant_time_eq_8 (ucast a) 43;
          is_slash = constant_time_eq_8 (ucast a) 47;
          is_equals = constant_time_eq_8 (ucast a) 61;
          ret = constant_time_select_8 is_upper (a - 65) 0xff;
          ret = constant_time_select_8 is_lower (a - 97 + 26) ret;
          ret = constant_time_select_8 is_digit (a - 48 + 52) ret;
          ret = constant_time_select_8 is_plus 62 ret;
          ret = constant_time_select_8 is_slash 63 ret in
      constant_time_select_8 is_equals 0 ret)"

section \<open>Encoding\<close>

definition EVP_EncodedLength :: "u64 \<Rightarrow> u64 option" where
  "EVP_EncodedLength len =
     (if len + 2 < len then None
      else
        let len = (len + 2) div 3 in
        if drop_bit 2 (push_bit 2 len) \<noteq> len then None
        else
          let len = push_bit 2 len in
          if len + 1 < len then None else Some (len + 1))"

text \<open>The loop of \<open>EVP_EncodeBlock\<close>; \<open>EVP_EncodeBlock\<close> gives the bytes stored, the terminating zero
  included, and the count it returns.\<close>

fun encode_quads :: "u8 list \<Rightarrow> u8 list" where
  "encode_quads (s0 # s1 # s2 # src) =
     (let l = push_bit 16 (ucast s0) OR push_bit 8 (ucast s1) OR (ucast s2 :: u32) in
      conv_bin2ascii (ucast (drop_bit 18 l)) # conv_bin2ascii (ucast (drop_bit 12 l)) #
      conv_bin2ascii (ucast (drop_bit 6 l)) # conv_bin2ascii (ucast l) # encode_quads src)"
| "encode_quads [s0, s1] =
     (let l = push_bit 16 (ucast s0) OR push_bit 8 (ucast s1 :: u32) in
      [conv_bin2ascii (ucast (drop_bit 18 l)), conv_bin2ascii (ucast (drop_bit 12 l)),
       conv_bin2ascii (ucast (drop_bit 6 l)), 61])"
| "encode_quads [s0] =
     (let l = push_bit 16 (ucast s0 :: u32) in
      [conv_bin2ascii (ucast (drop_bit 18 l)), conv_bin2ascii (ucast (drop_bit 12 l)), 61, 61])"
| "encode_quads [] = []"

definition EVP_EncodeBlock :: "u8 list \<Rightarrow> u8 list \<times> nat" where
  "EVP_EncodeBlock src = (encode_quads src @ [0], length (encode_quads src))"

record evp_encode_ctx =
  data_used :: nat
  ctx_data :: "u8 list"
  eof_seen :: bool
  error_encountered :: bool

definition EVP_EncodeInit :: evp_encode_ctx where
  "EVP_EncodeInit = \<lparr>data_used = 0, ctx_data = replicate 48 0, eof_seen = False, error_encountered = False\<rparr>"

text \<open>\<open>memcpy\<close> into the data of the context.\<close>

definition ctx_put :: "u8 list \<Rightarrow> nat \<Rightarrow> u8 list \<Rightarrow> u8 list" where
  "ctx_put data pos xs = take pos data @ xs @ drop (pos + length xs) data"

definition INT_MAX :: nat where
  "INT_MAX = 2 ^ 31 - 1"

text \<open>The loop over whole lines: the characters stored, the total unless it wraps, and the input
  left. The zero behind each line is overwritten by what follows it.\<close>

function encode_lines :: "u8 list \<Rightarrow> nat \<Rightarrow> u8 list \<times> nat option \<times> u8 list" where
  "encode_lines src tot =
     (if length src < 48 then ([], Some tot, src)
      else
        let (out, encoded) = EVP_EncodeBlock (take 48 src); line = take encoded out @ [10] in
        if size_add (size_add tot encoded) 1 < tot then (line, None, drop 48 src)
        else
          let (rest_out, r, left) = encode_lines (drop 48 src) (size_add (size_add tot encoded) 1) in
          (line @ rest_out, r, left))"
  by pat_completeness auto

termination by (relation "measure (\<lambda>(src, tot). length src)") auto

declare encode_lines.simps [simp del]

definition EVP_EncodeUpdate :: "evp_encode_ctx \<Rightarrow> u8 list \<Rightarrow> u8 list \<times> nat \<times> evp_encode_ctx" where
  "EVP_EncodeUpdate ctx src =
     (if src = [] then ([], 0, ctx)
      else if length src < 48 - data_used ctx then
        ([], 0, ctx\<lparr>ctx_data := ctx_put (ctx_data ctx) (data_used ctx) src,
           data_used := data_used ctx + length src\<rparr>)
      else
        let (first, tot, src, ctx) =
              (if data_used ctx \<noteq> 0 then
                 let todo = 48 - data_used ctx;
                     data = ctx_put (ctx_data ctx) (data_used ctx) (take todo src);
                     (out, encoded) = EVP_EncodeBlock data in
                 (take encoded out @ [10], encoded + 1, drop todo src,
                  ctx\<lparr>ctx_data := data, data_used := 0\<rparr>)
               else ([], 0, src, ctx));
            (lines, r, left) = encode_lines src tot in
        case r of
          None \<Rightarrow> (first @ lines, 0, ctx)
        | Some tot \<Rightarrow>
            (first @ lines, if INT_MAX < tot then 0 else tot,
             ctx\<lparr>ctx_data := (if left \<noteq> [] then ctx_put (ctx_data ctx) 0 left else ctx_data ctx),
               data_used := length left\<rparr>))"

definition EVP_EncodeFinal :: "evp_encode_ctx \<Rightarrow> u8 list \<times> nat \<times> evp_encode_ctx" where
  "EVP_EncodeFinal ctx =
     (if data_used ctx = 0 then ([], 0, ctx)
      else
        let (out, encoded) = EVP_EncodeBlock (take (data_used ctx) (ctx_data ctx)) in
        (take encoded out @ [10], encoded + 1, ctx\<lparr>data_used := 0\<rparr>))"

section \<open>Decoding\<close>

definition EVP_DecodedLength :: "nat \<Rightarrow> nat option" where
  "EVP_DecodedLength len = (if len mod 4 \<noteq> 0 then None else Some (len div 4 * 3))"

definition EVP_DecodeInit :: evp_encode_ctx where
  "EVP_DecodeInit = EVP_EncodeInit"

definition base64_decode_quad :: "u8 \<Rightarrow> u8 \<Rightarrow> u8 \<Rightarrow> u8 \<Rightarrow> u8 list option" where
  "base64_decode_quad i0 i1 i2 i3 =
     (let a = base64_ascii_to_bin i0; b = base64_ascii_to_bin i1;
          c = base64_ascii_to_bin i2; d = base64_ascii_to_bin i3 in
      if a = 0xff \<or> b = 0xff \<or> c = 0xff \<or> d = 0xff then None
      else
        let v = push_bit 18 (ucast a) OR push_bit 12 (ucast b) OR push_bit 6 (ucast c) OR (ucast d :: u32);
            padding_pattern = push_bit 3 (of_bool (i0 = 61)) OR push_bit 2 (of_bool (i1 = 61)) OR
              push_bit 1 (of_bool (i2 = 61)) OR (of_bool (i3 = 61) :: u32) in
        if padding_pattern = 0 then Some [ucast (drop_bit 16 v), ucast (drop_bit 8 v), ucast v]
        else if padding_pattern = 1 then Some [ucast (drop_bit 16 v), ucast (drop_bit 8 v)]
        else if padding_pattern = 3 then Some [ucast (drop_bit 16 v)]
        else None)"

text \<open>The loop of \<open>EVP_DecodeUpdate\<close>: the bytes stored and the context, and whether it went through.\<close>

definition is_skipped :: "u8 \<Rightarrow> bool" where
  "is_skipped c \<longleftrightarrow> c = 32 \<or> c = 9 \<or> c = 13 \<or> c = 10"

fun decode_chars :: "u8 list \<Rightarrow> evp_encode_ctx \<Rightarrow> bool \<times> u8 list \<times> evp_encode_ctx" where
  "decode_chars [] ctx = (True, [], ctx)"
| "decode_chars (c # src) ctx =
     (if is_skipped c then decode_chars src ctx
      else if eof_seen ctx then (False, [], ctx\<lparr>error_encountered := True\<rparr>)
      else
        let ctx = ctx\<lparr>ctx_data := (ctx_data ctx)[data_used ctx := c], data_used := data_used ctx + 1\<rparr> in
        if data_used ctx = 4 then
          (let d = ctx_data ctx in
           case base64_decode_quad (d ! 0) (d ! 1) (d ! 2) (d ! 3) of
             None \<Rightarrow> (False, [], ctx\<lparr>error_encountered := True\<rparr>)
           | Some bytes \<Rightarrow>
               let ctx = ctx\<lparr>data_used := 0, eof_seen := eof_seen ctx \<or> length bytes < 3\<rparr>;
                   (ok, out, ctx) = decode_chars src ctx in
               (ok, bytes @ out, ctx))
        else decode_chars src ctx)"

definition EVP_DecodeUpdate :: "evp_encode_ctx \<Rightarrow> u8 list \<Rightarrow> int \<times> nat \<times> u8 list \<times> evp_encode_ctx" where
  "EVP_DecodeUpdate ctx src =
     (if error_encountered ctx then (- 1, 0, [], ctx)
      else
        let (ok, out, ctx) = decode_chars src ctx in
        if \<not> ok then (- 1, 0, out, ctx)
        else if INT_MAX < length out then (- 1, 0, out, ctx\<lparr>error_encountered := True\<rparr>)
        else (if eof_seen ctx then 0 else 1, length out, out, ctx))"

definition EVP_DecodeFinal :: "evp_encode_ctx \<Rightarrow> int" where
  "EVP_DecodeFinal ctx = (if error_encountered ctx \<or> data_used ctx \<noteq> 0 then - 1 else 1)"

text \<open>The loop over quads: only the last one may be padded.\<close>

fun decode_quads :: "u8 list \<Rightarrow> u8 list option" where
  "decode_quads (i0 # i1 # i2 # i3 # src) =
     (case base64_decode_quad i0 i1 i2 i3 of
        None \<Rightarrow> None
      | Some bytes \<Rightarrow>
          if length bytes \<noteq> 3 \<and> src \<noteq> [] then None
          else map_option ((@) bytes) (decode_quads src))"
| "decode_quads _ = Some []"

definition EVP_DecodeBase64 :: "nat \<Rightarrow> u8 list \<Rightarrow> u8 list option" where
  "EVP_DecodeBase64 max_out src =
     (if length src mod 4 \<noteq> 0 then None
      else case EVP_DecodedLength (length src) of
          None \<Rightarrow> None
        | Some max_len \<Rightarrow> if max_out < max_len then None else decode_quads src)"

definition trim_front :: "u8 list \<Rightarrow> u8 list" where
  "trim_front src = dropWhile (\<lambda>c. c = 32 \<or> c = 9) src"

definition trim_back :: "u8 list \<Rightarrow> u8 list" where
  "trim_back src = rev (dropWhile is_skipped (rev src))"

text \<open>The zeros put where the padding was.\<close>

definition pad_3 :: "u8 list \<Rightarrow> u8 list" where
  "pad_3 out = out @ replicate ((3 - length out mod 3) mod 3) 0"

text \<open>The bytes stored, as many as the function returns; \<^term>\<open>None\<close> is a return of -1.\<close>

definition EVP_DecodeBlock :: "u8 list \<Rightarrow> u8 list option" where
  "EVP_DecodeBlock src =
     (let src = trim_back (trim_front src) in
      case EVP_DecodedLength (length src) of
        None \<Rightarrow> None
      | Some dst_len \<Rightarrow>
          if INT_MAX < dst_len then None
          else map_option pad_3 (EVP_DecodeBase64 dst_len src))"

section \<open>The tables\<close>

lemma lt_args_mask: "constant_time_lt_args_8 a b = mask_of (a < b)"
proof -
  have ab: "unat a < 256" "unat b < 256"
    using unsigned_less [of a, where 'a = nat] unsigned_less [of b, where 'a = nat] by simp_all
  have u: "unat (ucast a :: u64) = unat a" "unat (ucast b :: u64) = unat b"
    by (simp_all add: unsigned_ucast_eq take_bit_nat_eq_self_iff ab [THEN less_trans])
  have "unat (ucast a - (ucast b :: u64)) =
      (if unat b \<le> unat a then unat a - unat b else unat a + 2 ^ 64 - unat b)"
    by (simp add: unat_sub_if_size word_size u)
  then have "bit (ucast a - (ucast b :: u64)) 63 \<longleftrightarrow> a < b"
    using ab by (auto simp: bit63 word_less_nat_alt)
  then show ?thesis by (simp add: constant_time_lt_args_8_def Let_def msb_mask)
qed

lemma eq_8_mask: "constant_time_eq_8 (ucast a) (ucast b) = mask_of (a = (b :: u8))"
proof -
  have "ucast a = (ucast b :: u64) \<longleftrightarrow> a = b"
  proof
    assume "ucast a = (ucast b :: u64)"
    then have "(ucast (ucast a :: u64) :: u8) = ucast (ucast b :: u64)" by simp
    moreover have "(ucast (ucast x :: u64) :: u8) = x" for x :: u8
      by (rule bit_word_eqI) (auto simp: bit_simps)
    ultimately show "a = b" by simp
  qed simp
  then show ?thesis by (simp add: constant_time_eq_8_def eq_mask)
qed

lemma eq_8_numeral: "constant_time_eq_8 (ucast (a :: u8)) 62 = mask_of (a = 62)"
  "constant_time_eq_8 (ucast a) 43 = mask_of (a = 43)" "constant_time_eq_8 (ucast a) 47 = mask_of (a = 47)"
  "constant_time_eq_8 (ucast a) 61 = mask_of (a = 61)"
  using eq_8_mask [of a 62] eq_8_mask [of a 43] eq_8_mask [of a 47] eq_8_mask [of a 61] by simp_all

lemma in_range_mask: "lo \<le> hi \<Longrightarrow> hi < 255 \<Longrightarrow> constant_time_in_range_8 a lo hi = mask_of (lo \<le> a \<and> a \<le> hi)"
  unfolding constant_time_in_range_8_def lt_args_mask
proof -
  assume h: "lo \<le> hi" "hi < 255"
  have l: "unat a < 256" "unat lo \<le> unat hi" "unat hi < 255"
    using h unsigned_less [of a, where 'a = nat] by (simp_all add: word_le_nat_alt word_less_nat_alt)
  have "unat (hi - lo + 1) = unat hi - unat lo + 1"
    using l by (simp add: unat_word_ariths unat_sub_if_size word_size)
  moreover have "unat (a - lo) = (if unat lo \<le> unat a then unat a - unat lo else unat a + 256 - unat lo)"
    by (simp add: unat_sub_if_size word_size)
  ultimately have "a - lo < hi - lo + 1 \<longleftrightarrow> lo \<le> a \<and> a \<le> hi"
    using l by (auto simp: word_less_nat_alt word_le_nat_alt)
  then show "mask_of (a - lo < hi - lo + 1) = mask_of (lo \<le> a \<and> a \<le> hi)" by simp
qed

lemma conv_bin2ascii_eq:
  "conv_bin2ascii a =
     (let i = a AND 0x3f in
      if i < 26 then i + 65 else if i < 52 then i - 26 + 97 else if i < 62 then i - 52 + 48
      else if i = 62 then 43 else 47)"
  unfolding conv_bin2ascii_def Let_def lt_args_mask eq_8_numeral select_8_mask by auto

lemma base64_ascii_to_bin_eq:
  "base64_ascii_to_bin a =
     (if a = 61 then 0 else if a = 47 then 63 else if a = 43 then 62
      else if 48 \<le> a \<and> a \<le> 57 then a - 48 + 52
      else if 97 \<le> a \<and> a \<le> 122 then a - 97 + 26
      else if 65 \<le> a \<and> a \<le> 90 then a - 65 else 0xff)"
proof -
  have r: "constant_time_in_range_8 a 65 90 = mask_of (65 \<le> a \<and> a \<le> 90)"
    "constant_time_in_range_8 a 97 122 = mask_of (97 \<le> a \<and> a \<le> 122)"
    "constant_time_in_range_8 a 48 57 = mask_of (48 \<le> a \<and> a \<le> 57)"
    by (rule in_range_mask; simp)+
  show ?thesis
    unfolding base64_ascii_to_bin_def Let_def r eq_8_numeral select_8_mask by auto
qed

definition base64_alphabet :: "u8 list" where
  "base64_alphabet = map (\<lambda>i. word_of_nat (i + 65)) [0..<26] @ map (\<lambda>i. word_of_nat (i + 97)) [0..<26] @
     map (\<lambda>i. word_of_nat (i + 48)) [0..<10] @ [43, 47]"

lemma six_bits: "unat (a AND 0x3f :: u8) < 64"
proof -
  have "a AND 0x3f = take_bit 6 a" by (simp add: take_bit_eq_mask mask_eq_exp_minus_1)
  then have "unat (a AND 0x3f) = take_bit 6 (unat a)" by (simp add: unsigned_take_bit_eq)
  then show ?thesis using take_bit_nat_less_exp [of 6 "unat a"] by simp
qed

text \<open>Each range of the alphabet is read back, and has neither padding nor white space in it.\<close>

lemma upper_part:
  assumes "unat i < 26"
  shows "base64_ascii_to_bin (i + 65) = i" "i + 65 \<noteq> 61" "\<not> is_skipped (i + 65)"
proof -
  have x: "unat (i + 65) = unat i + 65" using assms by (simp add: unat_word_ariths)
  show "i + 65 \<noteq> 61" "\<not> is_skipped (i + 65)" using assms
    by (auto simp: is_skipped_def word_unat_eq_iff x simp del: add_diff_cancel)
  show "base64_ascii_to_bin (i + 65) = i"
    using assms x by (simp add: base64_ascii_to_bin_eq word_unat_eq_iff [of "i + 65"] word_le_nat_alt)
qed

lemma lower_part:
  assumes "unat i < 26"
  shows "base64_ascii_to_bin (i + 97) = i + 26" "i + 97 \<noteq> 61" "\<not> is_skipped (i + 97)"
proof -
  have x: "unat (i + 97) = unat i + 97" using assms by (simp add: unat_word_ariths)
  show "i + 97 \<noteq> 61" "\<not> is_skipped (i + 97)" using assms
    by (auto simp: is_skipped_def word_unat_eq_iff x simp del: add_diff_cancel)
  show "base64_ascii_to_bin (i + 97) = i + 26"
    using assms x by (simp add: base64_ascii_to_bin_eq word_unat_eq_iff [of "i + 97"] word_le_nat_alt)
qed

lemma digit_part:
  assumes "unat i < 10"
  shows "base64_ascii_to_bin (i + 48) = i + 52" "i + 48 \<noteq> 61" "\<not> is_skipped (i + 48)"
proof -
  have x: "unat (i + 48) = unat i + 48" using assms by (simp add: unat_word_ariths)
  show "i + 48 \<noteq> 61" "\<not> is_skipped (i + 48)" using assms
    by (auto simp: is_skipped_def word_unat_eq_iff x simp del: add_diff_cancel)
  show "base64_ascii_to_bin (i + 48) = i + 52"
    using assms x by (simp add: base64_ascii_to_bin_eq word_unat_eq_iff [of "i + 48"] word_le_nat_alt)
qed

lemma conv_roundtrip:
  "base64_ascii_to_bin (conv_bin2ascii a) = a AND 0x3f \<and> conv_bin2ascii a \<noteq> 61 \<and> \<not> is_skipped (conv_bin2ascii a)"
proof -
  define i where "i = a AND 0x3f"
  have i: "unat i < 64" using six_bits by (simp add: i_def)
  then have "unat i < 26 \<or> 26 \<le> unat i \<and> unat i < 52 \<or> 52 \<le> unat i \<and> unat i < 62 \<or> unat i = 62 \<or> unat i = 63"
    by linarith
  then consider "unat i < 26" | "26 \<le> unat i" "unat i < 52" | "52 \<le> unat i" "unat i < 62" | "i = 62" | "i = 63"
    by (auto simp: word_unat_eq_iff)
  then show ?thesis
  proof cases
    case 1
    then show ?thesis
      using upper_part [of i] by (simp add: conv_bin2ascii_eq i_def [symmetric] word_less_nat_alt)
  next
    case 2
    then have "unat (i - 26) < 26" by (simp add: unat_sub_if_size)
    then show ?thesis
      using lower_part [of "i - 26"] 2 by (simp add: conv_bin2ascii_eq i_def [symmetric] word_less_nat_alt)
  next
    case 3
    then have "unat (i - 52) < 10" by (simp add: unat_sub_if_size)
    then show ?thesis
      using digit_part [of "i - 52"] 3 by (simp add: conv_bin2ascii_eq i_def [symmetric] word_less_nat_alt)
  qed (simp_all add: conv_bin2ascii_eq i_def [symmetric] base64_ascii_to_bin_eq is_skipped_def)
qed

section \<open>Quads\<close>

lemma and_0x3f: "a AND 0x3f = take_bit 6 (a :: u8)"
  by (simp add: take_bit_eq_mask mask_eq_exp_minus_1)

lemma conv_facts [simp]:
  "base64_ascii_to_bin (conv_bin2ascii a) = take_bit 6 a"
  "conv_bin2ascii a \<noteq> 61" "61 \<noteq> conv_bin2ascii a" "\<not> is_skipped (conv_bin2ascii a)"
  using conv_roundtrip [of a] by (auto simp: and_0x3f)

lemma six_bits_not_ff [simp]: "take_bit 6 a \<noteq> (0xff :: u8)"
proof -
  have "unat (take_bit 6 a) < 64" using six_bits [of a] by (simp add: and_0x3f)
  then show ?thesis by auto
qed

lemma bin_equals [simp]: "base64_ascii_to_bin 61 = 0"
  by (simp add: base64_ascii_to_bin_eq)

text \<open>Four groups of six bits hold three bytes.\<close>

lemma join_bits: "push_bit n (take_bit k (drop_bit n w)) OR take_bit n w = take_bit (n + k) (w :: 'a::len word)"
  by (rule bit_word_eqI) (auto simp: bit_simps)

lemma ucast_low_bits: "k \<le> 8 \<Longrightarrow> ucast (take_bit k (ucast w :: u8)) = take_bit k (w :: u32)"
  by (rule bit_word_eqI) (auto simp: bit_simps)

definition quad_word :: "u8 \<Rightarrow> u8 \<Rightarrow> u8 \<Rightarrow> u32" where
  "quad_word s0 s1 s2 = push_bit 16 (ucast s0) OR push_bit 8 (ucast s1) OR ucast s2"

lemma quad_word_bytes:
  "ucast (drop_bit 16 (quad_word s0 s1 s2)) = s0" "ucast (drop_bit 8 (quad_word s0 s1 s2)) = s1"
  "ucast (quad_word s0 s1 s2) = s2"
  unfolding quad_word_def by (rule bit_word_eqI; auto simp: bit_simps dest: bit_imp_le_length)+

lemma quad_word_24: "take_bit 24 (quad_word s0 s1 s2) = quad_word s0 s1 s2"
  unfolding quad_word_def by (rule bit_word_eqI; auto simp: bit_simps dest: bit_imp_le_length)+

lemma quad_word_0:
  "push_bit 16 (ucast s0) OR push_bit 8 (ucast s1) = quad_word s0 s1 0" "push_bit 16 (ucast s0) = quad_word s0 0 0"
  by (simp_all add: quad_word_def)

lemma sextets_bits:
  "push_bit 18 (take_bit 6 (drop_bit 18 w)) OR push_bit 12 (take_bit 6 (drop_bit 12 w)) OR
     push_bit 6 (take_bit 6 (drop_bit 6 w)) OR take_bit 6 w = take_bit 24 (w :: u32)"
  using join_bits [of 6 6 w] join_bits [of 12 6 w] join_bits [of 18 6 w] by simp

lemma low_sextet_0: "take_bit 6 (ucast (quad_word s0 s1 0) :: u8) = 0" 
  "take_bit 6 (ucast (drop_bit 6 (quad_word s0 0 0)) :: u8) = 0"
  unfolding quad_word_def by (rule bit_word_eqI; auto simp: bit_simps dest: bit_imp_le_length)+

lemma decode_quad_word:
  assumes i0: "base64_ascii_to_bin i0 = take_bit 6 (ucast (drop_bit 18 w))"
    and i1: "base64_ascii_to_bin i1 = take_bit 6 (ucast (drop_bit 12 w))"
    and i2: "base64_ascii_to_bin i2 = take_bit 6 (ucast (drop_bit 6 w))"
    and i3: "base64_ascii_to_bin i3 = take_bit 6 (ucast w)"
    and w: "w = quad_word s0 s1 s2" and "i0 \<noteq> 61" "i1 \<noteq> 61"
  shows "base64_decode_quad i0 i1 i2 i3 =
    (if i2 = 61 then if i3 = 61 then Some [s0] else None else if i3 = 61 then Some [s0, s1] else Some [s0, s1, s2])"
proof -
  let ?v = "push_bit 18 (ucast (base64_ascii_to_bin i0)) OR push_bit 12 (ucast (base64_ascii_to_bin i1)) OR
    push_bit 6 (ucast (base64_ascii_to_bin i2)) OR (ucast (base64_ascii_to_bin i3) :: u32)"
  have v: "?v = quad_word s0 s1 s2"
    unfolding i0 i1 i2 i3 by (simp add: ucast_low_bits sextets_bits w quad_word_24)
  show ?thesis
    unfolding base64_decode_quad_def Let_def v using assms by (simp add: i0 i1 i2 i3 quad_word_bytes)
qed

lemma decode_encoded_quad:
  "w = quad_word s0 s1 s2 \<Longrightarrow>
    base64_decode_quad (conv_bin2ascii (ucast (drop_bit 18 w))) (conv_bin2ascii (ucast (drop_bit 12 w)))
      (conv_bin2ascii (ucast (drop_bit 6 w))) (conv_bin2ascii (ucast w)) = Some [s0, s1, s2]"
  "w = quad_word s0 s1 0 \<Longrightarrow>
    base64_decode_quad (conv_bin2ascii (ucast (drop_bit 18 w))) (conv_bin2ascii (ucast (drop_bit 12 w)))
      (conv_bin2ascii (ucast (drop_bit 6 w))) 61 = Some [s0, s1]"
  "w = quad_word s0 0 0 \<Longrightarrow>
    base64_decode_quad (conv_bin2ascii (ucast (drop_bit 18 w))) (conv_bin2ascii (ucast (drop_bit 12 w))) 61 61 = Some [s0]"
  by (subst decode_quad_word [where w = w]; simp add: low_sextet_0)+

section \<open>Blocks\<close>

lemma encode_quads_word:
  "encode_quads (s0 # s1 # s2 # src) =
     (let w = quad_word s0 s1 s2 in
      conv_bin2ascii (ucast (drop_bit 18 w)) # conv_bin2ascii (ucast (drop_bit 12 w)) #
      conv_bin2ascii (ucast (drop_bit 6 w)) # conv_bin2ascii (ucast w) # encode_quads src)"
  "encode_quads [s0, s1] =
     (let w = quad_word s0 s1 0 in
      [conv_bin2ascii (ucast (drop_bit 18 w)), conv_bin2ascii (ucast (drop_bit 12 w)), conv_bin2ascii (ucast (drop_bit 6 w)), 61])"
  "encode_quads [s0] =
     (let w = quad_word s0 0 0 in [conv_bin2ascii (ucast (drop_bit 18 w)), conv_bin2ascii (ucast (drop_bit 12 w)), 61, 61])"
  by (simp_all add: Let_def quad_word_def)

declare encode_quads.simps(1-3) [simp del]

lemma length_encode_quads [simp]: "length (encode_quads src) = (length src + 2) div 3 * 4"
proof (induction src rule: encode_quads.induct)
  case (1 s0 s1 s2 src)
  have "(length (s0 # s1 # s2 # src) + 2) div 3 = (length src + 2) div 3 + 1" by simp
  then show ?case using 1 by (simp only: encode_quads_word Let_def list.size) simp
qed (simp_all add: encode_quads_word Let_def)

lemma decode_encode_quads [simp]: "decode_quads (encode_quads src) = Some src"
  by (induction src rule: encode_quads.induct)
    (simp_all add: Let_def encode_quads_word decode_encoded_quad [OF refl])

lemma encode_quads_visible: "c \<in> set (encode_quads src) \<Longrightarrow> \<not> is_skipped c"
  by (induction src rule: encode_quads.induct) (auto simp: Let_def encode_quads_word is_skipped_def [of 61])

section \<open>Lengths\<close>

lemma EncodedLength_eq:
  "map_option unat (EVP_EncodedLength len) =
    (if (unat len + 2) div 3 * 4 + 1 < 2 ^ 64 then Some ((unat len + 2) div 3 * 4 + 1) else None)"
proof (cases "len + 2 < len")
  case True
  moreover have "unat (len + 2) = unat len + 2" if "unat len + 2 < 2 ^ 64"
    using that by (simp add: unat_word_ariths)
  ultimately have "2 ^ 64 \<le> unat len + 2"
    by (auto simp: word_less_nat_alt not_less [symmetric])
  then show ?thesis using True by (auto simp: EVP_EncodedLength_def)
next
  case False
  have "unat len < 2 ^ 64" using unsigned_less [of len, where 'a = nat] by simp
  then have u: "unat (len + 2) = unat len + 2" "unat len + 2 < 2 ^ 64"
    using False by (auto simp: word_less_nat_alt unat_word_ariths mod_if split: if_splits)
  define q where "q = (len + 2) div 3"
  have q: "unat q = (unat len + 2) div 3" by (simp add: q_def unat_div u)
  have d: "drop_bit 2 (push_bit 2 q) = take_bit 62 q"
    by (rule bit_word_eqI) (auto simp: bit_simps)
  have t: "take_bit 62 q = q \<longleftrightarrow> unat q < 2 ^ 62"
    by (simp add: word_unat_eq_iff unsigned_take_bit_eq take_bit_nat_eq_self_iff)
  have p: "unat (push_bit 2 q) = unat q * 4" if "unat q < 2 ^ 62"
    using that by (simp add: push_bit_eq_mult unat_word_ariths)
  have "unat (push_bit 2 q + 1) = unat q * 4 + 1 \<and> \<not> push_bit 2 q + 1 < push_bit 2 q" if "unat q < 2 ^ 62"
    using that p by (simp add: word_less_nat_alt unat_word_ariths)
  then show ?thesis using False t
    unfolding EVP_EncodedLength_def q_def [symmetric] q [symmetric] Let_def d by auto
qed

section \<open>Blocks\<close>

lemma trim_trim:
  assumes "\<And>c. c \<in> set src \<Longrightarrow> \<not> is_skipped c"
  shows "trim_back (trim_front (replicate j 32 @ src @ replicate k 10)) = src"
proof -
  have "dropWhile (\<lambda>c. c = 32 \<or> c = 9) (src @ replicate k 10) = src @ replicate k 10"
    using assms by (cases src; cases k) (auto simp: is_skipped_def)
  then have "trim_front (replicate j 32 @ src @ replicate k 10) = src @ replicate k 10"
    by (induction j) (simp_all add: trim_front_def)
  moreover have "dropWhile is_skipped (rev src) = rev src"
    using assms by (cases "rev src") (auto simp: dropWhile_eq_self_iff)
  then have "dropWhile is_skipped (replicate k 10 @ rev src) = rev src"
    by (induction k) (simp_all add: is_skipped_def [of 10])
  ultimately show ?thesis by (simp add: trim_back_def)
qed

text \<open>
  C22: the block coder: \<open>EVP_EncodedLength\<close> gives the number of bytes that \<open>EVP_EncodeBlock\<close> stores, its
  terminator included, or an error when that is no 64-bit number; \<open>EVP_DecodeBase64\<close> gives the bytes
  back exactly when the room covers the length that \<open>EVP_DecodedLength\<close> announces; \<open>EVP_DecodeBlock\<close>
  gives them back behind blanks and in front of newlines, with zeros in the place of the padding.
\<close>

theorem block_roundtrip:
  fixes src :: "u8 list"
  defines "text_of \<equiv> take (snd (EVP_EncodeBlock src)) (fst (EVP_EncodeBlock src))"
  shows "map_option unat (EVP_EncodedLength len) =
      (if (unat len + 2) div 3 * 4 + 1 < 2 ^ 64 then Some ((unat len + 2) div 3 * 4 + 1) else None) \<and>
    length (fst (EVP_EncodeBlock src)) = (length src + 2) div 3 * 4 + 1 \<and>
    EVP_DecodedLength (length text_of) = Some ((length src + 2) div 3 * 3) \<and>
    EVP_DecodeBase64 max_out text_of = (if (length src + 2) div 3 * 3 \<le> max_out then Some src else None) \<and>
    EVP_DecodeBlock (replicate j 32 @ text_of @ replicate k 10) =
      (if (length src + 2) div 3 * 3 \<le> INT_MAX then Some (pad_3 src) else None)"
proof -
  have t: "text_of = encode_quads src" by (simp add: text_of_def EVP_EncodeBlock_def)
  have l: "EVP_DecodedLength (length (encode_quads src)) = Some ((length src + 2) div 3 * 3)"
    by (simp add: EVP_DecodedLength_def)
  have d: "EVP_DecodeBase64 m (encode_quads src) = (if (length src + 2) div 3 * 3 \<le> m then Some src else None)" for m
    unfolding EVP_DecodeBase64_def l by auto
  have "trim_back (trim_front (replicate j 32 @ encode_quads src @ replicate k 10)) = encode_quads src"
    using encode_quads_visible [of _ src] trim_trim [of "encode_quads src" j k] by blast
  then have "EVP_DecodeBlock (replicate j 32 @ encode_quads src @ replicate k 10) =
      (if (length src + 2) div 3 * 3 \<le> INT_MAX then Some (pad_3 src) else None)"
    unfolding EVP_DecodeBlock_def Let_def by (simp only: l d) simp
  then show ?thesis by (simp only: EncodedLength_eq t l d) (simp add: EVP_EncodeBlock_def)
qed

end
