(* ===== verification/Base64_Stream.thy ===== *)
theory Base64_Stream
  imports Base64
begin

text \<open>
  The streaming coder of \<open>crypto/base64/base64.c\<close>, used the way its clients use it: whatever the
  pieces that the data arrives in, the encoder writes the text of the whole data in lines, and the
  decoder accepts exactly what the block decoder accepts once the white space is taken out.
\<close>

section \<open>The streaming encoder\<close>

text \<open>The text of a stream: lines of 64 characters and a shorter last one, each with its newline.\<close>

function wrapped :: "u8 list \<Rightarrow> u8 list" where
  "wrapped src = (if src = [] then [] else encode_quads (take 48 src) @ [10] @ wrapped (drop 48 src))"
  by pat_completeness auto

termination by (relation "measure length") auto

declare wrapped.simps [simp del]

lemma wrapped_Nil [simp]: "wrapped [] = []"
  by (simp add: wrapped.simps)

lemma wrapped_line: "length a = 48 \<Longrightarrow> wrapped (a @ b) = encode_quads a @ [10] @ wrapped b"
  by (subst wrapped.simps) auto

lemma wrapped_one: "length a = 48 \<Longrightarrow> wrapped a = encode_quads a @ [10]"
  using wrapped_line [of a "[]"] by simp

text \<open>The whole lines at the front of the data, and what is behind them.\<close>

definition whole :: "u8 list \<Rightarrow> u8 list" where
  "whole src = take (48 * (length src div 48)) src"

definition part :: "u8 list \<Rightarrow> u8 list" where
  "part src = drop (48 * (length src div 48)) src"

lemma whole_part [simp]: "whole src @ part src = src"
  by (simp add: whole_def part_def)

lemma length_part [simp]: "length (part src) < 48"
  by (simp add: part_def minus_mult_div_eq_mod)

lemma short_whole [simp]: "length src < 48 \<Longrightarrow> whole src = []" "length src < 48 \<Longrightarrow> part src = src"
  by (simp_all add: whole_def part_def)

lemma line_count: "(48 + n) div 48 = Suc (n div 48 :: nat)"
  by simp

lemma whole_line: "length a = 48 \<Longrightarrow> whole (a @ b) = a @ whole b" "length a = 48 \<Longrightarrow> part (a @ b) = part b"
  by (simp_all add: whole_def part_def line_count)

lemma wrapped_whole: "wrapped (whole a @ b) = wrapped (whole a) @ wrapped b"
proof (induction a rule: wrapped.induct)
  case (1 a)
  show ?case
  proof (cases "length a < 48")
    case False
    then have "whole a = take 48 a @ whole (drop 48 a)" "a \<noteq> []"
      using whole_line(1) [of "take 48 a" "drop 48 a"] by auto
    moreover have "length (take 48 a) = 48" using False by simp
    ultimately show ?thesis using 1 by (simp add: wrapped_line)
  qed simp
qed

lemma length_wrapped_whole: "length (wrapped (whole a)) = 65 * (length a div 48)"
proof (induction a rule: wrapped.induct)
  case (1 a)
  show ?case
  proof (cases "length a < 48")
    case False
    then have "whole a = take 48 a @ whole (drop 48 a)" "a \<noteq> []"
      using whole_line(1) [of "take 48 a" "drop 48 a"] by auto
    moreover have "length (take 48 a) = 48" "length a div 48 = Suc (length (drop 48 a) div 48)"
      using False by (simp_all add: le_div_geq)
    ultimately show ?thesis using 1 by (simp add: wrapped_line)
  qed simp
qed

lemma encode_lines_eq:
  "length src * 2 + tot < 2 ^ 63 \<Longrightarrow>
    encode_lines src tot = (wrapped (whole src), Some (tot + length (wrapped (whole src))), part src)"
proof (induction src arbitrary: tot rule: wrapped.induct)
  case (1 src)
  show ?case
  proof (cases "length src < 48")
    case True
    then show ?thesis by (simp add: encode_lines.simps [of src])
  next
    case False
    obtain a b where ab: "src = a @ b" "length a = 48"
      using False that [of "take 48 src" "drop 48 src"] by simp
    have "size_add (size_add tot 64) 1 = tot + 65" using "1.prems" by simp
    moreover have "encode_lines b (tot + 65) = (wrapped (whole b), Some (tot + 65 + length (wrapped (whole b))), part b)"
      using "1.IH" [of "tot + 65"] "1.prems" ab by (cases a) simp_all
    ultimately show ?thesis
      using ab(2) by (subst encode_lines.simps) (simp add: ab(1) EVP_EncodeBlock_def whole_line wrapped_line)
  qed
qed

definition ctx_ok :: "evp_encode_ctx \<Rightarrow> bool" where
  "ctx_ok ctx \<longleftrightarrow> length (ctx_data ctx) = 48 \<and> data_used ctx < 48"

definition pending :: "evp_encode_ctx \<Rightarrow> u8 list" where
  "pending ctx = take (data_used ctx) (ctx_data ctx)"

lemma take_ctx_put:
  "pos + length xs \<le> length data \<Longrightarrow> take (pos + length xs) (ctx_put data pos xs) = take pos data @ xs"
  "pos + length xs \<le> length data \<Longrightarrow> length (ctx_put data pos xs) = length data"
  by (simp_all add: ctx_put_def min_absorb2)

lemma encode_block_line: "(let (out, encoded) = EVP_EncodeBlock src in f (take encoded out) encoded) =
    f (encode_quads src) (length (encode_quads src))"
  by (simp add: EVP_EncodeBlock_def)

text \<open>One call: the whole lines of the data at hand go out, the rest stays in the context.\<close>

lemma encode_update_eq:
  assumes ctx: "ctx_ok ctx" and len: "length src \<le> 2 ^ 30" and "all = pending ctx @ src"
  obtains ctx' where "EVP_EncodeUpdate ctx src = (wrapped (whole all), length (wrapped (whole all)), ctx')"
    "ctx_ok ctx'" "pending ctx' = part all"
proof (cases "length all < 48")
  case True
  have "length (pending ctx) = data_used ctx" using ctx by (simp add: pending_def ctx_ok_def)
  then have room: "data_used ctx + length src < 48" "length (ctx_data ctx) = 48" "data_used ctx < 48"
    using ctx True assms(3) by (simp_all add: ctx_ok_def)
  show ?thesis
  proof (cases "src = []")
    case True
    then show ?thesis using that [of ctx] ctx room assms(3) by (simp add: EVP_EncodeUpdate_def pending_def)
  next
    case src: False
    let ?ctx = "ctx\<lparr>ctx_data := ctx_put (ctx_data ctx) (data_used ctx) src, data_used := data_used ctx + length src\<rparr>"
    have "EVP_EncodeUpdate ctx src = ([], 0, ?ctx)" using src less_diff_conv [of "length src" 48 "data_used ctx"] room by (simp add: EVP_EncodeUpdate_def add.commute)
    then show ?thesis
      using that [of ?ctx] True room assms(3) by (simp add: ctx_ok_def pending_def take_ctx_put)
  qed
next
  case False
  define used where "used = data_used ctx"
  have used: "used < 48" "length (ctx_data ctx) = 48" "length (pending ctx) = used"
    using ctx by (simp_all add: used_def ctx_ok_def pending_def)
  have src: "src \<noteq> []" "48 \<le> used + length src"
    using False used assms(3) by auto
  define rest where "rest = (if used \<noteq> 0 then drop (48 - used) src else src)"
  define data where "data = (if used \<noteq> 0 then ctx_put (ctx_data ctx) used (take (48 - used) src) else ctx_data ctx)"
  define front where "front = (if used \<noteq> 0 then pending ctx @ take (48 - used) src else [])"
  have split: "all = front @ rest" using assms(3) used by (auto simp: front_def rest_def pending_def)
  have front: "front = [] \<or> length front = 48" using used src by (auto simp: front_def)
  have d: "length data = 48" "used \<noteq> 0 \<Longrightarrow> data = front"
    using used src by (auto simp: data_def take_ctx_put front_def ctx_put_def pending_def used_def)
  have out: "wrapped front @ wrapped (whole rest) = wrapped (whole all)" "part rest = part all"
    using front by (auto simp: split whole_line wrapped_line wrapped_one)
  have lines: "encode_lines rest (length (wrapped front)) =
      (wrapped (whole rest), Some (length (wrapped (whole all))), part all)"
  proof -
    have "length rest \<le> length src" "length (wrapped front) \<le> 65"
      using front by (auto simp: rest_def wrapped_one)
    then have "length rest * 2 + length (wrapped front) < 2 ^ 63" using len by simp
    then show ?thesis using out(2) encode_lines_eq [of rest "length (wrapped front)"]
      unfolding out(1) [symmetric] by simp
  qed
  let ?ctx = "ctx\<lparr>ctx_data := (if part all \<noteq> [] then ctx_put data 0 (part all) else data), data_used := length (part all)\<rparr>"
  have "length (wrapped (whole all)) \<le> INT_MAX"
    using len used assms(3) by (simp add: length_wrapped_whole INT_MAX_def)
  then have enc: "EVP_EncodeUpdate ctx src = (wrapped (whole all), length (wrapped (whole all)), ?ctx)"
    using src d lines unfolding out(1) [symmetric] by (cases "used = 0")
      (simp_all add: EVP_EncodeUpdate_def Let_def rest_def data_def front_def EVP_EncodeBlock_def wrapped_one
        flip: used_def)
  show ?thesis
    using that [OF enc] d(1) take_ctx_put [of 0 "part all" data] length_part [of all]
    by (cases "part all = []") (simp_all add: ctx_ok_def pending_def)
qed

text \<open>A client that hands over the data piece by piece and takes the bytes that each call announces.\<close>

fun encode_run :: "evp_encode_ctx \<Rightarrow> u8 list list \<Rightarrow> u8 list" where
  "encode_run ctx [] = (let (out, n, _) = EVP_EncodeFinal ctx in take n out)"
| "encode_run ctx (src # pieces) =
     (let (out, n, ctx) = EVP_EncodeUpdate ctx src in take n out @ encode_run ctx pieces)"

definition encode_stream :: "u8 list list \<Rightarrow> u8 list" where
  "encode_stream pieces = encode_run EVP_EncodeInit pieces"

lemma encode_final_eq: "ctx_ok ctx \<Longrightarrow> encode_run ctx [] = wrapped (pending ctx)"
proof -
  assume "ctx_ok ctx"
  then have "length (pending ctx) = data_used ctx" "data_used ctx < 48" by (simp_all add: pending_def ctx_ok_def)
  then show ?thesis
    by (cases "data_used ctx = 0")
      (auto simp: EVP_EncodeFinal_def EVP_EncodeBlock_def wrapped.simps [of "pending ctx"] simp flip: pending_def)
qed

lemma encode_run_eq:
  "ctx_ok ctx \<Longrightarrow> list_all (\<lambda>src. length src \<le> 2 ^ 30) pieces \<Longrightarrow>
    encode_run ctx pieces = wrapped (pending ctx @ concat pieces)"
proof (induction pieces arbitrary: ctx)
  case (Cons src pieces)
  obtain ctx' where u: "EVP_EncodeUpdate ctx src =
      (wrapped (whole (pending ctx @ src)), length (wrapped (whole (pending ctx @ src))), ctx')"
    "ctx_ok ctx'" "pending ctx' = part (pending ctx @ src)"
    using Cons.prems by (auto intro: encode_update_eq)
  show ?case
    using Cons.IH [OF u(2)] Cons.prems wrapped_whole [of "pending ctx @ src" "part (pending ctx @ src) @ concat pieces"]
      whole_part [of "pending ctx @ src"]
    by (simp add: u(1,3) flip: append_assoc)
qed (simp add: encode_final_eq del: encode_run.simps)

lemma encode_init: "ctx_ok EVP_EncodeInit" "pending EVP_EncodeInit = []"
  by (simp_all add: EVP_EncodeInit_def ctx_ok_def pending_def)

section \<open>The streaming decoder\<close>

definition is_visible :: "u8 \<Rightarrow> bool" where
  "is_visible c \<longleftrightarrow> \<not> is_skipped c"

text \<open>What a decoder that has come to the end makes of it.\<close>

definition accepted :: "bool \<times> u8 list \<times> evp_encode_ctx \<Rightarrow> u8 list option" where
  "accepted r = (case r of (ok, out, ctx) \<Rightarrow> if ok \<and> data_used ctx = 0 then Some out else None)"

lemma decode_chars_append:
  "decode_chars (a @ b) ctx =
    (let (ok, out, ctx) = decode_chars a ctx in
     if ok then let (ok, out', ctx) = decode_chars b ctx in (ok, out @ out', ctx) else (False, out, ctx))"
  by (induction a ctx rule: decode_chars.induct) (auto simp: Let_def split: prod.split option.split)

lemma quad_bytes_length: "base64_decode_quad i0 i1 i2 i3 = Some bytes \<Longrightarrow> length bytes \<le> 3"
  by (auto simp: base64_decode_quad_def Let_def split: if_splits)

lemma decode_chars_eof:
  "eof_seen ctx \<Longrightarrow> data_used ctx = 0 \<Longrightarrow>
    accepted (decode_chars src ctx) = (if filter is_visible src = [] then Some [] else None)"
  by (induction src ctx rule: decode_chars.induct) (auto simp: accepted_def is_visible_def)

lemma decode_quads_step:
  "decode_quads (i0 # i1 # i2 # i3 # src) =
     (case base64_decode_quad i0 i1 i2 i3 of
        None \<Rightarrow> None
      | Some bytes \<Rightarrow> if length bytes < 3 then if src = [] then Some bytes else None
          else map_option ((@) bytes) (decode_quads src))"
  using quad_bytes_length [of i0 i1 i2 i3] by (auto split: option.split)

lemma decode_chars_eq:
  "ctx_ok ctx \<Longrightarrow> \<not> eof_seen ctx \<Longrightarrow> data_used ctx < 4 \<Longrightarrow>
    accepted (decode_chars src ctx) =
      (let q = pending ctx @ filter is_visible src in if length q mod 4 = 0 then decode_quads q else None)"
proof (induction src ctx rule: decode_chars.induct)
  case (1 ctx)
  then show ?case by (auto simp: accepted_def pending_def ctx_ok_def Let_def)
next
  case (2 c src ctx)
  define ctx' where "ctx' = ctx\<lparr>ctx_data := (ctx_data ctx)[data_used ctx := c], data_used := data_used ctx + 1\<rparr>"
  show ?case
  proof (cases "is_skipped c")
    case True
    then show ?thesis using 2 by (simp add: is_visible_def)
  next
    case False
    have p: "pending ctx' = pending ctx @ [c]" "ctx_ok ctx'" "data_used ctx' = data_used ctx + 1" "\<not> eof_seen ctx'"
      using 2 by (simp_all add: ctx'_def pending_def ctx_ok_def take_Suc_conv_app_nth)
    have step: "decode_chars (c # src) ctx =
        (if data_used ctx' = 4 then
           (let d = ctx_data ctx' in
            case base64_decode_quad (d ! 0) (d ! 1) (d ! 2) (d ! 3) of
              None \<Rightarrow> (False, [], ctx'\<lparr>error_encountered := True\<rparr>)
            | Some bytes \<Rightarrow>
                let ctx = ctx'\<lparr>data_used := 0, eof_seen := length bytes < 3\<rparr>;
                    (ok, out, ctx) = decode_chars src ctx in
                (ok, bytes @ out, ctx))
         else decode_chars src ctx')"
      using False 2(5) p(4) unfolding decode_chars.simps(2) ctx'_def [symmetric] Let_def
      by (simp split: option.split)
    have q: "pending ctx @ filter is_visible (c # src) = pending ctx' @ filter is_visible src"
      using False by (simp add: is_visible_def p)
    show ?thesis
    proof (cases "data_used ctx' = 4")
      case ne: False
      then have "accepted (decode_chars src ctx') =
          (let q = pending ctx' @ filter is_visible src in if length q mod 4 = 0 then decode_quads q else None)"
        using "2.IH"(3) [OF False] 2(5,6) p by (simp add: ctx'_def)
      then show ?thesis using ne unfolding step q by simp
    next
      case four: True
      let ?d = "ctx_data ctx'"
      have d: "pending ctx' = [?d ! 0, ?d ! 1, ?d ! 2, ?d ! 3]"
        using p(2) four by (simp add: pending_def ctx_ok_def list_eq_iff_nth_eq less_Suc_eq numeral_eq_Suc)
      show ?thesis
      proof (cases "base64_decode_quad (?d ! 0) (?d ! 1) (?d ! 2) (?d ! 3)")
        case None
        then show ?thesis using four unfolding step q d by (simp add: accepted_def decode_quads_step del: decode_quads.simps)
      next
        case (Some bytes)
        let ?ctx = "ctx'\<lparr>data_used := 0, eof_seen := length bytes < 3\<rparr>"
        have a: "accepted (decode_chars (c # src) ctx) = map_option ((@) bytes) (accepted (decode_chars src ?ctx))"
          using four Some unfolding step by (simp add: accepted_def Let_def split: prod.split)
        have ih: "accepted (decode_chars src ?ctx) =
            (if length (filter is_visible src) mod 4 = 0 then decode_quads (filter is_visible src) else None)"
          if "\<not> length bytes < 3"
          using "2.IH"(2) [OF False] 2(5) p that four Some
          by (simp add: ctx'_def ctx_ok_def pending_def Let_def)
        show ?thesis
          unfolding a q d using ih decode_chars_eof [of ?ctx src] Some
          by (cases "length bytes < 3") (auto simp: decode_quads_step simp del: decode_quads.simps)
      qed
    qed
  qed
qed

fun decode_run :: "evp_encode_ctx \<Rightarrow> u8 list list \<Rightarrow> u8 list option" where
  "decode_run ctx [] = (if EVP_DecodeFinal ctx = 1 then Some [] else None)"
| "decode_run ctx (src # pieces) =
     (let (r, n, out, ctx) = EVP_DecodeUpdate ctx src in
      if r = - 1 then None else map_option ((@) (take n out)) (decode_run ctx pieces))"

definition decode_stream :: "u8 list list \<Rightarrow> u8 list option" where
  "decode_stream pieces = decode_run EVP_DecodeInit pieces"

lemma decode_chars_facts:
  "decode_chars src ctx = (ok, out, ctx') \<Longrightarrow> \<not> error_encountered ctx \<Longrightarrow> data_used ctx < 4 \<Longrightarrow>
    length out \<le> data_used ctx + length src \<and> error_encountered ctx' = (\<not> ok) \<and> (ok \<longrightarrow> data_used ctx' < 4)"
proof (induction src ctx arbitrary: ok out ctx' rule: decode_chars.induct)
  case (2 c src ctx)
  define ctx1 where "ctx1 = ctx\<lparr>ctx_data := (ctx_data ctx)[data_used ctx := c], data_used := data_used ctx + 1\<rparr>"
  have c1: "error_encountered ctx1 = error_encountered ctx" "data_used ctx1 = Suc (data_used ctx)"
    by (simp_all add: ctx1_def)
  show ?case
  proof (cases "is_skipped c \<or> eof_seen ctx")
    case True
    then show ?thesis using 2 by (fastforce split: if_splits)
  next
    case False
    note run = "2.prems"(1) [unfolded decode_chars.simps ctx1_def [symmetric] Let_def]
    show ?thesis
    proof (cases "data_used ctx1 = 4")
      case ne: False
      then have "decode_chars src ctx1 = (ok, out, ctx')" using run False by simp
      then show ?thesis using "2.IH"(3) [OF _ _ ctx1_def] 2(5,6) c1 False ne by simp
    next
      case four: True
      show ?thesis
      proof (cases "base64_decode_quad (ctx_data ctx1 ! 0) (ctx_data ctx1 ! 1) (ctx_data ctx1 ! 2) (ctx_data ctx1 ! 3)")
        case None
        then show ?thesis using run False four by auto
      next
        case (Some bytes)
        let ?ctx = "ctx1\<lparr>data_used := 0, eof_seen := eof_seen ctx1 \<or> length bytes < 3\<rparr>"
        obtain out' where o: "decode_chars src ?ctx = (ok, out', ctx')" "out = bytes @ out'"
          using run False four Some by (auto split: prod.splits)
        have "length out' \<le> length src \<and> error_encountered ctx' = (\<not> ok) \<and> (ok \<longrightarrow> data_used ctx' < 4)"
          using "2.IH"(2) [OF _ _ ctx1_def four refl Some refl o(1)] False 2(5) c1 by simp
        then show ?thesis using quad_bytes_length [OF Some] o(2) c1 four by auto
      qed
    qed
  qed
qed auto

lemma decode_run_eq:
  "\<not> error_encountered ctx \<Longrightarrow> data_used ctx < 4 \<Longrightarrow> list_all (\<lambda>src. length src \<le> 2 ^ 30) pieces \<Longrightarrow>
    decode_run ctx pieces = accepted (decode_chars (concat pieces) ctx)"
proof (induction pieces arbitrary: ctx)
  case Nil
  then show ?case by (simp add: EVP_DecodeFinal_def accepted_def)
next
  case (Cons src pieces)
  obtain ok out ctx' where d: "decode_chars src ctx = (ok, out, ctx')" by (metis prod_cases3)
  have l: "length out \<le> INT_MAX" using decode_chars_facts [OF d] Cons.prems by (simp add: INT_MAX_def)
  note s = decode_chars_facts [OF d Cons.prems(1,2)]
  show ?case
  proof (cases ok)
    case True
    then have "decode_run ctx (src # pieces) = map_option ((@) out) (decode_run ctx' pieces)"
      using d l Cons.prems(1) by (simp add: EVP_DecodeUpdate_def)
    also have "decode_run ctx' pieces = accepted (decode_chars (concat pieces) ctx')"
      using Cons s True by simp
    also have "map_option ((@) out) (accepted (decode_chars (concat pieces) ctx')) = accepted (decode_chars (concat (src # pieces)) ctx)"
      using True by (simp add: decode_chars_append d accepted_def split: prod.split)
    finally show ?thesis .
  next
    case False
    then show ?thesis
      using d Cons.prems(1) by (simp add: EVP_DecodeUpdate_def decode_chars_append accepted_def)
  qed
qed

text \<open>
  C23: the streaming encoder writes the lines of the whole data, wherever the data is cut into pieces.
\<close>

theorem encode_stream_lines:
  assumes "list_all (\<lambda>src. length src \<le> 2 ^ 30) pieces"
  shows "encode_stream pieces = wrapped (concat pieces)"
  using encode_run_eq [OF encode_init(1) assms] by (simp add: encode_stream_def encode_init)

theorem encode_stream_lines_witness:
  "encode_stream [[1, 2], [], [3, 4]] = wrapped [1, 2, 3, 4]"
  by (subst encode_stream_lines) simp_all

lemma decode_stream_eq:
  assumes "list_all (\<lambda>src. length src \<le> 2 ^ 30) pieces"
  shows "decode_stream pieces =
    (let src = filter (\<lambda>c. \<not> is_skipped c) (concat pieces) in EVP_DecodeBase64 (length src) src)"
proof -
  have "decode_stream pieces = accepted (decode_chars (concat pieces) EVP_DecodeInit)"
    using assms by (simp add: decode_stream_def decode_run_eq EVP_DecodeInit_def EVP_EncodeInit_def)
  also have "\<dots> = (let q = filter is_visible (concat pieces) in if length q mod 4 = 0 then decode_quads q else None)"
    using decode_chars_eq [of EVP_DecodeInit] encode_init by (simp add: EVP_DecodeInit_def) (simp add: EVP_EncodeInit_def)
  finally show ?thesis
    by (auto simp: EVP_DecodeBase64_def EVP_DecodedLength_def Let_def is_visible_def [abs_def])
qed

text \<open>
  C24: the streaming decoder accepts a text, cut into pieces anywhere, exactly when the block decoder
  accepts it without its white space, and gives the same bytes.
\<close>

theorem decode_stream_block:
  assumes "list_all (\<lambda>src. length src \<le> 2 ^ 30) pieces"
  shows "decode_stream pieces =
    (let src = filter (\<lambda>c. \<not> is_skipped c) (concat pieces) in EVP_DecodeBase64 (length src) src)"
  by (rule decode_stream_eq [OF assms])

theorem decode_stream_block_witness:
  "decode_stream [[90, 109], [57, 10, 118], [10]] = EVP_DecodeBase64 (length [90, 109, 57, 118 :: u8]) [90, 109, 57, 118]"
  by (subst decode_stream_block) (simp_all add: is_skipped_def)

lemma encode_quads_append: "length a = 3 * k \<Longrightarrow> encode_quads (a @ b) = encode_quads a @ encode_quads b"
proof (induction a arbitrary: k rule: encode_quads.induct)
  case (1 s0 s1 s2 a)
  then show ?case by (cases k) (simp_all add: encode_quads_word Let_def)
next
  case (2 s0 s1)
  then have False by simp presburger
  then show ?case ..
next
  case (3 s0)
  then have False by simp
  then show ?case ..
qed simp

lemma wrapped_visible: "filter (\<lambda>c. \<not> is_skipped c) (wrapped src) = encode_quads src"
proof (induction src rule: wrapped.induct)
  case (1 src)
  show ?case
  proof (cases "src = []")
    case False
    have v: "filter (\<lambda>c. \<not> is_skipped c) (encode_quads a) = encode_quads a" for a
      by (simp add: encode_quads_visible)
    have "encode_quads (take 48 src) @ encode_quads (drop 48 src) = encode_quads src"
    proof (cases "length src < 48")
      case False
      then show ?thesis using encode_quads_append [of "take 48 src" 16 "drop 48 src"] by simp
    qed simp
    then show ?thesis
      using 1 False by (subst wrapped.simps) (simp add: v is_skipped_def [of 10])
  qed simp
qed

text \<open>
  C25: the text that the streaming encoder writes is decoded into the data, in whatever pieces the data
  was handed to the encoder and the text is handed to the decoder.
\<close>

theorem stream_roundtrip:
  assumes "list_all (\<lambda>src. length src \<le> 2 ^ 30) pieces" "list_all (\<lambda>src. length src \<le> 2 ^ 30) cuts"
    and "concat cuts = encode_stream pieces"
  shows "decode_stream cuts = Some (concat pieces)"
proof -
  have "concat cuts = wrapped (concat pieces)"
    using assms(3) encode_run_eq [OF encode_init(1) assms(1)] by (simp add: encode_stream_def encode_init)
  then show ?thesis
    using assms(2) wrapped_visible [of "concat pieces"]
    by (simp add: decode_stream_eq EVP_DecodeBase64_def EVP_DecodedLength_def Let_def)
qed

theorem stream_roundtrip_witness:
  "decode_stream [take 3 (encode_stream [[1, 2], [3, 4]]), drop 3 (encode_stream [[1, 2], [3, 4]])] = Some [1, 2, 3, 4]"
proof -
  have "length (encode_stream [[1, 2], [3, 4]]) \<le> 2 ^ 30"
    by (simp add: encode_stream_def encode_run_eq encode_init wrapped.simps del: encode_run.simps)
  then show ?thesis by (subst stream_roundtrip [where pieces = "[[1, 2], [3, 4]]"]) auto
qed

end
