(* ===== verification/Fbase64.thy ===== *)
theory Fbase64
  imports Base64_Stream
begin

text \<open>
  The second base64 coder of the program, \<open>third_party/SocketRocket/fbase64.c\<close> of the Firebase
  database client: \<open>f_b64_ntop\<close> and \<open>f_b64_pton\<close>. Both give the value the C function returns and the
  target as it leaves it. Characters are bytes; \<open>char\<close> is signed on the platforms of the program, so
  a byte from 0x80 up is negative where it is handed to \<open>isspace\<close>, which is undefined for it.
\<close>

section \<open>Encoding\<close>

definition base64_chars :: "u8 list" where
  "base64_chars = map of_char ''ABCDEFGHIJKLMNOPQRSTUVWXYZabcdefghijklmnopqrstuvwxyz0123456789+/''"

definition Pad64 :: u8 where
  "Pad64 = of_char (CHR ''='')"

definition c_int :: "nat \<Rightarrow> int" where
  "c_int n = sint (word_of_nat n :: 32 word)"

text \<open>The loop over whole groups: the target is the list of the characters stored so far.\<close>

fun ntop_loop :: "u8 list \<Rightarrow> nat \<Rightarrow> u8 list \<Rightarrow> u8 list option \<times> u8 list" where
  "ntop_loop (s0 # s1 # s2 # src) targsize target =
     (let output0 = drop_bit 2 s0;
          output1 = push_bit 4 (s0 AND 0x03) + drop_bit 4 s1;
          output2 = push_bit 2 (s1 AND 0x0f) + drop_bit 6 s2;
          output3 = s2 AND 0x3f in
      if targsize < length target + 4 then (None, target)
      else ntop_loop src targsize (target @ [base64_chars ! unat output0, base64_chars ! unat output1,
        base64_chars ! unat output2, base64_chars ! unat output3]))"
| "ntop_loop src targsize target = (Some src, target)"

text \<open>The padding and the terminator.\<close>

definition ntop_end :: "nat \<Rightarrow> u8 list option \<times> u8 list \<Rightarrow> int \<times> u8 list" where
  "ntop_end targsize r =
     (case r of
        (None, target) \<Rightarrow> (- 1, target)
      | (Some left, target) \<Rightarrow>
          let padded =
            (if left = [] then Some target
             else
               let input0 = left ! 0; input1 = (if length left = 1 then 0 else left ! 1); input2 = 0;
                   output0 = drop_bit 2 input0;
                   output1 = push_bit 4 (input0 AND 0x03) + drop_bit 4 input1;
                   output2 = push_bit 2 (input1 AND 0x0f) + drop_bit 6 input2 in
               if targsize < length target + 4 then None
               else Some (target @ [base64_chars ! unat output0, base64_chars ! unat output1,
                 if length left = 1 then Pad64 else base64_chars ! unat output2, Pad64])) in
          case padded of
            None \<Rightarrow> (- 1, target)
          | Some target \<Rightarrow>
              if targsize \<le> length target then (- 1, target) else (c_int (length target), target @ [0]))"

definition f_b64_ntop :: "u8 list \<Rightarrow> nat \<Rightarrow> int \<times> u8 list" where
  "f_b64_ntop src targsize = ntop_end targsize (ntop_loop src targsize [])"

section \<open>Decoding\<close>

definition isspace :: "u8 \<Rightarrow> bool" where
  "isspace c \<longleftrightarrow> 9 \<le> c \<and> c \<le> 13 \<or> c = 32"

record pton =
  pton_state :: nat
  tarindex :: nat
  pton_target :: "u8 list option"

text \<open>What one character does; \<^term>\<open>None\<close> is the return of -1. The second byte of a pair is written
  before its bits are complete.\<close>

definition pton_or :: "u8 list \<Rightarrow> nat \<Rightarrow> u8 \<Rightarrow> u8 list" where
  "pton_or t i v = t[i := t ! i OR v]"

definition pton_char :: "nat \<Rightarrow> u8 \<Rightarrow> pton \<Rightarrow> pton option" where
  "pton_char targsize pos st =
     (let i = tarindex st in
      if pton_state st = 0 then
        (case pton_target st of
           None \<Rightarrow> Some (st\<lparr>pton_state := 1\<rparr>)
         | Some t \<Rightarrow>
             if targsize \<le> i then None
             else Some (st\<lparr>pton_target := Some (t[i := push_bit 2 pos]), pton_state := 1\<rparr>))
      else if pton_state st = 1 then
        (case pton_target st of
           None \<Rightarrow> Some (st\<lparr>tarindex := i + 1, pton_state := 2\<rparr>)
         | Some t \<Rightarrow>
             if targsize \<le> i + 1 then None
             else Some (st\<lparr>pton_target := Some ((pton_or t i (drop_bit 4 pos))[i + 1 := push_bit 4 (pos AND 0x0f)]),
               tarindex := i + 1, pton_state := 2\<rparr>))
      else if pton_state st = 2 then
        (case pton_target st of
           None \<Rightarrow> Some (st\<lparr>tarindex := i + 1, pton_state := 3\<rparr>)
         | Some t \<Rightarrow>
             if targsize \<le> i + 1 then None
             else Some (st\<lparr>pton_target := Some ((pton_or t i (drop_bit 2 pos))[i + 1 := push_bit 6 (pos AND 0x03)]),
               tarindex := i + 1, pton_state := 3\<rparr>))
      else
        (case pton_target st of
           None \<Rightarrow> Some (st\<lparr>tarindex := i + 1, pton_state := 0\<rparr>)
         | Some t \<Rightarrow>
             if targsize \<le> i then None
             else Some (st\<lparr>pton_target := Some (pton_or t i pos), tarindex := i + 1, pton_state := 0\<rparr>)))"

text \<open>How the loop over the characters ends: at the end of the string, behind a padding character, with
  a return of -1, or in an undefined call of \<open>isspace\<close>.\<close>

datatype pton_stop = Ended pton | Padded "u8 list" pton | Rejected pton | Undefined_Isspace

fun find_char :: "u8 list \<Rightarrow> u8 \<Rightarrow> nat option" where
  "find_char [] ch = None"
| "find_char (c # cs) ch = (if c = ch then Some 0 else map_option Suc (find_char cs ch))"

fun pton_loop :: "nat \<Rightarrow> u8 list \<Rightarrow> pton \<Rightarrow> pton_stop" where
  "pton_loop targsize [] st = Ended st"
| "pton_loop targsize (ch # src) st =
     (if 0x80 \<le> ch then Undefined_Isspace
      else if isspace ch then pton_loop targsize src st
      else if ch = Pad64 then Padded src st
      else case find_char base64_chars ch of
          None \<Rightarrow> Rejected st
        | Some pos \<Rightarrow>
            (case pton_char targsize (word_of_nat pos) st of
               None \<Rightarrow> Rejected st
             | Some st \<Rightarrow> pton_loop targsize src st))"

text \<open>White space is skipped: what is left, from its first other character on.\<close>

fun skip_space :: "u8 list \<Rightarrow> u8 list option" where
  "skip_space [] = Some []"
| "skip_space (ch # src) =
     (if 0x80 \<le> ch then None else if isspace ch then skip_space src else Some (ch # src))"

datatype pton_result = Returned int "u8 list option" | Undefined

text \<open>The common end of the padding: nothing but white space, and no bits left over.\<close>

definition pton_tail :: "u8 list \<Rightarrow> pton \<Rightarrow> pton_result" where
  "pton_tail src st =
     (case skip_space src of
        None \<Rightarrow> Undefined
      | Some (_ # _) \<Rightarrow> Returned (- 1) (pton_target st)
      | Some [] \<Rightarrow>
          (case pton_target st of
             Some t \<Rightarrow> if t ! tarindex st \<noteq> 0 then Returned (- 1) (Some t) else Returned (c_int (tarindex st)) (Some t)
           | None \<Rightarrow> Returned (c_int (tarindex st)) None))"

definition pton_pad :: "u8 list \<Rightarrow> pton \<Rightarrow> pton_result" where
  "pton_pad src st =
     (if pton_state st = 0 \<or> pton_state st = 1 then Returned (- 1) (pton_target st)
      else if pton_state st = 2 then
        (case skip_space src of
           None \<Rightarrow> Undefined
         | Some [] \<Rightarrow> Returned (- 1) (pton_target st)
         | Some (ch # src) \<Rightarrow> if ch \<noteq> Pad64 then Returned (- 1) (pton_target st) else pton_tail src st)
      else pton_tail src st)"

definition pton_end :: "pton_stop \<Rightarrow> pton_result" where
  "pton_end r =
     (case r of
        Undefined_Isspace \<Rightarrow> Undefined
      | Rejected st \<Rightarrow> Returned (- 1) (pton_target st)
      | Padded src st \<Rightarrow> pton_pad src st
      | Ended st \<Rightarrow>
          if pton_state st \<noteq> 0 then Returned (- 1) (pton_target st)
          else Returned (c_int (tarindex st)) (pton_target st))"

text \<open>The string ends in front of its first zero byte.\<close>

definition f_b64_pton :: "u8 list \<Rightarrow> u8 list option \<Rightarrow> nat \<Rightarrow> pton_result" where
  "f_b64_pton src target targsize =
     pton_end (pton_loop targsize (takeWhile (\<lambda>c. c \<noteq> 0) src) \<lparr>pton_state = 0, tarindex = 0, pton_target = target\<rparr>)"

section \<open>The alphabet\<close>

lemma base64_chars_eq: "base64_chars = base64_alphabet"
  by (simp add: base64_chars_def base64_alphabet_def upt_rec)

lemma alphabet_nth: "n < 64 \<Longrightarrow> base64_alphabet ! n = conv_bin2ascii (word_of_nat n)"
proof -
  assume n: "n < 64"
  have u: "unat (word_of_nat n AND 0x3f :: u8) = n"
    using n by (simp add: and_0x3f unsigned_take_bit_eq unat_of_nat take_bit_nat_eq_self_iff)
  have i: "word_of_nat n AND 0x3f = (word_of_nat n :: u8)"
    by (simp add: word_unat_eq_iff u) (use n in \<open>simp add: unat_of_nat\<close>)
  show ?thesis
    using n u unfolding conv_bin2ascii_eq Let_def i
    by (auto simp: base64_alphabet_def nth_append word_less_nat_alt word_unat_eq_iff)
qed

lemma take_6_conv: "conv_bin2ascii (take_bit 6 a) = conv_bin2ascii a"
  by (simp add: conv_bin2ascii_eq and_0x3f)

lemma chars_conv: "take_bit 6 a = i \<Longrightarrow> base64_chars ! unat i = conv_bin2ascii a"
  using alphabet_nth [of "unat i"] six_bits [of a] take_6_conv [of a] by (auto simp: base64_chars_eq and_0x3f)

lemma quad_sextets:
  "take_bit 6 (ucast (drop_bit 18 (quad_word s0 s1 s2))) = drop_bit 2 s0"
  "take_bit 6 (ucast (drop_bit 12 (quad_word s0 s1 s2))) = push_bit 4 (s0 AND 0x03) + drop_bit 4 s1"
  "take_bit 6 (ucast (drop_bit 6 (quad_word s0 s1 s2))) = push_bit 2 (s1 AND 0x0f) + drop_bit 6 s2"
  "take_bit 6 (ucast (quad_word s0 s1 s2)) = s2 AND 0x3f"
proof -
  have m: "s0 AND 0x03 = take_bit 2 s0" "s1 AND 0x0f = take_bit 4 s1"
    by (simp_all add: take_bit_eq_mask mask_eq_exp_minus_1)
  have p: "push_bit 4 (take_bit 2 s0) + drop_bit 4 s1 = push_bit 4 (take_bit 2 s0) OR drop_bit 4 s1"
    "push_bit 2 (take_bit 4 s1) + drop_bit 6 s2 = push_bit 2 (take_bit 4 s1) OR drop_bit 6 s2"
    by (rule disjunctive_add; auto simp: bit_simps dest: bit_imp_le_length)+
  show "take_bit 6 (ucast (drop_bit 18 (quad_word s0 s1 s2))) = drop_bit 2 s0"
    "take_bit 6 (ucast (drop_bit 12 (quad_word s0 s1 s2))) = push_bit 4 (s0 AND 0x03) + drop_bit 4 s1"
    "take_bit 6 (ucast (drop_bit 6 (quad_word s0 s1 s2))) = push_bit 2 (s1 AND 0x0f) + drop_bit 6 s2"
    "take_bit 6 (ucast (quad_word s0 s1 s2)) = s2 AND 0x3f"
    unfolding m p and_0x3f quad_word_def
    by (rule bit_word_eqI; auto simp: bit_simps dest: bit_imp_le_length)+
qed

section \<open>The encoder is the block encoder\<close>

lemma quad_chars:
  assumes "w = quad_word s0 s1 s2"
  shows "base64_chars ! unat (drop_bit 2 s0) = conv_bin2ascii (ucast (drop_bit 18 w))"
    "base64_chars ! unat (push_bit 4 (s0 AND 0x03) + drop_bit 4 s1) = conv_bin2ascii (ucast (drop_bit 12 w))"
    "base64_chars ! unat (push_bit 2 (s1 AND 0x0f) + drop_bit 6 s2) = conv_bin2ascii (ucast (drop_bit 6 w))"
    "base64_chars ! unat (s2 AND 0x3f) = conv_bin2ascii (ucast w)"
  unfolding assms by (rule chars_conv, rule quad_sextets)+

lemma Pad64_eq: "Pad64 = 61"
  by (simp add: Pad64_def)

lemma quads_full: "length target mod 4 = 0 \<Longrightarrow> length target \<le> targsize \<Longrightarrow> targsize < length target + 4 \<Longrightarrow>
    take (targsize div 4 * 4) (target @ xs) = target"
proof -
  assume a: "length target mod 4 = 0" "length target \<le> targsize" "targsize < length target + 4"
  then have "targsize div 4 * 4 = length target" by presburger
  then show ?thesis by simp
qed

lemma quads_exact: "4 dvd n \<Longrightarrow> \<not> targsize < n + 4 \<Longrightarrow> \<not> Suc (Suc (Suc (Suc n))) < targsize \<Longrightarrow>
    targsize div 4 * 4 - n = 4"
  by presburger

lemma ntop_eq:
  "length target mod 4 = 0 \<Longrightarrow> length target \<le> targsize \<Longrightarrow>
    ntop_end targsize (ntop_loop src targsize target) =
      (let out = target @ encode_quads src in
       if length out < targsize then (c_int (length out), out @ [0]) else (- 1, take (targsize div 4 * 4) out))"
proof (induction src targsize target rule: ntop_loop.induct, goal_cases)
  case (1 s0 s1 s2 src targsize target)
  define q where "q = encode_quads [s0, s1, s2]"
  have q: "length q = 4" "encode_quads (s0 # s1 # s2 # src) = q @ encode_quads src"
    by (simp_all add: q_def encode_quads_word Let_def)
  have step: "ntop_loop (s0 # s1 # s2 # src) targsize target =
      (if targsize < length target + 4 then (None, target) else ntop_loop src targsize (target @ q))"
    unfolding ntop_loop.simps Let_def quad_chars [where ?s0.0 = s0 and ?s1.0 = s1 and ?s2.0 = s2, OF refl] by (simp add: q_def encode_quads_word Let_def)
  show ?case
  proof (cases "targsize < length target + 4")
    case True
    then show ?thesis
      using 1(2,3) q(1) quads_full [of target targsize "q @ encode_quads src"] unfolding step q(2)
      by (simp add: ntop_end_def Let_def)
  next
    case False
    have "ntop_end targsize (ntop_loop src targsize (target @ q)) = (let out = (target @ q) @ encode_quads src in
       if length out < targsize then (c_int (length out), out @ [0]) else (- 1, take (targsize div 4 * 4) out))"
      using 1(1) [OF refl refl refl refl False, unfolded quad_chars [where ?s0.0 = s0 and ?s1.0 = s1 and ?s2.0 = s2, OF refl]] 1(2,3) q(1) False
      by (simp add: q_def encode_quads_word Let_def)
    then show ?thesis using False unfolding step q(2) by (simp add: Let_def)
  qed
next
  case (2 targsize target)
  then show ?case by (auto simp: ntop_end_def Let_def)
next
  case (3 s0 targsize target)
  show ?case
    using 3 quads_full [of target targsize "encode_quads [s0]"] quad_chars [where ?s0.0 = s0 and ?s1.0 = 0 and ?s2.0 = 0, OF refl]
    by (auto simp: ntop_end_def Let_def encode_quads_word Pad64_eq quads_exact)
next
  case (4 s0 s1 targsize target)
  show ?case
    using 4 quads_full [of target targsize "encode_quads [s0, s1]"] quad_chars [where ?s0.0 = s0 and ?s1.0 = s1 and ?s2.0 = 0, OF refl]
    by (auto simp: ntop_end_def Let_def encode_quads_word Pad64_eq quads_exact)
qed

lemma c_int_small: "n < 2 ^ 31 \<Longrightarrow> c_int n = int n"
  by (simp add: c_int_def signed_of_nat signed_take_bit_int_eq_self)

text \<open>
  C26: \<open>f_b64_ntop\<close> writes the text of \<open>EVP_EncodeBlock\<close> with its terminator when the target has room for
  both, and otherwise returns -1 with the groups that fit; it never writes more than the target holds.
\<close>

theorem ntop_encodes:
  assumes "length src < 2 ^ 29"
  shows "f_b64_ntop src targsize =
    (let (text_of, n) = EVP_EncodeBlock src in
     if n < targsize then (int n, text_of) else (- 1, take (targsize div 4 * 4) (take n text_of)))"
proof -
  have "c_int (length (encode_quads src)) = int (length (encode_quads src))"
    using assms by (intro c_int_small) simp
  then show ?thesis
    using ntop_eq [of "[]" targsize src] by (simp add: f_b64_ntop_def EVP_EncodeBlock_def Let_def)
qed

theorem ntop_encodes_witness: "f_b64_ntop [1, 2, 3, 4] 8 = (- 1, [65, 81, 73, 68, 66, 65, 61, 61])"
  by (subst ntop_encodes) (simp_all add: EVP_EncodeBlock_def encode_quads_word Let_def quad_word_def conv_bin2ascii_eq)

section \<open>The decoder\<close>

lemma alphabet_facts: "c \<in> set base64_chars \<Longrightarrow> c < 0x80 \<and> \<not> isspace c \<and> c \<noteq> 61 \<and> c \<noteq> 0"
  by (auto simp: base64_chars_eq base64_alphabet_def upt_rec isspace_def)

lemma find_char_nth: "distinct cs \<Longrightarrow> n < length cs \<Longrightarrow> find_char cs (cs ! n) = Some n"
  by (induction cs arbitrary: n) (auto simp: nth_Cons split: nat.splits)

lemma length_base64_chars: "length base64_chars = 64"
  by (simp add: base64_chars_eq base64_alphabet_def)

lemma distinct_base64_chars: "distinct base64_chars"
proof -
  have "i = j" if "i < 64" "j < 64" "base64_chars ! i = base64_chars ! j" for i j
  proof -
    have "take_bit 6 (word_of_nat i) = (take_bit 6 (word_of_nat j) :: u8)"
      using that conv_facts(1) [of "word_of_nat i"] conv_facts(1) [of "word_of_nat j"]
      by (simp add: base64_chars_eq alphabet_nth)
    then have "unat (take_bit 6 (word_of_nat i) :: u8) = unat (take_bit 6 (word_of_nat j) :: u8)" by simp
    moreover have "unat (take_bit 6 (word_of_nat n) :: u8) = n" if "n < 64" for n
      using that by (simp add: unsigned_take_bit_eq unat_of_nat take_bit_nat_eq_self_iff)
    ultimately show ?thesis using that by simp
  qed
  then show ?thesis by (simp add: distinct_conv_nth length_base64_chars) metis
qed

lemma conv_char:
  "find_char base64_chars (conv_bin2ascii a) = Some (unat (take_bit 6 a))"
  "\<not> 0x80 \<le> conv_bin2ascii a" "\<not> isspace (conv_bin2ascii a)" "conv_bin2ascii a \<noteq> Pad64" "conv_bin2ascii a \<noteq> 0"
proof -
  have "unat (take_bit 6 a) < 64" using six_bits [of a] by (simp add: and_0x3f)
  then have c: "conv_bin2ascii a = base64_chars ! unat (take_bit 6 a)" "unat (take_bit 6 a) < length base64_chars"
    by (simp_all add: chars_conv [OF refl] length_base64_chars)
  show "find_char base64_chars (conv_bin2ascii a) = Some (unat (take_bit 6 a))"
    using find_char_nth [OF distinct_base64_chars] c by simp
  show "\<not> 0x80 \<le> conv_bin2ascii a" "\<not> isspace (conv_bin2ascii a)" "conv_bin2ascii a \<noteq> Pad64" "conv_bin2ascii a \<noteq> 0"
    using alphabet_facts [of "conv_bin2ascii a"] nth_mem [OF c(2)] unfolding c(1) Pad64_eq by auto
qed

lemma pton_loop_char:
  "pton_loop targsize (conv_bin2ascii a # src) st =
    (case pton_char targsize (take_bit 6 a) st of None \<Rightarrow> Rejected st | Some st \<Rightarrow> pton_loop targsize src st)"
  by (simp add: conv_char)

text \<open>White space changes nothing, in the padding neither.\<close>

lemma skip_space_ascii: "\<forall>c \<in> set src. c < 0x80 \<Longrightarrow> skip_space src = Some (dropWhile isspace src)"
  by (induction src) auto

lemma dropWhile_filter_space: "dropWhile P (filter (\<lambda>c. \<not> P c) src) = filter (\<lambda>c. \<not> P c) (dropWhile P src)"
  by (induction src) auto

lemma filter_drop_space: "filter (\<lambda>c. \<not> P c) (dropWhile P src) = filter (\<lambda>c. \<not> P c) src"
  by (induction src) auto

lemma hd_drop_space: "dropWhile P src = c # cs \<Longrightarrow> \<not> P c"
  by (induction src) (auto split: if_splits)

lemma pton_tail_space:
  assumes "\<forall>c \<in> set src. c < 0x80"
  shows "pton_tail src st = pton_tail (filter (\<lambda>c. \<not> isspace c) src) st"
proof (cases "dropWhile isspace src")
  case Nil
  have "filter (\<lambda>c. \<not> isspace c) src = []" using filter_drop_space [of isspace src] unfolding Nil by simp
  then show ?thesis using assms by (simp only: pton_tail_def skip_space_ascii Nil) simp
next
  case (Cons c cs)
  then show ?thesis using assms hd_drop_space [OF Cons]
    by (simp add: pton_tail_def skip_space_ascii dropWhile_filter_space)
qed

lemma pton_pad_space:
  assumes "\<forall>c \<in> set src. c < 0x80"
  shows "pton_pad src st = pton_pad (filter (\<lambda>c. \<not> isspace c) src) st"
proof (cases "dropWhile isspace src")
  case Nil
  have "filter (\<lambda>c. \<not> isspace c) src = []" using filter_drop_space [of isspace src] unfolding Nil by simp
  then show ?thesis using assms pton_tail_space [OF assms] by (simp only: pton_pad_def skip_space_ascii Nil) simp
next
  case (Cons c cs)
  have "set cs \<subseteq> set src" using set_dropWhileD [of _ isspace src] unfolding Cons by auto
  then have "\<forall>c \<in> set cs. c < 0x80" using assms by blast
  then show ?thesis
    using assms hd_drop_space [OF Cons] pton_tail_space [OF assms] pton_tail_space [of cs] Cons
    by (auto simp: pton_pad_def skip_space_ascii dropWhile_filter_space)
qed

lemma pton_space:
  "\<forall>c \<in> set src. c < 0x80 \<Longrightarrow>
    pton_end (pton_loop targsize src st) = pton_end (pton_loop targsize (filter (\<lambda>c. \<not> isspace c) src) st)"
proof (induction targsize src st rule: pton_loop.induct)
  case (2 targsize ch src st)
  have src: "\<forall>c \<in> set src. c < 0x80" "\<not> 0x80 \<le> ch" using 2(3) by auto
  consider "isspace ch" | "\<not> isspace ch" "ch = Pad64" | "\<not> isspace ch" "ch \<noteq> Pad64" "find_char base64_chars ch = None"
    | pos where "\<not> isspace ch" "ch \<noteq> Pad64" "find_char base64_chars ch = Some pos" by fastforce
  then show ?case
  proof cases
    case 1
    then show ?thesis using 2(1) src by simp
  next
    case 2
    then show ?thesis using pton_pad_space [OF src(1), of st] src(2) by (simp add: pton_end_def)
  next
    case 3
    then show ?thesis using src(2) by simp
  next
    case 4
    then show ?thesis using 2(2) [OF src(2) _ _ 4(3)] src
      by (cases "pton_char targsize (word_of_nat pos) st") simp_all
  qed
qed simp

lemma suc_suc_diff: "2 \<le> n \<Longrightarrow> Suc (Suc (n - 2)) = n"
  by simp

text \<open>The four characters of a group store its three bytes.\<close>

lemma sextet_bytes:
  fixes s0 s1 s2 :: u8
  defines "p \<equiv> \<lambda>k. take_bit 6 (ucast (drop_bit k (quad_word s0 s1 s2)) :: u8)"
  shows "push_bit 2 (p 18) OR drop_bit 4 (p 12) = s0"
    "push_bit 4 (p 12 AND 0x0f) OR drop_bit 2 (p 6) = s1"
    "push_bit 6 (p 6 AND 0x03) OR p 0 = s2"
    "s1 = 0 \<Longrightarrow> push_bit 4 (p 12 AND 0x0f) = 0" "s2 = 0 \<Longrightarrow> push_bit 6 (p 6 AND 0x03) = 0"
proof -
  have m: "x AND 0x03 = take_bit 2 x" "x AND 0x0f = take_bit 4 x" for x :: u8
    by (simp_all add: take_bit_eq_mask mask_eq_exp_minus_1)
  show "push_bit 2 (p 18) OR drop_bit 4 (p 12) = s0"
    "push_bit 4 (p 12 AND 0x0f) OR drop_bit 2 (p 6) = s1"
    "push_bit 6 (p 6 AND 0x03) OR p 0 = s2"
    "s1 = 0 \<Longrightarrow> push_bit 4 (p 12 AND 0x0f) = 0" "s2 = 0 \<Longrightarrow> push_bit 6 (p 6 AND 0x03) = 0"
    unfolding m p_def quad_word_def
    by (rule bit_word_eqI; auto simp: bit_simps suc_suc_diff not_less dest: bit_imp_le_length)+
qed

lemma pton_char_stored:
  assumes "targsize = length pre + length junk" "i = length pre"
  shows "pton_char targsize p \<lparr>pton_state = 0, tarindex = i, pton_target = Some (pre @ junk)\<rparr> =
      (case junk of [] \<Rightarrow> None | _ # junk' \<Rightarrow>
         Some \<lparr>pton_state = Suc 0, tarindex = i, pton_target = Some (pre @ push_bit 2 p # junk')\<rparr>)"
    "pton_char targsize p \<lparr>pton_state = Suc 0, tarindex = i, pton_target = Some (pre @ junk)\<rparr> =
      (case junk of b # _ # junk' \<Rightarrow>
         Some \<lparr>pton_state = 2, tarindex = Suc i,
           pton_target = Some (pre @ (b OR drop_bit 4 p) # push_bit 4 (p AND 0x0f) # junk')\<rparr> | _ \<Rightarrow> None)"
    "pton_char targsize p \<lparr>pton_state = 2, tarindex = i, pton_target = Some (pre @ junk)\<rparr> =
      (case junk of b # _ # junk' \<Rightarrow>
         Some \<lparr>pton_state = 3, tarindex = Suc i,
           pton_target = Some (pre @ (b OR drop_bit 2 p) # push_bit 6 (p AND 0x03) # junk')\<rparr> | _ \<Rightarrow> None)"
    "pton_char targsize p \<lparr>pton_state = 3, tarindex = i, pton_target = Some (pre @ junk)\<rparr> =
      (case junk of [] \<Rightarrow> None | b # junk' \<Rightarrow>
         Some \<lparr>pton_state = 0, tarindex = Suc i, pton_target = Some (pre @ (b OR p) # junk')\<rparr>)"
  using assms by (auto simp: pton_char_def pton_or_def Let_def list_update_append nth_append split: list.split)

lemma pton_char_full:
  "pton_char (length pre) p \<lparr>pton_state = 0, tarindex = length pre, pton_target = Some pre\<rparr> = None"
  by (simp add: pton_char_def Let_def)

lemma pton_char_later:
  "targsize = Suc (length pre) + length junk \<Longrightarrow>
    pton_char targsize p \<lparr>pton_state = 2, tarindex = Suc (length pre), pton_target = Some (pre @ b # junk)\<rparr> =
      (case junk of c # _ # junk' \<Rightarrow>
         Some \<lparr>pton_state = 3, tarindex = Suc (Suc (length pre)),
           pton_target = Some (pre @ b # (c OR drop_bit 2 p) # push_bit 6 (p AND 0x03) # junk')\<rparr> | _ \<Rightarrow> None)"
  "targsize = Suc (Suc (length pre)) + length junk \<Longrightarrow>
    pton_char targsize p \<lparr>pton_state = 3, tarindex = Suc (Suc (length pre)), pton_target = Some (pre @ b # c # junk)\<rparr> =
      (case junk of [] \<Rightarrow> None | d # junk' \<Rightarrow>
         Some \<lparr>pton_state = 0, tarindex = Suc (Suc (Suc (length pre))), pton_target = Some (pre @ b # c # (d OR p) # junk')\<rparr>)"
proof -
  show "pton_char targsize p \<lparr>pton_state = 2, tarindex = Suc (length pre), pton_target = Some (pre @ b # junk)\<rparr> =
      (case junk of c # _ # junk' \<Rightarrow>
         Some \<lparr>pton_state = 3, tarindex = Suc (Suc (length pre)),
           pton_target = Some (pre @ b # (c OR drop_bit 2 p) # push_bit 6 (p AND 0x03) # junk')\<rparr> | _ \<Rightarrow> None)"
    if "targsize = Suc (length pre) + length junk"
    using pton_char_stored(3) [of targsize "pre @ [b]" junk "length (pre @ [b])" p, OF _ refl] that
    by (cases junk; cases "tl junk"; simp)
  show "pton_char targsize p \<lparr>pton_state = 3, tarindex = Suc (Suc (length pre)), pton_target = Some (pre @ b # c # junk)\<rparr> =
      (case junk of [] \<Rightarrow> None | d # junk' \<Rightarrow>
         Some \<lparr>pton_state = 0, tarindex = Suc (Suc (Suc (length pre))), pton_target = Some (pre @ b # c # (d OR p) # junk')\<rparr>)"
    if "targsize = Suc (Suc (length pre)) + length junk"
    using pton_char_stored(4) [of targsize "pre @ [b, c]" junk "length (pre @ [b, c])" p, OF _ refl] that
    by (cases junk; simp)
qed

text \<open>What a list of characters makes of the target in front of which \<open>pre\<close> is stored.\<close>

abbreviation pton_at :: "nat \<Rightarrow> u8 list \<Rightarrow> u8 list \<Rightarrow> pton" where
  "pton_at s pre junk \<equiv> \<lparr>pton_state = s, tarindex = length pre, pton_target = Some (pre @ junk)\<rparr>"

lemma room_cases:
  obtains "junk = []" | a where "junk = [a]" | a b where "junk = [a, b]" | a b c rest where "junk = a # b # c # rest"
  by (metis neq_Nil_conv)

lemma pton_quad:
  assumes len: "targsize = length pre + length junk"
  shows "(3 \<le> length junk \<longrightarrow> pton_loop targsize (encode_quads [s0, s1, s2] @ src) (pton_at 0 pre junk) =
      pton_loop targsize src (pton_at 0 (pre @ [s0, s1, s2]) (drop 3 junk))) \<and>
    (\<not> 3 \<le> length junk \<longrightarrow> (\<exists>st. pton_loop targsize (encode_quads [s0, s1, s2] @ src) (pton_at 0 pre junk) = Rejected st \<and>
      pton_target st \<noteq> None))"
  unfolding len using sextet_bytes(1-3) [where ?s0.0 = s0 and ?s1.0 = s1 and ?s2.0 = s2]
  by (cases junk rule: room_cases)
    (simp_all add: encode_quads_word Let_def pton_loop_char pton_char_stored(1,2) pton_char_later pton_char_full
      del: pton_loop.simps)

lemma pton_loop_pad: "pton_loop targsize (61 # src) st = Padded src st"
  by (simp add: Pad64_eq isspace_def)

lemma pad_no_space [simp]: "\<not> isspace 61"
  by (simp add: isspace_def)

lemma skip_pad: "skip_space [61] = Some [61]"
  by (simp add: isspace_def)

lemma pton_padded_2:
  assumes len: "targsize = length pre + length junk"
  shows "(3 \<le> length junk \<longrightarrow> pton_end (pton_loop targsize (encode_quads [s0, s1]) (pton_at 0 pre junk)) =
      Returned (c_int (length pre + 2)) (Some (pre @ [s0, s1, 0] @ drop 3 junk))) \<and>
    (\<not> 3 \<le> length junk \<longrightarrow> (\<exists>t. pton_end (pton_loop targsize (encode_quads [s0, s1]) (pton_at 0 pre junk)) =
      Returned (- 1) (Some t)))"
  unfolding len using sextet_bytes [where ?s0.0 = s0 and ?s1.0 = s1 and ?s2.0 = 0]
  by (cases junk rule: room_cases)
    (simp_all add: encode_quads_word Let_def pton_loop_char pton_char_stored(1,2) pton_char_later pton_char_full pton_loop_pad Pad64_eq skip_pad
      pton_end_def pton_pad_def pton_tail_def nth_append del: pton_loop.simps)

lemma pton_padded_1:
  assumes len: "targsize = length pre + length junk"
  shows "(2 \<le> length junk \<longrightarrow> pton_end (pton_loop targsize (encode_quads [s0]) (pton_at 0 pre junk)) =
      Returned (c_int (length pre + 1)) (Some (pre @ [s0, 0] @ drop 2 junk))) \<and>
    (\<not> 2 \<le> length junk \<longrightarrow> (\<exists>t. pton_end (pton_loop targsize (encode_quads [s0]) (pton_at 0 pre junk)) =
      Returned (- 1) (Some t)))"
  unfolding len using sextet_bytes [where ?s0.0 = s0 and ?s1.0 = 0 and ?s2.0 = 0]
  by (cases junk rule: room_cases)
    (simp_all add: encode_quads_word Let_def pton_loop_char pton_char_stored(1,2) pton_char_later pton_char_full pton_loop_pad Pad64_eq skip_pad
      pton_end_def pton_pad_def pton_tail_def nth_append del: pton_loop.simps)

text \<open>The byte behind the data into which the last character of a padded group spills.\<close>

definition spill :: "u8 list \<Rightarrow> u8 list" where
  "spill src = (if length src mod 3 = 0 then [] else [0])"

lemma pton_at_eq:
  "length pre + length junk = targsize \<Longrightarrow>
    (length (src @ spill src) \<le> length junk \<longrightarrow>
      pton_end (pton_loop targsize (encode_quads src) (pton_at 0 pre junk)) =
        Returned (c_int (length pre + length src)) (Some (pre @ src @ spill src @ drop (length (src @ spill src)) junk))) \<and>
    (\<not> length (src @ spill src) \<le> length junk \<longrightarrow>
      (\<exists>t. pton_end (pton_loop targsize (encode_quads src) (pton_at 0 pre junk)) = Returned (- 1) (Some t)))"
proof (induction src arbitrary: pre junk rule: encode_quads.induct)
  case (1 s0 s1 s2 src)
  have e: "encode_quads (s0 # s1 # s2 # src) = encode_quads [s0, s1, s2] @ encode_quads src"
    by (simp add: encode_quads_word Let_def)
  have sp: "spill (s0 # s1 # s2 # src) = spill src" by (simp add: spill_def)
  note quad = pton_quad [OF "1.prems" [symmetric], of s0 s1 s2 "encode_quads src"]
  show ?case
  proof (cases "3 \<le> length junk")
    case True
    then have "length (pre @ [s0, s1, s2]) + length (drop 3 junk) = targsize" using "1.prems" by simp
    note ih = "1.IH" [OF refl this]
    define n where "n = length (src @ spill src)"
    have l: "length ((s0 # s1 # s2 # src) @ spill src) = n + 3" "n \<le> length (drop 3 junk) \<longleftrightarrow> n + 3 \<le> length junk"
      "length pre + length (s0 # s1 # s2 # src) = length (pre @ [s0, s1, s2]) + length src"
      using True by (simp_all add: n_def le_diff_conv2)
    have r: "pre @ (s0 # s1 # s2 # src) @ spill src @ drop (n + 3) junk =
        (pre @ [s0, s1, s2]) @ src @ spill src @ drop n (drop 3 junk)" by simp
    show ?thesis
      using ih True unfolding e sp l r n_def [symmetric] conjunct1 [OF quad, rule_format, OF True] by blast
  next
    case False
    then show ?thesis using quad unfolding e sp by (auto simp: pton_end_def)
  qed
next
  case (2 s0 s1)
  have "spill [s0, s1] = [0]" "length ([s0, s1] @ [0 :: u8]) = 3" "pre @ [s0, s1] @ [0] @ drop 3 junk = pre @ [s0, s1, 0] @ drop 3 junk"
    "length pre + length [s0, s1] = length pre + 2" by (simp_all add: spill_def)
  then show ?case using pton_padded_2 [OF 2 [symmetric], of s0 s1] by presburger
next
  case (3 s0)
  have "spill [s0] = [0]" "length ([s0] @ [0 :: u8]) = 2" "pre @ [s0] @ [0] @ drop 2 junk = pre @ [s0, 0] @ drop 2 junk"
    "length pre + length [s0] = length pre + 1" by (simp_all add: spill_def)
  then show ?case using pton_padded_1 [OF 3 [symmetric], of s0] by presburger
qed (simp add: spill_def pton_end_def)

text \<open>Without a target the characters are only counted.\<close>

lemma pton_count:
  "pton_end (pton_loop targsize (encode_quads src) \<lparr>pton_state = 0, tarindex = i, pton_target = None\<rparr>) =
    Returned (c_int (i + length src)) None"
  by (induction src arbitrary: i rule: encode_quads.induct)
    (simp_all add: encode_quads_word Let_def pton_loop_char pton_char_def pton_end_def pton_loop_pad pton_pad_def skip_pad
      pton_tail_def Pad64_eq del: pton_loop.simps(2))

text \<open>
  C27: \<open>f_b64_pton\<close> decodes the text of every list of bytes, white space anywhere in it, the padding
  included: it returns the number of bytes and stores them, and a zero byte behind them when the text
  is padded. That byte needs room: a target with room for just the data of a padded text is refused,
  as is a smaller one. Without a target the bytes are counted.
\<close>

theorem pton_decodes:
  assumes "filter (\<lambda>c. \<not> isspace c) str = encode_quads src" "length src < 2 ^ 31"
  shows "f_b64_pton (str @ 0 # rest) None targsize = Returned (int (length src)) None \<and>
    (if length (src @ spill src) \<le> length target then
       f_b64_pton (str @ 0 # rest) (Some target) (length target) =
         Returned (int (length src)) (Some (src @ spill src @ drop (length (src @ spill src)) target))
     else \<exists>t. f_b64_pton (str @ 0 # rest) (Some target) (length target) = Returned (- 1) (Some t))"
proof -
  have text_chars: "c < 0x80 \<and> c \<noteq> 0" if "c \<in> set (encode_quads src)" for c
    using that conv_char(2,5)
    by (induction src rule: encode_quads.induct) (auto simp: encode_quads_word Let_def not_le)
  have ascii: "c < 0x80 \<and> c \<noteq> 0" if "c \<in> set str" for c
  proof (cases "isspace c")
    case True
    then show ?thesis by (auto simp: isspace_def word_le_nat_alt word_less_nat_alt)
  next
    case False
    then have "c \<in> set (filter (\<lambda>c. \<not> isspace c) str)" using that by simp
    then show ?thesis using text_chars assms(1) by auto
  qed
  have "takeWhile (\<lambda>c. c \<noteq> 0) (str @ 0 # rest) = str"
    using ascii by (subst takeWhile_append2) auto
  then have run: "f_b64_pton (str @ 0 # rest) t n =
      pton_end (pton_loop n (encode_quads src) \<lparr>pton_state = 0, tarindex = 0, pton_target = t\<rparr>)" for t n
    using pton_space [of str n] ascii by (simp add: f_b64_pton_def assms(1))
  show ?thesis
    using pton_count [of targsize src 0] pton_at_eq [of "[]" target "length target" src] c_int_small [OF assms(2)]
    unfolding run by simp
qed

theorem pton_decodes_witness:
  "f_b64_pton ([65, 81, 10, 61, 32, 61] @ [0]) (Some [7, 7, 7]) (length [7, 7, 7 :: u8]) = Returned 1 (Some [1, 0, 7]) \<and>
   (\<exists>t. f_b64_pton ([65, 81, 10, 61, 32, 61] @ [0]) (Some [7]) (length [7 :: u8]) = Returned (- 1) (Some t))"
proof -
  have "filter (\<lambda>c. \<not> isspace c) [65, 81, 10, 61, 32, 61] = encode_quads [1]"
    by (simp add: isspace_def encode_quads_word Let_def quad_word_def conv_bin2ascii_eq)
  then show ?thesis
    using pton_decodes [of "[65, 81, 10, 61, 32, 61]" "[1]" "[]" 0 "[7, 7, 7]"]
      pton_decodes [of "[65, 81, 10, 61, 32, 61]" "[1]" "[]" 0 "[7]"] by (simp_all add: spill_def)
qed

text \<open>A byte from 0x80 up in the text is handed to \<open>isspace\<close> as a negative number.\<close>

lemma pton_undefined: "f_b64_pton [0xC3, 0xA9, 0] target targsize = Undefined"
  by (simp add: f_b64_pton_def pton_end_def)

end
