(* ===== verification/Block_Modes.thy ===== *)
theory Block_Modes
  imports Prelude
begin

text \<open>
  The modes of BoringSSL that turn a block cipher into a stream cipher
  (\<open>crypto/fipsmodule/modes/ctr.c\<close>, \<open>ofb.c\<close>, \<open>cfb.c\<close>). The block cipher, a function pointer in C, is a
  parameter: a function on lists of 16 bytes with the key applied. The arrays that the caller keeps
  between two calls are the state; input and output are lists, equal or disjoint in C. The platforms of
  the program have \<open>STRICT_ALIGNMENT\<close> 0, so the word loops run; the byte loops of the other setting
  are modelled beside them as \<open>ctr_bytes\<close>, \<open>cfb_enc_bytes\<close> and \<open>cfb_dec_bytes\<close>.
\<close>

type_synonym block_fn = "u8 list \<Rightarrow> u8 list"

section \<open>Words and exclusive or\<close>

definition load_word_le :: "u8 list \<Rightarrow> nat \<Rightarrow> u64" where
  "load_word_le bs n = le_word (take 8 (drop n bs))"

definition store_word_le :: "u64 \<Rightarrow> u8 list" where
  "store_word_le v = le_bytes 8 v"

text \<open>The loop over the two words of a block.\<close>

definition xor_words :: "u8 list \<Rightarrow> u8 list \<Rightarrow> u8 list" where
  "xor_words a b = concat (map (\<lambda>n. store_word_le (load_word_le a n XOR load_word_le b n)) [0, 8])"

section \<open>Counter mode\<close>

record ctr_state =
  ivec :: "u8 list"
  ecount_buf :: "u8 list"
  num :: nat

text \<open>The loop of both increments: \<open>n\<close> bytes with the carry \<open>c\<close>, the last byte first.\<close>

fun ctr_inc_loop :: "nat \<Rightarrow> u32 \<Rightarrow> u8 list \<Rightarrow> u8 list" where
  "ctr_inc_loop 0 c counter = counter"
| "ctr_inc_loop (Suc n) c counter =
     (let c = c + ucast (counter ! n) in ctr_inc_loop n (drop_bit 8 c) (counter[n := ucast c]))"

definition ctr128_inc :: "u8 list \<Rightarrow> u8 list" where
  "ctr128_inc counter = ctr_inc_loop 16 1 counter"

definition ctr96_inc :: "u8 list \<Rightarrow> u8 list" where
  "ctr96_inc counter = ctr_inc_loop 12 1 counter"

text \<open>What is left of the last key block comes first: the output, the position and the input left.\<close>

fun ctr_head :: "u8 list \<Rightarrow> nat \<Rightarrow> u8 list \<Rightarrow> u8 list \<times> nat \<times> u8 list" where
  "ctr_head ecount n [] = ([], n, [])"
| "ctr_head ecount n (b # src) =
     (if n = 0 then ([], n, b # src)
      else let (out, n', left) = ctr_head ecount ((n + 1) mod 16) src in ((b XOR ecount ! n) # out, n', left))"

text \<open>The loop over the rest of a block, from position \<open>n\<close> on.\<close>

fun xor_from :: "u8 list \<Rightarrow> nat \<Rightarrow> u8 list \<Rightarrow> u8 list" where
  "xor_from k n [] = []"
| "xor_from k n (b # src) = (b XOR k ! n) # xor_from k (Suc n) src"

function ctr_blocks :: "block_fn \<Rightarrow> u8 list \<Rightarrow> ctr_state \<Rightarrow> u8 list \<times> u8 list \<times> ctr_state" where
  "ctr_blocks block src st =
     (if length src < 16 then ([], src, st)
      else
        let ecount = block (ivec st);
            out = xor_words src ecount;
            (rest, left, st) = ctr_blocks block (drop 16 src)
              (st\<lparr>ecount_buf := ecount, ivec := ctr128_inc (ivec st), num := 0\<rparr>) in
        (out @ rest, left, st))"
  by pat_completeness auto

termination by (relation "measure (\<lambda>(block, src, st). length src)") auto

declare ctr_blocks.simps [simp del]

text \<open>When input is left behind the head, the position is 0.\<close>

definition CRYPTO_ctr128_encrypt :: "block_fn \<Rightarrow> ctr_state \<Rightarrow> u8 list \<Rightarrow> u8 list \<times> ctr_state" where
  "CRYPTO_ctr128_encrypt block st src =
     (let (out1, n, src) = ctr_head (ecount_buf st) (num st) src;
          (out2, src, st) = ctr_blocks block src (st\<lparr>num := n\<rparr>) in
      if src \<noteq> [] then
        let ecount = block (ivec st) in
        (out1 @ out2 @ xor_from ecount (num st) src,
         st\<lparr>ecount_buf := ecount, ivec := ctr128_inc (ivec st), num := num st + length src\<rparr>)
      else (out1 @ out2, st))"

text \<open>The byte loop of platforms with strict alignment.\<close>

fun ctr_bytes :: "block_fn \<Rightarrow> ctr_state \<Rightarrow> u8 list \<Rightarrow> u8 list \<times> ctr_state" where
  "ctr_bytes block st [] = ([], st)"
| "ctr_bytes block st (b # src) =
     (let st = (if num st = 0 then st\<lparr>ecount_buf := block (ivec st), ivec := ctr128_inc (ivec st)\<rparr> else st);
          (out, st') = ctr_bytes block (st\<lparr>num := (num st + 1) mod 16\<rparr>) src in
      ((b XOR ecount_buf st ! num st) # out, st'))"

text \<open>The variant whose function does many blocks, but counts in the last 32 bits only: the function
  takes input, number of blocks and counter. \<open>GETU32\<close> and \<open>PUTU32\<close> are big-endian.\<close>

type_synonym ctr128_fn = "u8 list \<Rightarrow> nat \<Rightarrow> u8 list \<Rightarrow> u8 list"

definition GETU32 :: "u8 list \<Rightarrow> u32" where
  "GETU32 bs = be_word (take 4 bs)"

definition put_ctr32 :: "u8 list \<Rightarrow> u32 \<Rightarrow> u8 list" where
  "put_ctr32 iv v = take 12 iv @ be_bytes 4 v"

function ctr32_blocks ::
    "ctr128_fn \<Rightarrow> u8 list \<Rightarrow> u8 list \<Rightarrow> u32 \<Rightarrow> u8 list \<times> u8 list \<times> u8 list \<times> u32" where
  "ctr32_blocks func src iv ctr32 =
     (if length src < 16 then ([], src, iv, ctr32)
      else
        let blocks = length src div 16;
            blocks = (if 2 ^ 28 < blocks then 2 ^ 28 else blocks);
            ctr32 = ctr32 + word_of_nat blocks;
            (blocks, ctr32) = (if unat ctr32 < blocks then (blocks - unat ctr32, 0) else (blocks, ctr32));
            out = func (take (blocks * 16) src) blocks iv;
            iv = put_ctr32 iv ctr32;
            iv = (if ctr32 = 0 then ctr96_inc iv else iv);
            (rest, left, iv, ctr32) = ctr32_blocks func (drop (blocks * 16) src) iv ctr32 in
        (out @ rest, left, iv, ctr32))"
  by pat_completeness auto

termination
proof (relation "measure (\<lambda>(func, src, iv, ctr32). length src)", goal_cases)
  case 1
  show ?case by simp
next
  case (2 func src iv ctr32 blocks blocks' c r b c' out iv' iv'')
  have "0 < length src div 16" using 2(1) by (simp add: div_greater_zero_iff)
  then have "0 < b" using 2 by (auto split: if_splits)
  then show ?case using 2(1) by simp
qed

declare ctr32_blocks.simps [simp del]

definition CRYPTO_ctr128_encrypt_ctr32 :: "ctr128_fn \<Rightarrow> ctr_state \<Rightarrow> u8 list \<Rightarrow> u8 list \<times> ctr_state" where
  "CRYPTO_ctr128_encrypt_ctr32 func st src =
     (let (out1, n, src) = ctr_head (ecount_buf st) (num st) src;
          ctr32 = GETU32 (drop 12 (ivec st));
          (out2, src, iv, ctr32) = ctr32_blocks func src (ivec st) ctr32 in
      if src \<noteq> [] then
        let ecount = func (replicate 16 0) 1 iv;
            ctr32 = ctr32 + 1;
            iv = put_ctr32 iv ctr32;
            iv = (if ctr32 = 0 then ctr96_inc iv else iv) in
        (out1 @ out2 @ xor_from ecount n src, st\<lparr>ivec := iv, ecount_buf := ecount, num := n + length src\<rparr>)
      else (out1 @ out2, st\<lparr>ivec := iv, num := n\<rparr>))"

section \<open>Output feedback\<close>

text \<open>The key block is the initialisation vector itself.\<close>

record ofb_state =
  ofb_ivec :: "u8 list"
  ofb_num :: nat

function ofb_blocks :: "block_fn \<Rightarrow> u8 list \<Rightarrow> ofb_state \<Rightarrow> u8 list \<times> u8 list \<times> ofb_state" where
  "ofb_blocks block src st =
     (if length src < 16 then ([], src, st)
      else
        let iv = block (ofb_ivec st);
            (rest, left, st) = ofb_blocks block (drop 16 src) (st\<lparr>ofb_ivec := iv, ofb_num := 0\<rparr>) in
        (xor_words src iv @ rest, left, st))"
  by pat_completeness auto

termination by (relation "measure (\<lambda>(block, src, st). length src)") auto

declare ofb_blocks.simps [simp del]

definition CRYPTO_ofb128_encrypt :: "block_fn \<Rightarrow> ofb_state \<Rightarrow> u8 list \<Rightarrow> u8 list \<times> ofb_state" where
  "CRYPTO_ofb128_encrypt block st src =
     (let (out1, n, src) = ctr_head (ofb_ivec st) (ofb_num st) src;
          (out2, src, st) = ofb_blocks block src (st\<lparr>ofb_num := n\<rparr>) in
      if src \<noteq> [] then
        let iv = block (ofb_ivec st) in
        (out1 @ out2 @ xor_from iv (ofb_num st) src, st\<lparr>ofb_ivec := iv, ofb_num := ofb_num st + length src\<rparr>)
      else (out1 @ out2, st))"

section \<open>Cipher feedback\<close>

record cfb_state =
  cfb_ivec :: "u8 list"
  cfb_num :: nat

text \<open>Encryption and decryption of the rest of a block; the output, the input left and the state.\<close>

fun cfb_enc_head :: "cfb_state \<Rightarrow> u8 list \<Rightarrow> u8 list \<times> u8 list \<times> cfb_state" where
  "cfb_enc_head st [] = ([], [], st)"
| "cfb_enc_head st (b # src) =
     (let n = cfb_num st in
      if n = 0 then ([], b # src, st)
      else
        let c = cfb_ivec st ! n XOR b;
            (out, left, st) = cfb_enc_head \<lparr>cfb_ivec = (cfb_ivec st)[n := c], cfb_num = (n + 1) mod 16\<rparr> src in
        (c # out, left, st))"

fun cfb_dec_head :: "cfb_state \<Rightarrow> u8 list \<Rightarrow> u8 list \<times> u8 list \<times> cfb_state" where
  "cfb_dec_head st [] = ([], [], st)"
| "cfb_dec_head st (c # src) =
     (let n = cfb_num st in
      if n = 0 then ([], c # src, st)
      else
        let (out, left, st') = cfb_dec_head \<lparr>cfb_ivec = (cfb_ivec st)[n := c], cfb_num = (n + 1) mod 16\<rparr> src in
        ((cfb_ivec st ! n XOR c) # out, left, st'))"

function cfb_enc_blocks :: "block_fn \<Rightarrow> u8 list \<Rightarrow> cfb_state \<Rightarrow> u8 list \<times> u8 list \<times> cfb_state" where
  "cfb_enc_blocks block src st =
     (if length src < 16 then ([], src, st)
      else
        let tmp = xor_words (block (cfb_ivec st)) src;
            (rest, left, st) = cfb_enc_blocks block (drop 16 src) \<lparr>cfb_ivec = tmp, cfb_num = 0\<rparr> in
        (tmp @ rest, left, st))"
  by pat_completeness auto

termination by (relation "measure (\<lambda>(block, src, st). length src)") auto

function cfb_dec_blocks :: "block_fn \<Rightarrow> u8 list \<Rightarrow> cfb_state \<Rightarrow> u8 list \<times> u8 list \<times> cfb_state" where
  "cfb_dec_blocks block src st =
     (if length src < 16 then ([], src, st)
      else
        let t = concat (map (\<lambda>n. store_word_le (load_word_le src n)) [0, 8]);
            out = xor_words (block (cfb_ivec st)) src;
            (rest, left, st) = cfb_dec_blocks block (drop 16 src) \<lparr>cfb_ivec = t, cfb_num = 0\<rparr> in
        (out @ rest, left, st))"
  by pat_completeness auto

termination by (relation "measure (\<lambda>(block, src, st). length src)") auto

declare cfb_enc_blocks.simps [simp del] cfb_dec_blocks.simps [simp del]

text \<open>The loops over the last, partial block: the output and the vector.\<close>

fun cfb_enc_tail :: "u8 list \<Rightarrow> nat \<Rightarrow> u8 list \<Rightarrow> u8 list \<times> u8 list" where
  "cfb_enc_tail iv n [] = ([], iv)"
| "cfb_enc_tail iv n (b # src) =
     (let c = iv ! n XOR b; (out, iv) = cfb_enc_tail (iv[n := c]) (Suc n) src in (c # out, iv))"

fun cfb_dec_tail :: "u8 list \<Rightarrow> nat \<Rightarrow> u8 list \<Rightarrow> u8 list \<times> u8 list" where
  "cfb_dec_tail iv n [] = ([], iv)"
| "cfb_dec_tail iv n (c # src) =
     (let (out, iv') = cfb_dec_tail (iv[n := c]) (Suc n) src in ((iv ! n XOR c) # out, iv'))"

definition CRYPTO_cfb128_encrypt :: "block_fn \<Rightarrow> bool \<Rightarrow> cfb_state \<Rightarrow> u8 list \<Rightarrow> u8 list \<times> cfb_state" where
  "CRYPTO_cfb128_encrypt block enc st src =
     (if enc then
        let (out1, src, st) = cfb_enc_head st src;
            (out2, src, st) = cfb_enc_blocks block src st in
        if src \<noteq> [] then
          let (out3, iv) = cfb_enc_tail (block (cfb_ivec st)) (cfb_num st) src in
          (out1 @ out2 @ out3, \<lparr>cfb_ivec = iv, cfb_num = cfb_num st + length src\<rparr>)
        else (out1 @ out2, st)
      else
        let (out1, src, st) = cfb_dec_head st src;
            (out2, src, st) = cfb_dec_blocks block src st in
        if src \<noteq> [] then
          let (out3, iv) = cfb_dec_tail (block (cfb_ivec st)) (cfb_num st) src in
          (out1 @ out2 @ out3, \<lparr>cfb_ivec = iv, cfb_num = cfb_num st + length src\<rparr>)
        else (out1 @ out2, st))"

text \<open>The byte loops of platforms with strict alignment.\<close>

fun cfb_enc_bytes :: "block_fn \<Rightarrow> cfb_state \<Rightarrow> u8 list \<Rightarrow> u8 list \<times> cfb_state" where
  "cfb_enc_bytes block st [] = ([], st)"
| "cfb_enc_bytes block st (b # src) =
     (let n = cfb_num st; iv = (if n = 0 then block (cfb_ivec st) else cfb_ivec st); c = iv ! n XOR b;
          (out, st) = cfb_enc_bytes block \<lparr>cfb_ivec = iv[n := c], cfb_num = (n + 1) mod 16\<rparr> src in
      (c # out, st))"

fun cfb_dec_bytes :: "block_fn \<Rightarrow> cfb_state \<Rightarrow> u8 list \<Rightarrow> u8 list \<times> cfb_state" where
  "cfb_dec_bytes block st [] = ([], st)"
| "cfb_dec_bytes block st (c # src) =
     (let n = cfb_num st; iv = (if n = 0 then block (cfb_ivec st) else cfb_ivec st);
          (out, st) = cfb_dec_bytes block \<lparr>cfb_ivec = iv[n := c], cfb_num = (n + 1) mod 16\<rparr> src in
      ((iv ! n XOR c) # out, st))"

section \<open>Cipher feedback of a few bits\<close>

text \<open>One step: the output and the vector. \<open>ovec\<close> holds the vector and behind it the ciphertext;
  what is behind that is unset in C and not used.\<close>

definition cfbr_encrypt_block :: "block_fn \<Rightarrow> bool \<Rightarrow> nat \<Rightarrow> u8 list \<Rightarrow> u8 list \<Rightarrow> u8 list \<times> u8 list" where
  "cfbr_encrypt_block block enc nbits iv src =
     (if nbits = 0 \<or> 128 < nbits then ([], iv)
      else
        let key = block iv;
            k = (nbits + 7) div 8;
            out = map (\<lambda>n. src ! n XOR key ! n) [0..<k];
            ovec = iv @ (if enc then out else take k src) @ replicate (17 - k) 0;
            rem = nbits mod 8;
            num = nbits div 8 in
        (out,
         if rem = 0 then take 16 (drop num ovec)
         else map (\<lambda>n. push_bit rem (ovec ! (n + num)) OR drop_bit (8 - rem) (ovec ! (n + num + 1))) [0..<16]))"

text \<open>Bit by bit, most significant first, into the bytes \<open>dst\<close> of the output.\<close>

fun cfb1_loop :: "block_fn \<Rightarrow> bool \<Rightarrow> nat \<Rightarrow> nat \<Rightarrow> u8 list \<Rightarrow> u8 list \<Rightarrow> u8 list \<Rightarrow> u8 list \<times> u8 list" where
  "cfb1_loop block enc 0 n iv src dst = (dst, iv)"
| "cfb1_loop block enc (Suc k) n iv src dst =
     (let c = [if src ! (n div 8) AND push_bit (7 - n mod 8) 1 \<noteq> 0 then 0x80 else 0];
          (d, iv) = cfbr_encrypt_block block enc 1 iv c;
          dst = dst[n div 8 := (dst ! (n div 8) AND NOT (push_bit (7 - n mod 8) 1)) OR
            drop_bit (n mod 8) (d ! 0 AND 0x80)] in
      cfb1_loop block enc k (Suc n) iv src dst)"

definition CRYPTO_cfb128_1_encrypt :: "block_fn \<Rightarrow> bool \<Rightarrow> u8 list \<Rightarrow> u8 list \<Rightarrow> nat \<Rightarrow> u8 list \<Rightarrow> u8 list \<times> u8 list" where
  "CRYPTO_cfb128_1_encrypt block enc iv src bits dst = cfb1_loop block enc bits 0 iv src dst"

fun CRYPTO_cfb128_8_encrypt :: "block_fn \<Rightarrow> bool \<Rightarrow> u8 list \<Rightarrow> u8 list \<Rightarrow> u8 list \<times> u8 list" where
  "CRYPTO_cfb128_8_encrypt block enc iv [] = ([], iv)"
| "CRYPTO_cfb128_8_encrypt block enc iv (b # src) =
     (let (o1, iv) = cfbr_encrypt_block block enc 8 iv [b];
          (out, iv) = CRYPTO_cfb128_8_encrypt block enc iv src in
      (o1 @ out, iv))"

end
