(* ===== verification/Stream_Modes.thy ===== *)
theory Stream_Modes
  imports Block_Modes
begin

text \<open>
  The modes of \<open>Block_Modes\<close> as stream ciphers: the word loops do what the byte loops do; a byte loop
  may be cut anywhere; decryption gives back what encryption was given, however both are cut; counter
  mode is the exclusive or with the encrypted counters, and its 32-bit variant is no different.
\<close>

section \<open>The interface of a stream cipher\<close>

text \<open>A client hands over the data in pieces.\<close>

fun feed :: "('s \<Rightarrow> u8 list \<Rightarrow> u8 list \<times> 's) \<Rightarrow> 's \<Rightarrow> u8 list list \<Rightarrow> u8 list \<times> 's" where
  "feed crypt s [] = ([], s)"
| "feed crypt s (src # pieces) =
     (let (out, s) = crypt s src; (rest, s) = feed crypt s pieces in (out @ rest, s))"

locale stream_mode =
  fixes crypt :: "'s \<Rightarrow> u8 list \<Rightarrow> u8 list \<times> 's"
    and ok :: "'s \<Rightarrow> bool"
  assumes crypt_Nil: "ok s \<Longrightarrow> crypt s [] = ([], s)"
    and crypt_append: "ok s \<Longrightarrow> crypt s (a @ b) =
      (let (out, s) = crypt s a; (rest, s) = crypt s b in (out @ rest, s))"
    and crypt_ok: "ok s \<Longrightarrow> crypt s a = (out, s') \<Longrightarrow> ok s' \<and> length out = length a"
begin

lemma feed_concat: "ok s \<Longrightarrow> feed crypt s pieces = crypt s (concat pieces)"
proof (induction pieces arbitrary: s)
  case (Cons src pieces)
  obtain out s' where c: "crypt s src = (out, s')" by fastforce
  show ?case
    using Cons.IH [of s'] crypt_ok [OF Cons.prems c] by (simp add: crypt_append [OF Cons.prems] c)
qed (simp add: crypt_Nil)

lemma feed_ok: "ok s \<Longrightarrow> feed crypt s pieces = (out, s') \<Longrightarrow> ok s' \<and> length out = length (concat pieces)"
  using crypt_ok by (simp add: feed_concat)

lemma feed_cut: "ok s \<Longrightarrow> concat pieces = concat cuts \<Longrightarrow> feed crypt s pieces = feed crypt s cuts"
  by (simp add: feed_concat)

end

text \<open>A pair of directions over the same state.\<close>

locale stream_cipher = enc: stream_mode encr ok + dec: stream_mode decr ok
  for encr :: "'s \<Rightarrow> u8 list \<Rightarrow> u8 list \<times> 's" and decr and ok +
  assumes dec_enc: "ok s \<Longrightarrow> encr s a = (out, s') \<Longrightarrow> decr s out = (a, s')"
begin

lemma feed_roundtrip:
  assumes "ok s" "feed encr s pieces = (out, s')" "concat cuts = out"
  shows "feed decr s cuts = (concat pieces, s')"
  using assms dec_enc [OF assms(1), of "concat pieces" out s'] by (simp add: enc.feed_concat dec.feed_concat)

end

section \<open>Words and exclusive or\<close>

lemma le_bytes_xor: "le_bytes n (v XOR w) = map2 (XOR) (le_bytes n v) (le_bytes n w)"
proof (induction n arbitrary: v w)
  case (Suc n)
  have "(ucast (v XOR w) :: u8) = ucast v XOR ucast w" by (rule bit_word_eqI) (simp add: bit_simps)
  then show ?case by (simp add: Suc.IH drop_bit_xor)
qed simp

lemma store_load_word: "n + 8 \<le> length bs \<Longrightarrow> store_word_le (load_word_le bs n) = take 8 (drop n bs)"
  by (simp add: store_word_le_def load_word_le_def le_bytes_le_word)

lemma xor_words_eq:
  assumes "16 \<le> length a" "length b = 16"
  shows "xor_words a b = map2 (XOR) (take 16 a) b"
proof -
  have "xor_words a b = map2 (XOR) (take 8 a) (take 8 b) @ map2 (XOR) (take 8 (drop 8 a)) (take 8 (drop 8 b))"
    using assms store_load_word [of 0 a] store_load_word [of 8 a] store_load_word [of 0 b] store_load_word [of 8 b]
    unfolding xor_words_def by (simp add: store_word_le_def le_bytes_xor)
  also have "\<dots> = map2 (XOR) (take 8 a @ take 8 (drop 8 a)) (take 8 b @ take 8 (drop 8 b))"
    using assms by (subst zip_append) simp_all
  also have "take 8 a @ take 8 (drop 8 a) = take 16 a" using take_add [of 8 8 a] by simp
  also have "take 8 b @ take 8 (drop 8 b) = b" using take_add [of 8 8 b] assms by simp
  finally show ?thesis .
qed

lemma copy_words_eq: "16 \<le> length a \<Longrightarrow> concat (map (\<lambda>n. store_word_le (load_word_le a n)) [0, 8]) = take 16 a"
  using store_load_word [of 0 a] store_load_word [of 8 a] take_add [of 8 8 a] by simp

lemma xor_from_eq: "n + length src \<le> length k \<Longrightarrow> xor_from k n src = map2 (XOR) src (drop n k)"
proof (induction k n src rule: xor_from.induct)
  case (2 k n b src)
  then have "drop n k = k ! n # drop (Suc n) k" by (simp add: Cons_nth_drop_Suc)
  then show ?case using 2 by simp
qed simp

lemma xor_words_from: "16 \<le> length src \<Longrightarrow> length k = 16 \<Longrightarrow> xor_words src k = xor_from k 0 (take 16 src)"
  by (simp add: xor_words_eq xor_from_eq)

section \<open>Counter mode\<close>

definition block_ok :: "block_fn \<Rightarrow> bool" where
  "block_ok block \<longleftrightarrow> (\<forall>x. length x = 16 \<longrightarrow> length (block x) = 16)"

definition ctr_ok :: "block_fn \<Rightarrow> ctr_state \<Rightarrow> bool" where
  "ctr_ok block st \<longleftrightarrow> block_ok block \<and> length (ivec st) = 16 \<and> length (ecount_buf st) = 16 \<and> num st < 16"

lemma length_ctr_inc_loop: "length (ctr_inc_loop n c counter) = length counter"
  by (induction n c counter rule: ctr_inc_loop.induct) (simp_all add: Let_def)

lemma length_ctr128_inc [simp]: "length (ctr128_inc counter) = length counter"
  by (simp add: ctr128_inc_def length_ctr_inc_loop)

definition prepend :: "u8 list \<Rightarrow> u8 list \<times> 's \<Rightarrow> u8 list \<times> 's" where
  "prepend out r = (out @ fst r, snd r)"

lemma prepend_simps [simp]: "prepend [] r = r" "prepend out (out', s) = (out @ out', s)"
  "prepend a (prepend b r) = prepend (a @ b) r"
  by (simp_all add: prepend_def)

lemma ctr_bytes_append: "ctr_bytes block st (a @ b) = (let (out, st) = ctr_bytes block st a in prepend out (ctr_bytes block st b))"
  by (induction block st a rule: ctr_bytes.induct) (simp_all add: Let_def prepend_def split: prod.split)

lemma ctr_bytes_ok:
  "ctr_ok block st \<Longrightarrow> ctr_bytes block st src = (out, st') \<Longrightarrow> ctr_ok block st' \<and> length out = length src"
proof (induction block st src arbitrary: out st' rule: ctr_bytes.induct)
  case (2 block st b src)
  define st1 where "st1 = (if num st = 0 then st\<lparr>ecount_buf := block (ivec st), ivec := ctr128_inc (ivec st)\<rparr> else st)"
  define st2 where "st2 = st1\<lparr>num := (num st1 + 1) mod 16\<rparr>"
  have "ctr_ok block st2" using 2(2) by (simp add: st1_def st2_def ctr_ok_def block_ok_def)
  moreover obtain o' s where r: "ctr_bytes block st2 src = (o', s)" by fastforce
  moreover have "st' = s" "length out = Suc (length o')"
    using 2(3) r unfolding ctr_bytes.simps Let_def st1_def [symmetric] st2_def [symmetric] by auto
  ultimately show ?case using 2(1) [OF st1_def] by (fastforce simp: st2_def)
qed simp

lemma ctr_head_bytes:
  "num st < 16 \<Longrightarrow> ctr_head (ecount_buf st) (num st) src = (out, n, left) \<Longrightarrow>
    ctr_bytes block st src = prepend out (ctr_bytes block (st\<lparr>num := n\<rparr>) left) \<and> (left \<noteq> [] \<longrightarrow> n = 0) \<and> n < 16"
proof (induction src arbitrary: st out n left)
  case (Cons b src)
  show ?case
  proof (cases "num st = 0")
    case False
    obtain o' where h: "ctr_head (ecount_buf st) ((num st + 1) mod 16) src = (o', n, left)"
      "out = (b XOR ecount_buf st ! num st) # o'"
      using Cons.prems(2) False by (auto split: prod.splits)
    show ?thesis
      using Cons.IH [of "st\<lparr>num := (num st + 1) mod 16\<rparr>" o' n left] h False
      by (simp add: prepend_def split: prod.split)
  next
    case True
    then have "st\<lparr>num := 0\<rparr> = st" by (cases st) simp
    then show ?thesis using True Cons.prems by auto
  qed
qed auto

lemma ctr_from_bytes:
  "0 < n \<Longrightarrow> n + length src \<le> 16 \<Longrightarrow> num st = n mod 16 \<Longrightarrow>
    ctr_bytes block st src = (xor_from (ecount_buf st) n src, st\<lparr>num := (n + length src) mod 16\<rparr>)"
proof (induction src arbitrary: n st)
  case (Cons b src)
  then show ?case using Cons.IH [of "Suc n" "st\<lparr>num := (num st + 1) mod 16\<rparr>"] by (simp add: Let_def)
qed simp

lemma ctr_block_bytes:
  "num st = 0 \<Longrightarrow> src \<noteq> [] \<Longrightarrow> length src \<le> 16 \<Longrightarrow>
    ctr_bytes block st src = (xor_from (block (ivec st)) 0 src,
      st\<lparr>ecount_buf := block (ivec st), ivec := ctr128_inc (ivec st), num := length src mod 16\<rparr>)"
  using ctr_from_bytes [of 1 "tl src" "st\<lparr>ecount_buf := block (ivec st), ivec := ctr128_inc (ivec st), num := 1\<rparr>" block]
  by (cases src) (simp_all add: Let_def)

lemma ctr_blocks_bytes:
  "ctr_ok block st \<Longrightarrow> num st = 0 \<Longrightarrow> ctr_blocks block src st = (out, left, st') \<Longrightarrow>
    ctr_bytes block st src = prepend out (ctr_bytes block st' left) \<and> num st' = 0 \<and> length left < 16"
proof (induction block src st arbitrary: out left st' rule: ctr_blocks.induct)
  case (1 block src st)
  show ?case
  proof (cases "length src < 16")
    case False
    define st1 where "st1 = st\<lparr>ecount_buf := block (ivec st), ivec := ctr128_inc (ivec st), num := 0\<rparr>"
    have key: "length (block (ivec st)) = 16" using "1.prems"(1) by (simp add: block_ok_def ctr_ok_def)
    obtain o' where r: "ctr_blocks block (drop 16 src) st1 = (o', left, st')" "out = xor_words src (block (ivec st)) @ o'"
      using "1.prems"(3) False by (subst (asm) ctr_blocks.simps) (auto simp: st1_def Let_def split: prod.splits)
    have "ctr_ok block st1" "num st1 = 0" using "1.prems"(1) key by (simp_all add: st1_def ctr_ok_def)
    then have ih: "ctr_bytes block st1 (drop 16 src) = prepend o' (ctr_bytes block st' left)" "num st' = 0" "length left < 16"
      using "1.IH" [OF False refl refl] r(1) by (auto simp: st1_def)
    have "ctr_bytes block st (take 16 src @ drop 16 src) =
        prepend (xor_words src (block (ivec st))) (ctr_bytes block st1 (drop 16 src))"
      unfolding ctr_bytes_append
      using False "1.prems"(2) key ctr_block_bytes [of st "take 16 src" block]
      by (cases "src = []") (auto simp: xor_words_from st1_def)
    then show ?thesis using ih r(2) by simp
  qed (use "1.prems" in \<open>simp add: ctr_blocks.simps [of block src]\<close>)
qed

lemma ctr_eq_bytes:
  assumes "ctr_ok block st"
  shows "CRYPTO_ctr128_encrypt block st src = ctr_bytes block st src"
proof -
  obtain out1 n left where h: "ctr_head (ecount_buf st) (num st) src = (out1, n, left)" by (metis prod_cases3)
  have hb: "ctr_bytes block st src = prepend out1 (ctr_bytes block (st\<lparr>num := n\<rparr>) left)" "left \<noteq> [] \<longrightarrow> n = 0" "n < 16"
    using ctr_head_bytes [OF _ h, of block] assms by (auto simp: ctr_ok_def)
  obtain out2 left' st' where b: "ctr_blocks block left (st\<lparr>num := n\<rparr>) = (out2, left', st')" by (metis prod_cases3)
  show ?thesis
  proof (cases "left = []")
    case True
    then show ?thesis using h b hb by (simp add: CRYPTO_ctr128_encrypt_def ctr_blocks.simps [of block "[]"])
  next
    case False
    then have "ctr_bytes block (st\<lparr>num := n\<rparr>) left = prepend out2 (ctr_bytes block st' left')" "num st' = 0" "length left' < 16"
      using ctr_blocks_bytes [OF _ _ b] assms hb by (auto simp: ctr_ok_def)
    then show ?thesis
      using h b hb(1) ctr_block_bytes [of st' left' block]
      by (cases "left' = []") (auto simp: CRYPTO_ctr128_encrypt_def Let_def)
  qed
qed

lemma ctr_bytes_invol:
  "ctr_bytes block st src = (out, st') \<Longrightarrow> ctr_bytes block st out = (src, st')"
proof (induction block st src arbitrary: out st' rule: ctr_bytes.induct)
  case (2 block st b src)
  define st1 where "st1 = (if num st = 0 then st\<lparr>ecount_buf := block (ivec st), ivec := ctr128_inc (ivec st)\<rparr> else st)"
  define st2 where "st2 = st1\<lparr>num := (num st1 + 1) mod 16\<rparr>"
  note run = ctr_bytes.simps(2) [of block st, unfolded Let_def, folded st1_def, folded st2_def]
  obtain o' s where r: "ctr_bytes block st2 src = (o', s)" by fastforce
  have o: "out = (b XOR ecount_buf st1 ! num st1) # o'" "st' = s" using 2(2) r unfolding run by simp_all
  have "ctr_bytes block st2 o' = (src, s)" using 2(1) [OF st1_def, of o' s] r by (simp add: st2_def)
  then show ?case unfolding o run by (simp add: xor.assoc)
qed simp

text \<open>Counter mode decrypts by encrypting.\<close>

interpretation ctr: stream_cipher "CRYPTO_ctr128_encrypt block" "CRYPTO_ctr128_encrypt block" "ctr_ok block" for block
proof
  show "CRYPTO_ctr128_encrypt block s [] = ([], s)" if "ctr_ok block s" for s
    using that by (simp add: ctr_eq_bytes)
  show "CRYPTO_ctr128_encrypt block s (a @ b) =
      (let (out, s) = CRYPTO_ctr128_encrypt block s a; (rest, s) = CRYPTO_ctr128_encrypt block s b in (out @ rest, s))"
    if "ctr_ok block s" for s a b
    using that ctr_bytes_ok [OF that, of a]
    by (auto simp: ctr_eq_bytes ctr_bytes_append prepend_def split: prod.split)
  show "ctr_ok block s' \<and> length out = length a" if "ctr_ok block s" "CRYPTO_ctr128_encrypt block s a = (out, s')" for s a out s'
    using that ctr_bytes_ok [of block s a out s'] by (simp add: ctr_eq_bytes)
  show "CRYPTO_ctr128_encrypt block s out = (a, s')" if "ctr_ok block s" "CRYPTO_ctr128_encrypt block s a = (out, s')" for s a out s'
    using that ctr_bytes_invol [of block s a out s'] by (simp add: ctr_eq_bytes)
qed

section \<open>Byte loops\<close>

fun byte_loop :: "('s \<Rightarrow> u8 \<Rightarrow> u8 \<times> 's) \<Rightarrow> 's \<Rightarrow> u8 list \<Rightarrow> u8 list \<times> 's" where
  "byte_loop step s [] = ([], s)"
| "byte_loop step s (b # src) = (let (c, s) = step s b in prepend [c] (byte_loop step s src))"

lemma byte_loop_append: "byte_loop step s (a @ b) = (let (out, s) = byte_loop step s a in prepend out (byte_loop step s b))"
  by (induction step s a rule: byte_loop.induct) (auto simp: Let_def prepend_def split: prod.split)

lemma byte_loop_ok:
  assumes step: "\<And>s b. ok s \<Longrightarrow> ok (snd (step s b))"
  shows "ok s \<Longrightarrow> byte_loop step s src = (out, s') \<Longrightarrow> ok s' \<and> length out = length src"
proof (induction src arbitrary: s out)
  case (Cons b src)
  obtain c s1 where 1: "step s b = (c, s1)" by fastforce
  obtain o' s2 where 2: "byte_loop step s1 src = (o', s2)" by fastforce
  show ?case using Cons.IH [of s1 o'] step [of s b] Cons.prems 1 2 by auto
qed simp

lemma byte_loop_inverse:
  assumes step: "\<And>s b. unstep s (fst (step s b)) = (b, snd (step s b))"
  shows "byte_loop step s src = (out, s') \<Longrightarrow> byte_loop unstep s out = (src, s')"
proof (induction src arbitrary: s out)
  case (Cons b src)
  obtain c s1 where 1: "step s b = (c, s1)" by fastforce
  obtain o' s2 where 2: "byte_loop step s1 src = (o', s2)" by fastforce
  show ?case using Cons.IH [of s1 o'] step [of s b] Cons.prems 1 2 by auto
qed simp

lemma byte_loop_mode:
  assumes "\<And>s src. ok s \<Longrightarrow> crypt s src = byte_loop step s src" "\<And>s b. ok s \<Longrightarrow> ok (snd (step s b))"
  shows "stream_mode crypt ok"
proof
  show "crypt s [] = ([], s)" if "ok s" for s using that by (simp add: assms(1))
  show "crypt s (a @ b) = (let (out, s) = crypt s a; (rest, s) = crypt s b in (out @ rest, s))" if "ok s" for s a b
    using that byte_loop_ok [of ok step s a, OF assms(2)] by (auto simp: assms(1) byte_loop_append prepend_def split: prod.split)
  show "ok s' \<and> length out = length a" if "ok s" "crypt s a = (out, s')" for s a out s'
    using that byte_loop_ok [of ok step s a, OF assms(2)] by (simp add: assms(1))
qed

lemma byte_loop_cipher:
  assumes "\<And>s src. ok s \<Longrightarrow> encr s src = byte_loop step s src" "\<And>s b. ok s \<Longrightarrow> ok (snd (step s b))"
    and "\<And>s src. ok s \<Longrightarrow> decr s src = byte_loop unstep s src" "\<And>s b. ok s \<Longrightarrow> ok (snd (unstep s b))"
    and "\<And>s b. unstep s (fst (step s b)) = (b, snd (step s b))"
  shows "stream_cipher encr decr ok"
proof (intro stream_cipher.intro stream_cipher_axioms.intro)
  show "stream_mode encr ok" by (rule byte_loop_mode) (fact assms)+
  show "stream_mode decr ok" by (rule byte_loop_mode) (fact assms)+
  show "decr s out = (a, s')" if "ok s" "encr s a = (out, s')" for s a out s'
    using that byte_loop_inverse [of unstep step s a out s', OF assms(5)] by (simp add: assms(1,3))
qed

section \<open>Output feedback\<close>

definition ofb_ok :: "block_fn \<Rightarrow> ofb_state \<Rightarrow> bool" where
  "ofb_ok block st \<longleftrightarrow> block_ok block \<and> length (ofb_ivec st) = 16 \<and> ofb_num st < 16"

text \<open>The mode one byte at a time.\<close>

definition ofb_step :: "block_fn \<Rightarrow> ofb_state \<Rightarrow> u8 \<Rightarrow> u8 \<times> ofb_state" where
  "ofb_step block st b =
     (let iv = (if ofb_num st = 0 then block (ofb_ivec st) else ofb_ivec st) in
      (b XOR iv ! ofb_num st, \<lparr>ofb_ivec = iv, ofb_num = (ofb_num st + 1) mod 16\<rparr>))"

lemma ofb_step_ok: "ofb_ok block st \<Longrightarrow> ofb_ok block (snd (ofb_step block st b))"
  by (simp add: ofb_ok_def block_ok_def ofb_step_def Let_def)

lemma ofb_step_invol: "ofb_step block st (fst (ofb_step block st b)) = (b, snd (ofb_step block st b))"
  by (simp add: ofb_step_def Let_def xor.assoc)

lemma ofb_head_bytes:
  "ctr_head iv n src = (out, n', left) \<Longrightarrow> n < 16 \<Longrightarrow>
    byte_loop (ofb_step block) \<lparr>ofb_ivec = iv, ofb_num = n\<rparr> src =
      prepend out (byte_loop (ofb_step block) \<lparr>ofb_ivec = iv, ofb_num = n'\<rparr> left) \<and> (left \<noteq> [] \<longrightarrow> n' = 0) \<and> n' < 16"
proof (induction iv n src arbitrary: out rule: ctr_head.induct)
  case (2 iv n b src)
  then show ?case
    by (cases "n = 0") (auto simp: ofb_step_def Let_def split: prod.splits)
qed auto

lemma ofb_from_bytes:
  "0 < n \<Longrightarrow> n + length src \<le> 16 \<Longrightarrow>
    byte_loop (ofb_step block) \<lparr>ofb_ivec = iv, ofb_num = n mod 16\<rparr> src =
      (xor_from iv n src, \<lparr>ofb_ivec = iv, ofb_num = (n + length src) mod 16\<rparr>)"
proof (induction src arbitrary: n)
  case (Cons b src)
  then show ?case using Cons.IH [of "Suc n"] by (simp add: ofb_step_def Let_def)
qed simp

lemma ofb_block_bytes:
  "src \<noteq> [] \<Longrightarrow> length src \<le> 16 \<Longrightarrow>
    byte_loop (ofb_step block) \<lparr>ofb_ivec = iv, ofb_num = 0\<rparr> src =
      (xor_from (block iv) 0 src, \<lparr>ofb_ivec = block iv, ofb_num = length src mod 16\<rparr>)"
  using ofb_from_bytes [of 1 "tl src" block "block iv"] by (cases src) (simp_all add: ofb_step_def Let_def)

lemma ofb_blocks_bytes:
  "ofb_ok block st \<Longrightarrow> ofb_num st = 0 \<Longrightarrow> ofb_blocks block src st = (out, left, st') \<Longrightarrow>
    byte_loop (ofb_step block) st src = prepend out (byte_loop (ofb_step block) st' left) \<and>
    ofb_num st' = 0 \<and> length left < 16"
proof (induction block src st arbitrary: out left st' rule: ofb_blocks.induct)
  case (1 block src st)
  show ?case
  proof (cases "length src < 16")
    case False
    define st1 where "st1 = st\<lparr>ofb_ivec := block (ofb_ivec st), ofb_num := 0\<rparr>"
    have st1: "length (block (ofb_ivec st)) = 16" "ofb_ok block st1" "ofb_num st1 = 0"
      using "1.prems"(1) by (simp_all add: st1_def ofb_ok_def block_ok_def)
    obtain o' where r: "ofb_blocks block (drop 16 src) st1 = (o', left, st')" "out = xor_words src (block (ofb_ivec st)) @ o'"
      using "1.prems"(3) False by (subst (asm) ofb_blocks.simps) (auto simp: st1_def Let_def split: prod.splits)
    have "byte_loop (ofb_step block) st (take 16 src) = (xor_words src (block (ofb_ivec st)), st1)"
      using ofb_block_bytes [of "take 16 src" block "ofb_ivec st"] False "1.prems"(2) st1(1)
      by (cases st; cases "src = []") (auto simp: xor_words_from st1_def)
    then have "byte_loop (ofb_step block) st (take 16 src @ drop 16 src) =
        prepend (xor_words src (block (ofb_ivec st))) (byte_loop (ofb_step block) st1 (drop 16 src))"
      unfolding byte_loop_append by simp
    then show ?thesis using "1.IH" [OF False refl] st1 r by (simp add: st1_def)
  qed (use "1.prems" in \<open>simp add: ofb_blocks.simps [of block src]\<close>)
qed

lemma ofb_eq_bytes:
  assumes "ofb_ok block st"
  shows "CRYPTO_ofb128_encrypt block st src = byte_loop (ofb_step block) st src"
proof -
  obtain out1 n left where h: "ctr_head (ofb_ivec st) (ofb_num st) src = (out1, n, left)" by (metis prod_cases3)
  have hb: "byte_loop (ofb_step block) st src = prepend out1 (byte_loop (ofb_step block) (st\<lparr>ofb_num := n\<rparr>) left)"
    "left \<noteq> [] \<longrightarrow> n = 0" "n < 16"
    using ofb_head_bytes [OF h, of block] assms by (cases st; auto simp: ofb_ok_def)+
  obtain out2 left' st' where b: "ofb_blocks block left (st\<lparr>ofb_num := n\<rparr>) = (out2, left', st')" by (metis prod_cases3)
  show ?thesis
  proof (cases "left = []")
    case True
    then show ?thesis using h b hb by (simp add: CRYPTO_ofb128_encrypt_def ofb_blocks.simps [of block "[]"])
  next
    case False
    then have "byte_loop (ofb_step block) (st\<lparr>ofb_num := n\<rparr>) left = prepend out2 (byte_loop (ofb_step block) st' left')"
        "ofb_num st' = 0" "length left' < 16"
      using ofb_blocks_bytes [OF _ _ b] assms hb by (auto simp: ofb_ok_def)
    then show ?thesis
      using h b hb(1) ofb_block_bytes [of left' block "ofb_ivec st'"]
      by (cases st'; cases "left' = []") (auto simp: CRYPTO_ofb128_encrypt_def Let_def)
  qed
qed

interpretation ofb: stream_cipher "CRYPTO_ofb128_encrypt block" "CRYPTO_ofb128_encrypt block" "ofb_ok block" for block
  by (rule byte_loop_cipher [where step = "ofb_step block" and unstep = "ofb_step block"])
    (fact ofb_eq_bytes ofb_step_ok ofb_step_invol)+

section \<open>Cipher feedback\<close>

definition cfb_ok :: "block_fn \<Rightarrow> cfb_state \<Rightarrow> bool" where
  "cfb_ok block st \<longleftrightarrow> block_ok block \<and> length (cfb_ivec st) = 16 \<and> cfb_num st < 16"

text \<open>The byte loops of the code, as steps.\<close>

definition cfb_vector :: "block_fn \<Rightarrow> cfb_state \<Rightarrow> u8 list" where
  "cfb_vector block st = (if cfb_num st = 0 then block (cfb_ivec st) else cfb_ivec st)"

definition cfb_enc_step :: "block_fn \<Rightarrow> cfb_state \<Rightarrow> u8 \<Rightarrow> u8 \<times> cfb_state" where
  "cfb_enc_step block st b =
     (let iv = cfb_vector block st; n = cfb_num st; c = iv ! n XOR b in
      (c, \<lparr>cfb_ivec = iv[n := c], cfb_num = (n + 1) mod 16\<rparr>))"

definition cfb_dec_step :: "block_fn \<Rightarrow> cfb_state \<Rightarrow> u8 \<Rightarrow> u8 \<times> cfb_state" where
  "cfb_dec_step block st c =
     (let iv = cfb_vector block st; n = cfb_num st in
      (iv ! n XOR c, \<lparr>cfb_ivec = iv[n := c], cfb_num = (n + 1) mod 16\<rparr>))"

lemma cfb_bytes_eq:
  "cfb_enc_bytes block st src = byte_loop (cfb_enc_step block) st src"
  "cfb_dec_bytes block st src = byte_loop (cfb_dec_step block) st src"
  by (induction src arbitrary: st)
    (auto simp: cfb_enc_step_def cfb_dec_step_def cfb_vector_def Let_def split: prod.split)

lemma length_cfb_vector: "cfb_ok block st \<Longrightarrow> length (cfb_vector block st) = 16"
  by (simp add: cfb_ok_def cfb_vector_def block_ok_def)

lemma cfb_step_ok:
  assumes "cfb_ok block st"
  shows "cfb_ok block (snd (cfb_enc_step block st b))" "cfb_ok block (snd (cfb_dec_step block st b))"
  using length_cfb_vector [OF assms] assms by (simp_all add: cfb_ok_def cfb_enc_step_def cfb_dec_step_def Let_def)

lemma cfb_step_inverse: "cfb_dec_step block st (fst (cfb_enc_step block st b)) = (b, snd (cfb_enc_step block st b))"
  by (simp add: cfb_enc_step_def cfb_dec_step_def Let_def flip: xor.assoc)

text \<open>The rest of a block.\<close>

lemma cfb_enc_head_bytes:
  "cfb_enc_head st src = (out, left, st') \<Longrightarrow> cfb_ok block st \<Longrightarrow>
    byte_loop (cfb_enc_step block) st src = prepend out (byte_loop (cfb_enc_step block) st' left) \<and>
    (left \<noteq> [] \<longrightarrow> cfb_num st' = 0) \<and> cfb_ok block st'"
proof (induction st src arbitrary: out rule: cfb_enc_head.induct)
  case (2 st b src)
  then show ?case
    using cfb_step_ok(1) [OF "2.prems"(2), of b]
    by (cases "cfb_num st = 0") (auto simp: cfb_enc_step_def cfb_vector_def Let_def split: prod.splits)
qed auto

lemma cfb_dec_head_bytes:
  "cfb_dec_head st src = (out, left, st') \<Longrightarrow> cfb_ok block st \<Longrightarrow>
    byte_loop (cfb_dec_step block) st src = prepend out (byte_loop (cfb_dec_step block) st' left) \<and>
    (left \<noteq> [] \<longrightarrow> cfb_num st' = 0) \<and> cfb_ok block st'"
proof (induction st src arbitrary: out rule: cfb_dec_head.induct)
  case (2 st b src)
  then show ?case
    using cfb_step_ok(2) [OF "2.prems"(2), of b]
    by (cases "cfb_num st = 0") (auto simp: cfb_dec_step_def cfb_vector_def Let_def split: prod.splits)
qed auto

text \<open>A block, or the beginning of one.\<close>

lemma cfb_tail_bytes:
  assumes "0 < n" "n + length src \<le> 16"
  shows "byte_loop (cfb_enc_step block) \<lparr>cfb_ivec = iv, cfb_num = n mod 16\<rparr> src =
      (let (out, iv) = cfb_enc_tail iv n src in (out, \<lparr>cfb_ivec = iv, cfb_num = (n + length src) mod 16\<rparr>))"
    and "byte_loop (cfb_dec_step block) \<lparr>cfb_ivec = iv, cfb_num = n mod 16\<rparr> src =
      (let (out, iv) = cfb_dec_tail iv n src in (out, \<lparr>cfb_ivec = iv, cfb_num = (n + length src) mod 16\<rparr>))"
  using assms
proof (induction src arbitrary: n iv)
  case (Cons b src)
  {
    case 1
    then show ?case
      using Cons.IH(1) [of "Suc n"] by (auto simp: cfb_enc_step_def cfb_vector_def Let_def split: prod.splits)
  next
    case 2
    then show ?case
      using Cons.IH(2) [of "Suc n"] by (auto simp: cfb_dec_step_def cfb_vector_def Let_def split: prod.splits)
  }
qed simp_all

lemma cfb_block_bytes:
  assumes "src \<noteq> []" "length src \<le> 16"
  shows "byte_loop (cfb_enc_step block) \<lparr>cfb_ivec = iv, cfb_num = 0\<rparr> src =
      (let (out, iv) = cfb_enc_tail (block iv) 0 src in (out, \<lparr>cfb_ivec = iv, cfb_num = length src mod 16\<rparr>))"
    and "byte_loop (cfb_dec_step block) \<lparr>cfb_ivec = iv, cfb_num = 0\<rparr> src =
      (let (out, iv) = cfb_dec_tail (block iv) 0 src in (out, \<lparr>cfb_ivec = iv, cfb_num = length src mod 16\<rparr>))"
  using assms cfb_tail_bytes [of 1 "tl src" block]
  by (cases src; auto simp: cfb_enc_step_def cfb_dec_step_def cfb_vector_def Let_def split: prod.splits)+

lemma cfb_enc_tail_eq:
  "n + length src \<le> length iv \<Longrightarrow>
    cfb_enc_tail iv n src = (map2 (XOR) (drop n iv) src, take n iv @ map2 (XOR) (drop n iv) src @ drop (n + length src) iv)"
proof (induction iv n src rule: cfb_enc_tail.induct)
  case (2 iv n b src)
  then have d: "drop n iv = iv ! n # drop (Suc n) iv" by (simp add: Cons_nth_drop_Suc)
  then show ?case
    using 2 by (simp add: Let_def upd_conv_take_nth_drop add.commute)
qed simp

lemma cfb_dec_tail_eq:
  "n + length src \<le> length iv \<Longrightarrow>
    cfb_dec_tail iv n src = (map2 (XOR) (drop n iv) src, take n iv @ src @ drop (n + length src) iv)"
proof (induction iv n src rule: cfb_dec_tail.induct)
  case (2 iv n b src)
  then have d: "drop n iv = iv ! n # drop (Suc n) iv" by (simp add: Cons_nth_drop_Suc)
  then show ?case
    using 2 by (simp add: Let_def upd_conv_take_nth_drop add.commute)
qed simp


lemma xor_from_words: "16 \<le> length src \<Longrightarrow> length k = 16 \<Longrightarrow> map2 (XOR) k (take 16 src) = xor_words k src"
  using xor_words_eq [of src k] by (auto simp: xor_words_def xor.commute intro!: nth_equalityI)

lemma cfb_enc_block:
  assumes "cfb_ok block st" "cfb_num st = 0" "16 \<le> length src"
  shows "byte_loop (cfb_enc_step block) st (take 16 src) = (xor_words (block (cfb_ivec st)) src, \<lparr>cfb_ivec = xor_words (block (cfb_ivec st)) src, cfb_num = 0\<rparr>)"
proof -
  have "length (block (cfb_ivec st)) = 16" using assms(1) by (simp add: cfb_ok_def block_ok_def)
  then show ?thesis
    using cfb_block_bytes [of "take 16 src" block "cfb_ivec st"] assms(2,3)
    by (cases st; cases "src = []") (simp_all add: cfb_enc_tail_eq xor_from_words)
qed

lemma cfb_enc_blocks_bytes:
  "cfb_ok block st \<Longrightarrow> cfb_num st = 0 \<Longrightarrow> cfb_enc_blocks block src st = (out, left, st') \<Longrightarrow>
    byte_loop (cfb_enc_step block) st src = prepend out (byte_loop (cfb_enc_step block) st' left) \<and>
    cfb_num st' = 0 \<and> length left < 16"
proof (induction block src st arbitrary: out left st' rule: cfb_enc_blocks.induct)
  case (1 block src st)
  show ?case
  proof (cases "length src < 16")
    case False
    define st1 where "st1 = \<lparr>cfb_ivec = xor_words (block (cfb_ivec st)) src, cfb_num = 0\<rparr>"
    have b: "byte_loop (cfb_enc_step block) st (take 16 src) = (xor_words (block (cfb_ivec st)) src, st1)"
      unfolding st1_def using cfb_enc_block "1.prems"(1,2) False by simp
    have st1: "cfb_ok block st1" "cfb_num st1 = 0"
      using byte_loop_ok [OF cfb_step_ok(1) "1.prems"(1) b] by (simp_all add: st1_def)
    obtain o' where r: "cfb_enc_blocks block (drop 16 src) st1 = (o', left, st')" "out = xor_words (block (cfb_ivec st)) src @ o'"
      using "1.prems"(3) False by (subst (asm) cfb_enc_blocks.simps) (auto simp: st1_def Let_def split: prod.splits)
    have "byte_loop (cfb_enc_step block) st (take 16 src @ drop 16 src) =
        prepend (xor_words (block (cfb_ivec st)) src) (byte_loop (cfb_enc_step block) st1 (drop 16 src))"
      unfolding byte_loop_append b by simp
    then show ?thesis using "1.IH" [OF False refl] st1 r by (simp add: st1_def)
  qed (use "1.prems" in \<open>simp add: cfb_enc_blocks.simps [of block src]\<close>)
qed

lemma cfb_enc_eq_bytes:
  assumes "cfb_ok block st"
  shows "CRYPTO_cfb128_encrypt block True st src = byte_loop (cfb_enc_step block) st src"
proof -
  obtain out1 left st1 where h: "cfb_enc_head st src = (out1, left, st1)" by (metis prod_cases3)
  note hb = cfb_enc_head_bytes [OF h assms]
  obtain out2 left' st2 where b: "cfb_enc_blocks block left st1 = (out2, left', st2)" by (metis prod_cases3)
  show ?thesis
  proof (cases "left = []")
    case True
    then show ?thesis using h b hb by (simp add: CRYPTO_cfb128_encrypt_def cfb_enc_blocks.simps [of block "[]"])
  next
    case False
    then have "byte_loop (cfb_enc_step block) st1 left = prepend out2 (byte_loop (cfb_enc_step block) st2 left')"
        "cfb_num st2 = 0" "length left' < 16"
      using cfb_enc_blocks_bytes [OF _ _ b] hb by auto
    then show ?thesis
      using h b hb cfb_block_bytes(1) [of left' block "cfb_ivec st2"]
      by (cases st2; cases "left' = []") (auto simp: CRYPTO_cfb128_encrypt_def Let_def split: prod.splits)
  qed
qed

lemma cfb_dec_block:
  assumes "cfb_ok block st" "cfb_num st = 0" "16 \<le> length src"
  shows "byte_loop (cfb_dec_step block) st (take 16 src) = (xor_words (block (cfb_ivec st)) src, \<lparr>cfb_ivec = concat (map (\<lambda>n. store_word_le (load_word_le src n)) [0, 8]), cfb_num = 0\<rparr>)"
proof -
  have "length (block (cfb_ivec st)) = 16" using assms(1) by (simp add: cfb_ok_def block_ok_def)
  then show ?thesis
    using cfb_block_bytes [of "take 16 src" block "cfb_ivec st"] copy_words_eq [OF assms(3)] assms(2,3)
    by (cases st; cases "src = []") (simp_all add: cfb_dec_tail_eq xor_from_words)
qed

lemma cfb_dec_blocks_bytes:
  "cfb_ok block st \<Longrightarrow> cfb_num st = 0 \<Longrightarrow> cfb_dec_blocks block src st = (out, left, st') \<Longrightarrow>
    byte_loop (cfb_dec_step block) st src = prepend out (byte_loop (cfb_dec_step block) st' left) \<and>
    cfb_num st' = 0 \<and> length left < 16"
proof (induction block src st arbitrary: out left st' rule: cfb_dec_blocks.induct)
  case (1 block src st)
  show ?case
  proof (cases "length src < 16")
    case False
    define st1 where "st1 = \<lparr>cfb_ivec = concat (map (\<lambda>n. store_word_le (load_word_le src n)) [0, 8]), cfb_num = 0\<rparr>"
    have b: "byte_loop (cfb_dec_step block) st (take 16 src) = (xor_words (block (cfb_ivec st)) src, st1)"
      unfolding st1_def using cfb_dec_block "1.prems"(1,2) False by simp
    have st1: "cfb_ok block st1" "cfb_num st1 = 0"
      using byte_loop_ok [OF cfb_step_ok(2) "1.prems"(1) b] by (simp_all add: st1_def)
    obtain o' where r: "cfb_dec_blocks block (drop 16 src) st1 = (o', left, st')" "out = xor_words (block (cfb_ivec st)) src @ o'"
      using "1.prems"(3) False by (subst (asm) cfb_dec_blocks.simps) (auto simp: st1_def Let_def split: prod.splits)
    have "byte_loop (cfb_dec_step block) st (take 16 src @ drop 16 src) =
        prepend (xor_words (block (cfb_ivec st)) src) (byte_loop (cfb_dec_step block) st1 (drop 16 src))"
      unfolding byte_loop_append b by simp
    then show ?thesis using "1.IH" [OF False refl refl] st1 r by (simp add: st1_def)
  qed (use "1.prems" in \<open>simp add: cfb_dec_blocks.simps [of block src]\<close>)
qed

lemma cfb_dec_eq_bytes:
  assumes "cfb_ok block st"
  shows "CRYPTO_cfb128_encrypt block False st src = byte_loop (cfb_dec_step block) st src"
proof -
  obtain out1 left st1 where h: "cfb_dec_head st src = (out1, left, st1)" by (metis prod_cases3)
  note hb = cfb_dec_head_bytes [OF h assms]
  obtain out2 left' st2 where b: "cfb_dec_blocks block left st1 = (out2, left', st2)" by (metis prod_cases3)
  show ?thesis
  proof (cases "left = []")
    case True
    then show ?thesis using h b hb by (simp add: CRYPTO_cfb128_encrypt_def cfb_dec_blocks.simps [of block "[]"])
  next
    case False
    then have "byte_loop (cfb_dec_step block) st1 left = prepend out2 (byte_loop (cfb_dec_step block) st2 left')"
        "cfb_num st2 = 0" "length left' < 16"
      using cfb_dec_blocks_bytes [OF _ _ b] hb by auto
    then show ?thesis
      using h b hb cfb_block_bytes(2) [of left' block "cfb_ivec st2"]
      by (cases st2; cases "left' = []") (auto simp: CRYPTO_cfb128_encrypt_def Let_def split: prod.splits)
  qed
qed

interpretation cfb: stream_cipher "CRYPTO_cfb128_encrypt block True" "CRYPTO_cfb128_encrypt block False" "cfb_ok block" for block
  by (rule byte_loop_cipher [where step = "cfb_enc_step block" and unstep = "cfb_dec_step block"])
    (fact cfb_enc_eq_bytes cfb_dec_eq_bytes cfb_step_ok cfb_step_inverse)+

section \<open>Cipher feedback of a byte and of a bit\<close>

text \<open>The vector is a shift register: the ciphertext comes in on the right.\<close>

definition cfb8_ok :: "block_fn \<Rightarrow> u8 list \<Rightarrow> bool" where
  "cfb8_ok block iv \<longleftrightarrow> block_ok block \<and> length iv = 16"

definition cfb8_step :: "block_fn \<Rightarrow> bool \<Rightarrow> u8 list \<Rightarrow> u8 \<Rightarrow> u8 \<times> u8 list" where
  "cfb8_step block enc iv b =
     (let c = b XOR block iv ! 0 in (c, drop 1 iv @ [if enc then c else b]))"

lemma cfb8_step_ok: "cfb8_ok block iv \<Longrightarrow> cfb8_ok block (snd (cfb8_step block enc iv b))"
  by (simp add: cfb8_ok_def cfb8_step_def Let_def)

lemma cfb8_step_inverse:
  "cfb8_step block False iv (fst (cfb8_step block True iv b)) = (b, snd (cfb8_step block True iv b))"
  by (simp add: cfb8_step_def Let_def xor.assoc)

lemma cfbr_byte:
  "length iv = 16 \<Longrightarrow> cfbr_encrypt_block block enc 8 iv [b] =
    ([fst (cfb8_step block enc iv b)], snd (cfb8_step block enc iv b))"
  by (auto simp: cfbr_encrypt_block_def cfb8_step_def Let_def)

lemma cfb8_eq_bytes:
  "cfb8_ok block iv \<Longrightarrow> CRYPTO_cfb128_8_encrypt block enc iv src = byte_loop (cfb8_step block enc) iv src"
proof (induction src arbitrary: iv)
  case (Cons b src)
  then show ?case
    using Cons.IH [OF cfb8_step_ok [OF Cons.prems, of enc b]]
    by (auto simp: cfbr_byte cfb8_ok_def prepend_def split: prod.splits)
qed simp

interpretation cfb8: stream_cipher "CRYPTO_cfb128_8_encrypt block True" "CRYPTO_cfb128_8_encrypt block False" "cfb8_ok block"
  for block
  by (rule byte_loop_cipher [where step = "cfb8_step block True" and unstep = "cfb8_step block False"])
    (fact cfb8_eq_bytes cfb8_step_ok cfb8_step_inverse)+

text \<open>Bits are numbered from the most significant of the first byte on; the register shifts one bit.\<close>

definition nth_bit :: "u8 list \<Rightarrow> nat \<Rightarrow> bool" where
  "nth_bit bs n = bit (bs ! (n div 8)) (7 - n mod 8)"

definition shift_in :: "u8 list \<Rightarrow> bool \<Rightarrow> u8 list" where
  "shift_in iv b = map (\<lambda>n. push_bit 1 (iv ! n) OR
     (if n = 15 then of_bool b else drop_bit 7 (iv ! (n + 1)))) [0..<16]"

fun cfb1_bits :: "block_fn \<Rightarrow> bool \<Rightarrow> u8 list \<Rightarrow> bool list \<Rightarrow> bool list \<times> u8 list" where
  "cfb1_bits block enc iv [] = ([], iv)"
| "cfb1_bits block enc iv (b # bs) =
     (let c = (b \<noteq> bit (block iv ! 0) 7);
          (cs, iv) = cfb1_bits block enc (shift_in iv (if enc then c else b)) bs in
      (c # cs, iv))"

lemma cfb1_bits_inverse:
  "cfb1_bits block True iv bs = (cs, iv') \<Longrightarrow> cfb1_bits block False iv cs = (bs, iv')"
  by (induction bs arbitrary: iv cs) (auto simp: Let_def split: prod.splits)

lemma drop_bit_7: "drop_bit 7 (w :: u8) = of_bool (bit w 7)"
  by (rule bit_word_eqI) (use bit_imp_le_length [of w] in \<open>fastforce simp: bit_simps\<close>)

lemma cfbr_bit:
  assumes "length iv = 16" "length (block iv) = 16"
  shows "cfbr_encrypt_block block enc 1 iv [if b then 0x80 else 0] =
    ([(if b then 0x80 else 0) XOR block iv ! 0],
     shift_in iv (if enc then b \<noteq> bit (block iv ! 0) 7 else b))"
proof -
  define c :: u8 where "c = (if b then 0x80 else 0)"
  have c: "bit c 7 = b" by (simp add: c_def bit_0x80)
  define o1 where "o1 = (if enc then c XOR block iv ! 0 else c)"
  have o1: "bit o1 7 = (if enc then b \<noteq> bit (block iv ! 0) 7 else b)" using c by (simp add: o1_def bit_xor_iff)
  have "map (\<lambda>n. push_bit 1 ((iv @ [o1] @ replicate 16 0) ! n) OR drop_bit 7 ((iv @ [o1] @ replicate 16 0) ! (n + 1))) [0..<16] =
      shift_in iv (bit o1 7)"
    unfolding shift_in_def using assms(1) by (intro map_cong) (auto simp: nth_append drop_bit_7)
  then show ?thesis
    unfolding c_def [symmetric] cfbr_encrypt_block_def o1 [symmetric]
    using assms by (simp add: Let_def o1_def split: if_splits)
qed


lemma length_shift_in [simp]: "length (shift_in iv b) = 16"
  by (simp add: shift_in_def)

lemma nth_bit_test: "src ! (n div 8) AND push_bit (7 - n mod 8) 1 \<noteq> 0 \<longleftrightarrow> nth_bit src n"
  by (simp add: nth_bit_def push_bit_of_1 and_exp_eq_0_iff_not_bit)

text \<open>One bit is set, the others stay.\<close>

definition put_bit :: "u8 list \<Rightarrow> nat \<Rightarrow> u8 \<Rightarrow> u8 list" where
  "put_bit dst n d = dst[n div 8 := (dst ! (n div 8) AND NOT (push_bit (7 - n mod 8) 1)) OR drop_bit (n mod 8) (d AND 0x80)]"

lemma length_put_bit [simp]: "length (put_bit dst n d) = length dst"
  by (simp add: put_bit_def)

lemma bit_put:
  fixes x d :: u8
  assumes "q < 8" "m < 8"
  shows "bit ((x AND NOT (push_bit (7 - q) 1)) OR drop_bit q (d AND 0x80)) m = (if m = 7 - q then bit d 7 else bit x m)"
proof -
  have "q + m = 7 \<longleftrightarrow> m = 7 - q" using assms(1) by linarith
  then show ?thesis using assms by (auto simp: bit_simps bit_0x80_int)
qed

lemma nth_bit_put:
  assumes "n < 8 * length dst"
  shows "nth_bit (put_bit dst n d) i = (if i = n then bit d 7 else nth_bit dst i)"
proof -
  have n: "n div 8 < length dst" using assms by (simp add: less_mult_imp_div_less mult.commute)
  show ?thesis
  proof (cases "i div 8 = n div 8")
    case True
    then have "i = n \<longleftrightarrow> i mod 8 = n mod 8" by (metis div_mult_mod_eq)
    also have "\<dots> \<longleftrightarrow> 7 - i mod 8 = 7 - n mod 8"
      using mod_less_divisor [of 8 i] mod_less_divisor [of 8 n] by linarith
    finally show ?thesis using n True unfolding nth_bit_def put_bit_def by (simp only: nth_list_update_eq) (subst bit_put; simp)
  next
    case False
    then show ?thesis by (auto simp: nth_bit_def put_bit_def)
  qed
qed

lemma cfb1_bits_Cons:
  "cfb1_bits block enc (shift_in iv (if enc then b \<noteq> bit (block iv ! 0) 7 else b)) bs = (cs, iv') \<Longrightarrow>
    cfb1_bits block enc iv (b # bs) = ((b \<noteq> bit (block iv ! 0) 7) # cs, iv')"
  by (simp only: cfb1_bits.simps Let_def case_prod_conv)

lemma cfb1_loop_bits:
  "block_ok block \<Longrightarrow> length iv = 16 \<Longrightarrow> n + k \<le> 8 * length dst \<Longrightarrow> cfb1_loop block enc k n iv src dst = (dst', iv') \<Longrightarrow>
    cfb1_bits block enc iv (map (nth_bit src) [n..<n + k]) = (map (nth_bit dst') [n..<n + k], iv') \<and>
    length dst' = length dst \<and> (\<forall>i. i < n \<or> n + k \<le> i \<longrightarrow> nth_bit dst' i = nth_bit dst i)"
proof (induction k arbitrary: n iv dst)
  case (Suc k)
  define b where "b = nth_bit src n"
  define c where "c = (b \<noteq> bit (block iv ! 0) 7)"
  define d where "d = (if b then 0x80 else 0) XOR block iv ! 0"
  define iv1 where "iv1 = shift_in iv (if enc then c else b)"
  have d: "bit d 7 = c" by (auto simp: d_def c_def bit_simps bit_0x80)
  have cf: "cfbr_encrypt_block block enc 1 iv [if b then 0x80 else 0] = ([d], iv1)"
    unfolding d_def iv1_def c_def using Suc.prems(1,2) by (intro cfbr_bit) (simp_all add: block_ok_def)
  have step: "cfb1_loop block enc (Suc k) n iv src dst = cfb1_loop block enc k (Suc n) iv1 src (put_bit dst n d)"
    by (simp only: cfb1_loop.simps Let_def nth_bit_test b_def [symmetric] cf case_prod_conv put_bit_def nth_Cons_0)
  have ih: "cfb1_bits block enc iv1 (map (nth_bit src) [Suc n..<Suc n + k]) = (map (nth_bit dst') [Suc n..<Suc n + k], iv')"
      "length dst' = length dst" "\<forall>i. i < Suc n \<or> Suc n + k \<le> i \<longrightarrow> nth_bit dst' i = nth_bit (put_bit dst n d) i"
    using Suc.IH [of iv1 "Suc n" "put_bit dst n d"] Suc.prems step by (auto simp: iv1_def)
  have n: "n < 8 * length dst" using Suc.prems(3) by simp
  have "nth_bit dst' n = c" using ih(3) nth_bit_put [OF n] d by auto
  moreover have "[n..<n + Suc k] = n # [Suc n..<Suc n + k]" by (simp add: upt_conv_Cons)
  moreover have "\<forall>i. i < n \<or> n + Suc k \<le> i \<longrightarrow> nth_bit dst' i = nth_bit dst i"
    using ih(3) nth_bit_put [OF n] by auto
  moreover have "cfb1_bits block enc iv (b # map (nth_bit src) [Suc n..<Suc n + k]) =
      (c # map (nth_bit dst') [Suc n..<Suc n + k], iv')"
    using cfb1_bits_Cons [OF ih(1) [unfolded iv1_def c_def]] unfolding c_def .
  ultimately show ?case
    using ih(2) by (simp only: list.map b_def [symmetric] simp_thms)
qed simp

lemma cfb1_roundtrip:
  assumes "block_ok block" "length iv = 16" "bits \<le> 8 * length dst" "bits \<le> 8 * length buf"
    and enc: "CRYPTO_cfb128_1_encrypt block True iv src bits dst = (ct, iv1)"
    and dec: "CRYPTO_cfb128_1_encrypt block False iv ct bits buf = (pt, iv2)"
  shows "iv2 = iv1 \<and> length pt = length buf \<and>
    (\<forall>i. nth_bit pt i = (if i < bits then nth_bit src i else nth_bit buf i))"
proof -
  note e = cfb1_loop_bits [OF assms(1,2) _ enc [unfolded CRYPTO_cfb128_1_encrypt_def]]
  note d = cfb1_loop_bits [OF assms(1,2) _ dec [unfolded CRYPTO_cfb128_1_encrypt_def]]
  have "cfb1_bits block False iv (map (nth_bit ct) [0..<bits]) = (map (nth_bit src) [0..<bits], iv1)"
    using e assms(3) by (intro cfb1_bits_inverse) simp
  then have "map (nth_bit pt) [0..<bits] = map (nth_bit src) [0..<bits]" "iv2 = iv1" using d assms(4) by simp_all
  then show ?thesis using d assms(4) by (auto simp: map_eq_conv)
qed

section \<open>What a client sees\<close>

text \<open>
  C30: Counter, output feedback and cipher feedback mode keep what the caller's arrays must be, from any legal
  position on and the input in any pieces: the vector has 16 bytes again, \<open>num\<close> stays below 16, and there
  are as many bytes of output as of input.
\<close>

theorem modes_typed:
  assumes "block_ok block" "length iv = 16" "length e = 16" "n < 16"
  shows "(\<forall>out s'. feed (CRYPTO_ctr128_encrypt block) \<lparr>ivec = iv, ecount_buf = e, num = n\<rparr> pieces = (out, s') \<longrightarrow>
      length out = length (concat pieces) \<and> length (ivec s') = 16 \<and> length (ecount_buf s') = 16 \<and> num s' < 16) \<and>
    (\<forall>out s'. feed (CRYPTO_ofb128_encrypt block) \<lparr>ofb_ivec = iv, ofb_num = n\<rparr> pieces = (out, s') \<longrightarrow>
      length out = length (concat pieces) \<and> length (ofb_ivec s') = 16 \<and> ofb_num s' < 16) \<and>
    (\<forall>enc out s'. feed (CRYPTO_cfb128_encrypt block enc) \<lparr>cfb_ivec = iv, cfb_num = n\<rparr> pieces = (out, s') \<longrightarrow>
      length out = length (concat pieces) \<and> length (cfb_ivec s') = 16 \<and> cfb_num s' < 16) \<and>
    (\<forall>enc out iv'. feed (CRYPTO_cfb128_8_encrypt block enc) iv pieces = (out, iv') \<longrightarrow>
      length out = length (concat pieces) \<and> length iv' = 16)"
proof (intro conjI, goal_cases)
  case 1
  show ?case
    using ctr.enc.feed_ok [of block "\<lparr>ivec = iv, ecount_buf = e, num = n\<rparr>" pieces] assms by (simp add: ctr_ok_def)
next
  case 2
  show ?case
    using ofb.enc.feed_ok [of block "\<lparr>ofb_ivec = iv, ofb_num = n\<rparr>" pieces] assms by (simp add: ofb_ok_def)
next
  case 3
  have "length out = length (concat pieces) \<and> length (cfb_ivec s') = 16 \<and> cfb_num s' < 16"
    if "feed (CRYPTO_cfb128_encrypt block enc) \<lparr>cfb_ivec = iv, cfb_num = n\<rparr> pieces = (out, s')" for enc out s'
    using that assms
      cfb.enc.feed_ok [of block "\<lparr>cfb_ivec = iv, cfb_num = n\<rparr>" pieces out s']
      cfb.dec.feed_ok [of block "\<lparr>cfb_ivec = iv, cfb_num = n\<rparr>" pieces out s']
    by (cases enc) (simp_all add: cfb_ok_def)
  then show ?case by blast
next
  case 4
  have "length out = length (concat pieces) \<and> length iv' = 16"
    if "feed (CRYPTO_cfb128_8_encrypt block enc) iv pieces = (out, iv')" for enc out iv'
    using that assms cfb8.enc.feed_ok [of block iv pieces out iv'] cfb8.dec.feed_ok [of block iv pieces out iv']
    by (cases enc) (simp_all add: cfb8_ok_def)
  then show ?case by blast
qed

definition decrypts ::
    "('s \<Rightarrow> u8 list \<Rightarrow> u8 list \<times> 's) \<Rightarrow> ('s \<Rightarrow> u8 list \<Rightarrow> u8 list \<times> 's) \<Rightarrow> 's \<Rightarrow> u8 list list \<Rightarrow> bool" where
  "decrypts encr decr s pieces \<longleftrightarrow> (\<forall>cuts. concat cuts = fst (feed encr s pieces) \<longrightarrow>
    feed decr s cuts = (concat pieces, snd (feed encr s pieces)))"

text \<open>
  C31: Data encrypted piece by piece is decrypted piece by piece, the ciphertext cut anywhere else: counter mode and
  output feedback by encrypting again, cipher feedback of blocks and of bytes by their decrypting directions; the
  states of both ends agree afterwards. The modes use the block cipher in one direction, so nothing is asked of it.
\<close>

theorem modes_roundtrip:
  assumes "block_ok block" "length iv = 16" "length e = 16" "n < 16"
  shows "decrypts (CRYPTO_ctr128_encrypt block) (CRYPTO_ctr128_encrypt block) \<lparr>ivec = iv, ecount_buf = e, num = n\<rparr> pieces \<and>
    decrypts (CRYPTO_ofb128_encrypt block) (CRYPTO_ofb128_encrypt block) \<lparr>ofb_ivec = iv, ofb_num = n\<rparr> pieces \<and>
    decrypts (CRYPTO_cfb128_encrypt block True) (CRYPTO_cfb128_encrypt block False) \<lparr>cfb_ivec = iv, cfb_num = n\<rparr> pieces \<and>
    decrypts (CRYPTO_cfb128_8_encrypt block True) (CRYPTO_cfb128_8_encrypt block False) iv pieces"
proof (intro conjI, goal_cases)
  case 1
  show ?case unfolding decrypts_def using assms
    by (intro allI impI ctr.feed_roundtrip [of block]) (auto simp: ctr_ok_def)
next
  case 2
  show ?case unfolding decrypts_def using assms
    by (intro allI impI ofb.feed_roundtrip [of block]) (auto simp: ofb_ok_def)
next
  case 3
  show ?case unfolding decrypts_def using assms
    by (intro allI impI cfb.feed_roundtrip [of block]) (auto simp: cfb_ok_def)
next
  case 4
  show ?case unfolding decrypts_def using assms
    by (intro allI impI cfb8.feed_roundtrip [of block]) (auto simp: cfb8_ok_def)
qed

text \<open>The cipher may be any function, here one that forgets most of its input.\<close>

lemma modes_typed_witness:
  "\<exists>out s'. feed (CRYPTO_cfb128_encrypt (\<lambda>x. replicate 16 (hd x)) False)
      \<lparr>cfb_ivec = replicate 16 1, cfb_num = 15\<rparr> [[], [1, 2], replicate 40 3] = (out, s') \<and>
    length out = 42 \<and> length (cfb_ivec s') = 16 \<and> cfb_num s' < 16"
proof -
  obtain out s' where r: "feed (CRYPTO_cfb128_encrypt (\<lambda>x. replicate 16 (hd x)) False)
      \<lparr>cfb_ivec = replicate 16 1, cfb_num = 15\<rparr> [[], [1, 2], replicate 40 3] = (out, s')" by fastforce
  then show ?thesis
    using modes_typed [of "\<lambda>x. replicate 16 (hd x)" "replicate 16 1" "replicate 16 0" 15 "[[], [1, 2], replicate 40 3]"]
    by (auto simp: block_ok_def)
qed

lemma modes_roundtrip_witness:
  "decrypts (CRYPTO_cfb128_8_encrypt (\<lambda>x. replicate 16 (hd x)) True) (CRYPTO_cfb128_8_encrypt (\<lambda>x. replicate 16 (hd x)) False)
      (replicate 15 0 @ [1]) [[1, 2], [3]] \<and>
    decrypts (CRYPTO_ctr128_encrypt rev) (CRYPTO_ctr128_encrypt rev)
      \<lparr>ivec = replicate 16 255, ecount_buf = replicate 16 4, num = 14\<rparr> [replicate 20 1, [], [2]]"
  using modes_roundtrip [of "\<lambda>x. replicate 16 (hd x)" "replicate 15 0 @ [1]" "replicate 16 0" 0 "[[1, 2], [3]]"]
    modes_roundtrip [of rev "replicate 16 255" "replicate 16 4" 14 "[replicate 20 1, [], [2]]"]
  by (simp add: block_ok_def)

end
