(* ===== verification/Counter_Mode.thy ===== *)
theory Counter_Mode
  imports Stream_Modes
begin

text \<open>
  Counter mode is the exclusive or with the encrypted counters \<open>iv, iv + 1, \<dots>\<close> modulo \<open>2 ^ 128\<close>, in
  whatever pieces the input comes; the variant that leaves the counting of the last 32 bits to the
  block function, and takes its carry over itself, is no different.
\<close>

section \<open>The counters\<close>

text \<open>The loop adds the carry to the number in the first \<open>n\<close> bytes.\<close>

lemma ctr_inc_loop_eq:
  "n \<le> length counter \<Longrightarrow> unat c \<le> 256 \<Longrightarrow>
    be_nat (take n (ctr_inc_loop n c counter)) = (be_nat (take n counter) + unat c) mod 256 ^ n \<and>
    drop n (ctr_inc_loop n c counter) = drop n counter"
proof (induction n c counter rule: ctr_inc_loop.induct)
  case (2 n c counter)
  define b where "b = counter ! n"
  define s where "s = c + ucast b"
  have b: "unat b < 256" by (rule unat_byte_less)
  have "unat (ucast b :: u32) = unat b"
    using b by (simp add: unsigned_ucast_eq take_bit_nat_eq_self_iff)
  then have u: "unat s = unat c + unat b"
    using "2.prems"(2) b by (simp add: s_def unat_word_ariths)
  have d: "unat (drop_bit 8 s) = unat s div 256" "unat (ucast s :: u8) = unat s mod 256"
    by (simp add: unat_div drop_bit_eq_div) (simp add: unsigned_ucast_eq take_bit_eq_mod)
  define r where "r = ctr_inc_loop n (drop_bit 8 s) (counter[n := ucast s])"
  have r: "be_nat (take n r) = (be_nat (take n counter) + unat s div 256) mod 256 ^ n"
    "drop n r = ucast s # drop (Suc n) counter"
    using "2.IH" [OF s_def [unfolded b_def]] "2.prems" u b d by (auto simp: r_def b_def drop_update_swap Cons_nth_drop_Suc [symmetric] simp flip: s_def)
  have "length r = length counter" by (simp add: r_def length_ctr_inc_loop)
  then have t: "take (Suc n) r = take n r @ [ucast s]" "take (Suc n) counter = take n counter @ [b]"
    using r(2) "2.prems"(1) by (simp_all add: take_Suc_conv_app_nth b_def nth_via_drop)
  have "(be_nat (take n counter) * 256 + unat s) mod (256 * 256 ^ n) =
      (be_nat (take n counter) + unat s div 256) mod 256 ^ n * 256 + unat s mod 256"
    using mod_mult2_eq [of "be_nat (take n counter) * 256 + unat s" 256 "256 ^ n"] by (simp add: mult.commute)
  then have "be_nat (take (Suc n) r) = (be_nat (take (Suc n) counter) + unat c) mod 256 ^ Suc n"
    unfolding t be_nat_simps r(1) d(2) u by (simp add: ac_simps)
  moreover have "drop (Suc n) r = drop (Suc n) counter"
    using arg_cong [OF r(2), of tl] by (simp add: tl_drop [symmetric] drop_Suc)
  moreover have "ctr_inc_loop (Suc n) c counter = r"
    by (simp only: ctr_inc_loop.simps Let_def r_def s_def b_def)
  ultimately show ?case by simp
qed simp

text \<open>The counter \<open>k\<close> blocks on.\<close>

definition counter_block :: "u8 list \<Rightarrow> nat \<Rightarrow> u8 list" where
  "counter_block iv k = be_bytes 16 (word_of_nat (be_nat iv + k) :: 128 word)"

lemma length_counter_block [simp]: "length (counter_block iv k) = 16"
  by (simp add: counter_block_def)

lemma be_nat_counter: "be_nat (counter_block iv k) = (be_nat iv + k) mod 2 ^ 128"
  by (simp add: counter_block_def be_nat_be_bytes unat_of_nat del: of_nat_add)

lemma counter_block_0: "length iv = 16 \<Longrightarrow> counter_block iv 0 = iv"
  using be_nat_less [of iv] by (intro be_nat_inj) (simp_all add: be_nat_counter)

lemma counter_block_eqI: "length c = 16 \<Longrightarrow> be_nat c = (be_nat iv + k) mod 2 ^ 128 \<Longrightarrow> c = counter_block iv k"
  by (rule be_nat_inj) (simp_all add: be_nat_counter)

lemma ctr128_inc_counter: "length iv = 16 \<Longrightarrow> ctr128_inc iv = counter_block iv 1"
  using ctr_inc_loop_eq [of 16 iv 1] by (intro counter_block_eqI) (simp_all add: ctr128_inc_def length_ctr_inc_loop)

lemma counter_counter: "counter_block (counter_block iv j) k = counter_block iv (j + k)"
  by (rule counter_block_eqI) (simp_all add: be_nat_counter mod_add_left_eq add.assoc)


text \<open>The bytes that the input is combined with, the input \<open>p\<close> bytes on, and the state then.\<close>

definition ctr_keystream :: "block_fn \<Rightarrow> u8 list \<Rightarrow> nat \<Rightarrow> u8" where
  "ctr_keystream block iv i = block (counter_block iv (i div 16)) ! (i mod 16)"

definition ctr_stream :: "block_fn \<Rightarrow> u8 list \<Rightarrow> nat \<Rightarrow> u8 list \<Rightarrow> u8 list" where
  "ctr_stream block iv p src = map2 (XOR) src (map (ctr_keystream block iv) [p..<p + length src])"

definition ctr_at :: "block_fn \<Rightarrow> u8 list \<Rightarrow> nat \<Rightarrow> ctr_state \<Rightarrow> bool" where
  "ctr_at block iv p st \<longleftrightarrow> num st = p mod 16 \<and> ivec st = counter_block iv ((p + 15) div 16) \<and>
    (p mod 16 \<noteq> 0 \<longrightarrow> ecount_buf st = block (counter_block iv (p div 16)))"

lemma ctr_stream_simps [simp]:
  "ctr_stream block iv p [] = []"
  "ctr_stream block iv p (b # src) = (b XOR ctr_keystream block iv p) # ctr_stream block iv (Suc p) src"
  by (simp_all add: ctr_stream_def upt_conv_Cons del: upt_Suc)

lemma ctr_stream_append:
  "ctr_stream block iv p (a @ b) = ctr_stream block iv p a @ ctr_stream block iv (p + length a) b"
  by (induction a arbitrary: p) simp_all

lemma ctr_stream_shift:
  "p mod 16 = 0 \<Longrightarrow> ctr_stream block (counter_block iv (p div 16)) i src = ctr_stream block iv (p + i) src"
  by (induction src arbitrary: i) (auto simp: ctr_keystream_def counter_counter div_add1_eq [of p] mod_add_eq [of p, symmetric])

lemma ctr_stream_block:
  "p mod 16 = 0 \<Longrightarrow> length (block (counter_block iv (p div 16))) = 16 \<Longrightarrow> length src \<le> 16 \<Longrightarrow>
    xor_from (block (counter_block iv (p div 16))) 0 src = ctr_stream block iv p src"
  by (auto simp: xor_from_eq ctr_stream_def ctr_keystream_def div_add1_eq [of p] mod_add_eq [of p, symmetric]
      intro!: nth_equalityI)

lemma blocks_used: "(p + 15) div 16 = (if p mod 16 = 0 then p div 16 else p div 16 + 1)" for p :: nat
proof -
  have "(p mod 16 + 15) div 16 = (if p mod 16 = 0 then 0 else 1)"
    by (auto intro: div_nat_eqI)
  then show ?thesis using div_add1_eq [of p 15 16] by simp
qed

lemma ctr_at_Suc:
  assumes "ivec st = counter_block iv (p div 16 + 1)" "ecount_buf st = block (counter_block iv (p div 16))"
  shows "ctr_at block iv (Suc p) (st\<lparr>num := Suc p mod 16\<rparr>)"
proof -
  have "Suc p + 15 = p + 16" by simp
  then have d: "(Suc p + 15) div 16 = p div 16 + 1" by simp
  show ?thesis using assms unfolding ctr_at_def d by (auto simp: div_Suc)
qed

lemma ctr_bytes_keystream:
  "ctr_at block iv p st \<Longrightarrow> ctr_bytes block st src = (out, st') \<Longrightarrow>
    out = ctr_stream block iv p src \<and> ctr_at block iv (p + length src) st'"
proof (induction block st src arbitrary: p out st' rule: ctr_bytes.induct)
  case (2 block st b src)
  define st1 where "st1 = (if num st = 0 then st\<lparr>ecount_buf := block (ivec st), ivec := ctr128_inc (ivec st)\<rparr> else st)"
  define st2 where "st2 = st1\<lparr>num := (num st1 + 1) mod 16\<rparr>"
  note run = ctr_bytes.simps(2) [of block st, unfolded Let_def, folded st1_def, folded st2_def]
  obtain o' s where r: "ctr_bytes block st2 src = (o', s)" by fastforce
  have o: "out = (b XOR ecount_buf st1 ! num st1) # o'" "st' = s" using 2(3) r unfolding run by simp_all
  have e: "ecount_buf st1 = block (counter_block iv (p div 16))" "num st1 = p mod 16"
    "ivec st1 = counter_block iv (p div 16 + 1)"
    using 2(2) unfolding ctr_at_def blocks_used
    by (cases "p mod 16 = 0"; simp add: st1_def ctr128_inc_counter counter_counter)+
  then have "ctr_at block iv (Suc p) st2"
    using ctr_at_Suc [of st1 iv p block] e(1,3) by (simp add: st2_def mod_Suc_eq)
  then show ?case
    using 2(1) [OF st1_def, of "Suc p" o' s] r o e by (simp add: st2_def ctr_keystream_def)
qed simp

lemma ctr_at_0: "length iv = 16 \<Longrightarrow> ctr_at block iv 0 \<lparr>ivec = iv, ecount_buf = e, num = 0\<rparr>"
  by (simp add: ctr_at_def counter_block_0)

section \<open>The 32-bit variant\<close>

text \<open>What the documentation of \<open>ctr128_f\<close> promises: counter mode, the last 32 bits of the counter on their own.\<close>

definition counts_32 :: "block_fn \<Rightarrow> ctr128_fn \<Rightarrow> bool" where
  "counts_32 block func \<longleftrightarrow> (\<forall>src blocks iv. length src = 16 * blocks \<longrightarrow> length iv = 16 \<longrightarrow>
    func src blocks iv =
      map2 (XOR) src (concat (map (\<lambda>i. block (put_ctr32 iv (GETU32 (drop 12 iv) + word_of_nat i))) [0..<blocks])))"

abbreviation low_ctr :: "u8 list \<Rightarrow> nat" where
  "low_ctr iv \<equiv> unat (GETU32 (drop 12 iv))"

lemma low_ctr_eq: "length iv = 16 \<Longrightarrow> low_ctr iv = be_nat (drop 12 iv)"
  using be_nat_less [of "drop 12 iv"] by (simp add: GETU32_def be_word_of_nat unat_of_nat)

lemma be_nat_split: "length iv = 16 \<Longrightarrow> be_nat iv = be_nat (take 12 iv) * 2 ^ 32 + low_ctr iv"
  using be_nat_append [of "take 12 iv" "drop 12 iv"] by (simp add: low_ctr_eq)

lemma length_put_ctr32 [simp]: "length iv = 16 \<Longrightarrow> length (put_ctr32 iv c) = 16"
  by (simp add: put_ctr32_def be_bytes_def)

lemma put_ctr32_counter:
  assumes "length iv = 16" "low_ctr iv + i < 2 ^ 32"
  shows "put_ctr32 iv (GETU32 (drop 12 iv) + word_of_nat i) = counter_block iv i"
proof (rule counter_block_eqI)
  have "unat (GETU32 (drop 12 iv) + word_of_nat i) = low_ctr iv + i"
    using assms(2) by (simp add: unat_word_ariths unat_of_nat)
  moreover have "be_nat (take 12 iv) < 2 ^ 96" using be_nat_less [of "take 12 iv"] assms by simp
  ultimately show "be_nat (put_ctr32 iv (GETU32 (drop 12 iv) + word_of_nat i)) = (be_nat iv + i) mod 2 ^ 128"
    using assms be_nat_split [OF assms(1)]
    by (simp add: put_ctr32_def be_nat_append be_nat_be_bytes be_bytes_def [symmetric])
qed (use assms in simp)

lemma put_ctr32_carry:
  assumes "length iv = 16" "low_ctr iv + i = 2 ^ 32"
  shows "ctr96_inc (put_ctr32 iv 0) = counter_block iv i"
proof (rule counter_block_eqI)
  define r where "r = ctr96_inc (put_ctr32 iv 0)"
  have r: "be_nat (take 12 r) = (be_nat (take 12 iv) + 1) mod 2 ^ 96" "drop 12 r = be_bytes 4 (0 :: u32)"
    using ctr_inc_loop_eq [of 12 "put_ctr32 iv 0" 1] assms by (simp_all add: r_def ctr96_inc_def put_ctr32_def)
  have "be_nat r = be_nat (take 12 r) * 2 ^ 32 + be_nat (drop 12 r)"
    using be_nat_append [of "take 12 r" "drop 12 r", unfolded append_take_drop_id] by (simp add: r(2) be_bytes_def)
  then have "be_nat r = ((be_nat (take 12 iv) + 1) * 2 ^ 32) mod (2 ^ 96 * 2 ^ 32)"
    unfolding r by (simp add: be_nat_be_bytes mult_mod_left)
  moreover have "be_nat iv + i = (be_nat (take 12 iv) + 1) * 2 ^ 32"
    using be_nat_split [OF assms(1)] assms(2) by simp
  moreover have "2 ^ 96 * 2 ^ 32 = (2 ^ 128 :: nat)" by simp
  ultimately show "be_nat (ctr96_inc (put_ctr32 iv 0)) = (be_nat iv + i) mod 2 ^ 128"
    by (simp only: r_def)
qed (use assms in \<open>simp add: ctr96_inc_def length_ctr_inc_loop\<close>)

text \<open>The step of both callers: the counter is stored, and a carry goes into the other 96 bits.\<close>

lemma put_ctr32_step:
  assumes "length iv = 16" "0 < b" "low_ctr iv + b \<le> 2 ^ 32" "c = GETU32 (drop 12 iv) + word_of_nat b"
  shows "(if c = 0 then ctr96_inc (put_ctr32 iv c) else put_ctr32 iv c) = counter_block iv b"
proof (cases "low_ctr iv + b = 2 ^ 32")
  case True
  moreover have "c = word_of_nat (low_ctr iv + b)" by (simp add: assms(4))
  ultimately have "unat c = 0" by (simp add: unat_of_nat del: of_nat_add)
  then have "c = 0" by (simp add: unat_eq_0)
  then show ?thesis using put_ctr32_carry [OF assms(1) True] by simp
next
  case False
  then have l: "low_ctr iv + b < 2 ^ 32" using assms(3) by simp
  then have "unat c = low_ctr iv + b" by (simp add: assms(4) unat_word_ariths unat_of_nat)
  then have "c \<noteq> 0" using assms(2) by auto
  then show ?thesis using put_ctr32_counter [OF assms(1) l] assms(4) by simp
qed

lemma concat_keystream:
  "block_ok block \<Longrightarrow> concat (map (\<lambda>i. block (counter_block iv i)) [0..<b]) = map (ctr_keystream block iv) [0..<16 * b]"
proof (induction b)
  case (Suc b)
  have "map (ctr_keystream block iv) [16 * b..<16 * b + 16] = block (counter_block iv b)"
    using Suc.prems by (intro nth_equalityI) (auto simp: ctr_keystream_def block_ok_def)
  moreover have "[0..<16 * Suc b] = [0..<16 * b] @ [16 * b..<16 * b + 16]"
    using upt_add_eq_append [of 0 "16 * b" 16] by (simp add: add.commute)
  ultimately show ?case using Suc by simp
qed simp

lemma counts_32_run:
  assumes "counts_32 block func" "block_ok block" "length iv = 16" "length src = 16 * b" "low_ctr iv + b \<le> 2 ^ 32"
  shows "func src b iv = ctr_stream block iv 0 src"
proof -
  have "map (\<lambda>i. block (put_ctr32 iv (GETU32 (drop 12 iv) + word_of_nat i))) [0..<b] =
      map (\<lambda>i. block (counter_block iv i)) [0..<b]"
    using assms(3,5) by (auto intro!: arg_cong [of _ _ block] put_ctr32_counter)
  moreover have "func src b iv =
      map2 (XOR) src (concat (map (\<lambda>i. block (put_ctr32 iv (GETU32 (drop 12 iv) + word_of_nat i))) [0..<b]))"
    using assms(1,3,4) unfolding counts_32_def by blast
  ultimately show ?thesis using assms(2,4) concat_keystream [of block iv b] by (simp only: ctr_stream_def add_0)
qed


lemma chunk_bound:
  fixes c :: u32
  assumes "0 < blocks" "blocks \<le> 2 ^ 28"
    and "(b, c') = (if unat (c + word_of_nat blocks) < blocks
      then (blocks - unat (c + word_of_nat blocks), 0) else (blocks, c + word_of_nat blocks))"
  shows "0 < b \<and> b \<le> blocks \<and> unat c + b \<le> 2 ^ 32 \<and> c' = c + word_of_nat b"
proof -
  have u: "unat (c + word_of_nat blocks) = (unat c + blocks) mod 2 ^ 32"
    using assms(2) by (simp add: unat_word_ariths unat_of_nat mod_add_right_eq)
  show ?thesis
  proof (cases "unat c + blocks < 2 ^ 32")
    case True
    then show ?thesis using assms u by (auto split: if_splits)
  next
    case False
    then have m: "unat (c + word_of_nat blocks) = unat c + blocks - 2 ^ 32"
      using assms(2) unat_u32_less [of c] unfolding u by (simp add: mod_if)
    then have l: "b = 2 ^ 32 - unat c" "c' = 0"
      using assms False unat_u32_less [of c] by (auto split: if_splits)
    have "unat c + b = 2 ^ 32" using l(1) unat_u32_less [of c] by simp
    then have "word_of_nat (unat c + b) = (word_of_nat (2 ^ 32) :: u32)" by simp
    then have "c + word_of_nat b = 0" by simp
    then show ?thesis using l False assms(1,2) unat_u32_less [of c] by auto
  qed
qed

lemma GETU32_put: "length iv = 16 \<Longrightarrow> GETU32 (drop 12 (put_ctr32 iv c)) = c"
  using be_word_be_bytes [of 4 c] by (simp add: GETU32_def put_ctr32_def be_bytes_def)

lemma GETU32_carry: "length iv = 16 \<Longrightarrow> GETU32 (drop 12 (ctr96_inc iv)) = GETU32 (drop 12 iv)"
  using ctr_inc_loop_eq [of 12 iv 1] by (simp add: ctr96_inc_def)

lemma ctr32_blocks_step:
  assumes "\<not> length src < 16" "bl = (if 2 ^ 28 < length src div 16 then 2 ^ 28 else length src div 16)"
    "(b, c1) = (if unat (c + word_of_nat bl) < bl
      then (bl - unat (c + word_of_nat bl), 0) else (bl, c + word_of_nat bl))"
  shows "ctr32_blocks func src iv c =
    (let (rest, left, iv', c') = ctr32_blocks func (drop (b * 16) src)
       (if c1 = 0 then ctr96_inc (put_ctr32 iv c1) else put_ctr32 iv c1) c1 in
     (func (take (b * 16) src) b iv @ rest, left, iv', c'))"
  using assms(1)
  by (subst ctr32_blocks.simps)
    (simp only: Let_def assms(2) [symmetric] assms(3) [symmetric] case_prod_conv if_False)

lemma ctr32_blocks_run:
  "counts_32 block func \<Longrightarrow> block_ok block \<Longrightarrow> length iv = 16 \<Longrightarrow> c = GETU32 (drop 12 iv) \<Longrightarrow>
    ctr32_blocks func src iv c = (out, left, iv', c') \<Longrightarrow>
    (\<exists>k. length src div 16 = k \<and> out = ctr_stream block iv 0 (take (16 * k) src) \<and> left = drop (16 * k) src \<and>
      iv' = counter_block iv k \<and> c' = GETU32 (drop 12 iv'))"
proof (induction "length src" arbitrary: src iv c out left iv' c' rule: less_induct)
  case less
  show ?case
  proof (cases "length src < 16")
    case True
    then show ?thesis using less.prems by (auto simp: ctr32_blocks.simps [of func src] counter_block_0)
  next
    case False
    define bl where "bl = (if 2 ^ 28 < length src div 16 then 2 ^ 28 else length src div 16)"
    obtain b c1 where bc: "(b, c1) = (if unat (c + word_of_nat bl) < bl
        then (bl - unat (c + word_of_nat bl), 0) else (bl, c + word_of_nat bl))" by (metis surj_pair)
    have bl: "0 < bl" "bl \<le> 2 ^ 28" "bl \<le> length src div 16"
      using False by (auto simp: bl_def div_greater_zero_iff)
    note b = chunk_bound [OF bl(1,2) bc]
    define iv1 where "iv1 = (if c1 = 0 then ctr96_inc (put_ctr32 iv c1) else put_ctr32 iv c1)"
    have iv1: "iv1 = counter_block iv b"
      unfolding iv1_def using b less.prems(3,4) by (intro put_ctr32_step) auto
    obtain o' where r: "ctr32_blocks func (drop (b * 16) src) iv1 c1 = (o', left, iv', c')"
      "out = func (take (b * 16) src) b iv @ o'"
      using less.prems(5) unfolding ctr32_blocks_step [OF False bl_def bc] iv1_def [symmetric]
      by (auto split: prod.splits)
    have le: "b * 16 \<le> length src" using b bl(3) by linarith
    then have len: "length src div 16 = b + length (drop (b * 16) src) div 16" by (auto simp: le_iff_add)
    have first: "func (take (b * 16) src) b iv = ctr_stream block iv 0 (take (b * 16) src)"
      using le b less.prems(1-4) by (intro counts_32_run) auto
    have "c1 = GETU32 (drop 12 iv1)" using less.prems(3) by (simp add: iv1_def GETU32_put GETU32_carry)
    moreover have "length iv1 = 16" by (simp add: iv1)
    ultimately obtain k where k: "length (drop (b * 16) src) div 16 = k"
        "o' = ctr_stream block iv1 0 (take (16 * k) (drop (b * 16) src))" "left = drop (16 * k) (drop (b * 16) src)"
        "iv' = counter_block iv1 k" "c' = GETU32 (drop 12 iv')"
      using less.hyps [OF _ less.prems(1,2) _ _ r(1)] b False by auto
    have "ctr_stream block iv1 0 x = ctr_stream block iv (16 * b) x" for x
      using ctr_stream_shift [of "16 * b" block iv 0 x] by (simp add: iv1)
    then have "out = ctr_stream block iv 0 (take (b * 16) src) @
        ctr_stream block iv (0 + length (take (b * 16) src)) (take (16 * k) (drop (b * 16) src))"
      using r(2) first k(2) le by (simp add: mult.commute)
    moreover have "16 * (b + k) = b * 16 + 16 * k" by simp
    ultimately have "out = ctr_stream block iv 0 (take (16 * (b + k)) src)"
      by (simp only: ctr_stream_append [symmetric] take_add)
    moreover have "left = drop (16 * (b + k)) src" using k(3) by (simp add: ac_simps)
    ultimately show ?thesis using k(1,4,5) len by (simp add: iv1 counter_counter)
  qed
qed


lemma ctr_head_at:
  "ctr_at block iv p st \<Longrightarrow> ctr_head (ecount_buf st) (num st) src = (out, n, left) \<Longrightarrow>
    (\<exists>used. src = used @ left \<and> out = ctr_stream block iv p used \<and> ctr_at block iv (p + length used) (st\<lparr>num := n\<rparr>)) \<and>
    (left \<noteq> [] \<longrightarrow> n = 0)"
proof (induction src arbitrary: p st out n left)
  case Nil
  then show ?case by (cases st) auto
next
  case (Cons b src)
  show ?case
  proof (cases "num st = 0")
    case True
    then show ?thesis using Cons.prems by (auto simp: ctr_at_def)
  next
    case False
    obtain o' where h: "ctr_head (ecount_buf st) ((num st + 1) mod 16) src = (o', n, left)"
      "out = (b XOR ecount_buf st ! num st) # o'"
      using Cons.prems(2) False by (auto split: prod.splits)
    have p: "num st = p mod 16" "p mod 16 \<noteq> 0" using Cons.prems(1) False by (simp_all add: ctr_at_def)
    then have e: "ivec st = counter_block iv (p div 16 + 1)" "ecount_buf st = block (counter_block iv (p div 16))"
      using Cons.prems(1) by (simp_all add: ctr_at_def blocks_used)
    then have at: "ctr_at block iv (Suc p) (st\<lparr>num := Suc p mod 16\<rparr>)" by (rule ctr_at_Suc)
    obtain used where "src = used @ left" "o' = ctr_stream block iv (Suc p) used"
        "ctr_at block iv (Suc p + length used) (st\<lparr>num := n\<rparr>)" "left \<noteq> [] \<longrightarrow> n = 0"
      using Cons.IH [OF at, of o' n left] h(1) p(1) by (auto simp: mod_Suc_eq)
    then show ?thesis
      using h(2) p(1) e(2) by (auto intro!: exI [of _ "b # used"] simp: ctr_keystream_def)
  qed
qed

lemma ctr32_pad:
  assumes "counts_32 block func" "block_ok block" "length iv = 16"
  shows "func (replicate 16 0) 1 iv = block iv"
proof -
  have "ctr_stream block iv 0 (replicate 16 0) = block iv"
    using assms(2,3) by (intro nth_equalityI) (auto simp: ctr_stream_def ctr_keystream_def block_ok_def counter_block_0)
  then show ?thesis
    using counts_32_run [OF assms, of "replicate 16 0" 1] unat_u32_less [of "GETU32 (drop 12 iv)"] by simp
qed

lemma ctr32_encrypt_stream:
  assumes "counts_32 block func" "block_ok block" "ctr_at block iv p st"
    and "CRYPTO_ctr128_encrypt_ctr32 func st src = (out, st')"
  shows "out = ctr_stream block iv p src \<and> ctr_at block iv (p + length src) st'"
proof -
  obtain out1 n left where h: "ctr_head (ecount_buf st) (num st) src = (out1, n, left)" by (metis prod_cases3)
  obtain used where u: "src = used @ left" "out1 = ctr_stream block iv p used"
      "ctr_at block iv (p + length used) (st\<lparr>num := n\<rparr>)" "left \<noteq> [] \<longrightarrow> n = 0"
    using ctr_head_at [OF assms(3) h] by blast
  obtain out2 left2 iv2 c2 where b: "ctr32_blocks func left (ivec st) (GETU32 (drop 12 (ivec st))) = (out2, left2, iv2, c2)"
    by (metis prod_cases4)
  show ?thesis
  proof (cases "left = []")
    case True
    then show ?thesis
      using assms(4) h b u by (cases st) (auto simp: CRYPTO_ctr128_encrypt_ctr32_def ctr32_blocks.simps [of func "[]"])
  next
    case False
    define q where "q = p + length used"
    have q: "n = 0" "q mod 16 = 0" "ivec st = counter_block iv (q div 16)"
      using u(3,4) False by (auto simp: ctr_at_def q_def [symmetric] blocks_used)
    obtain k where k: "length left div 16 = k" "out2 = ctr_stream block iv q (take (16 * k) left)"
        "left2 = drop (16 * k) left" "iv2 = counter_block iv (q div 16 + k)" "c2 = GETU32 (drop 12 iv2)"
      using ctr32_blocks_run [OF assms(1,2) _ refl b] q ctr_stream_shift [OF q(2), of block iv 0]
      by (auto simp: counter_counter)
    define r where "r = q + 16 * k"
    have r: "r mod 16 = 0" "iv2 = counter_block iv (r div 16)"
      using q(2) k(4) by (simp_all add: r_def mod_add_eq [of q, symmetric] div_add1_eq [of q])
    have "16 * k \<le> length left" "length left2 < 16" using k(1,3) by auto
    then have src: "out1 @ out2 = ctr_stream block iv p (used @ take (16 * k) left)"
      "src = (used @ take (16 * k) left) @ left2" "p + length src = r + length left2"
      using u(1,2) k(2,3) by (simp_all add: ctr_stream_append q_def r_def)
    show ?thesis
    proof (cases "left2 = []")
      case True
      then show ?thesis
        using assms(4) h b src q(1) r
        by (auto simp: CRYPTO_ctr128_encrypt_ctr32_def ctr_at_def blocks_used)
    next
      case nonempty: False
      have e: "func (replicate 16 0) 1 iv2 = block iv2"
        using ctr32_pad [OF assms(1,2)] r(2) by simp
      have iv3: "(if c2 + 1 = 0 then ctr96_inc (put_ctr32 iv2 (c2 + 1)) else put_ctr32 iv2 (c2 + 1)) =
          counter_block iv (r div 16 + 1)"
        using put_ctr32_step [of iv2 1 "c2 + 1"] k(5) r(2) unat_u32_less [of c2] by (simp add: counter_counter)
      have out: "out = (out1 @ out2) @ xor_from (block iv2) 0 left2"
        "st' = st\<lparr>ivec := counter_block iv (r div 16 + 1), ecount_buf := block iv2, num := length left2\<rparr>"
        using assms(4) h b nonempty q(1) iv3 e by (simp_all add: CRYPTO_ctr128_encrypt_ctr32_def Let_def)
      have x: "xor_from (block iv2) 0 left2 = ctr_stream block iv r left2"
        using ctr_stream_block [OF r(1)] r(2) assms(2) \<open>length left2 < 16\<close> by (simp add: block_ok_def)
      have s: "out = ctr_stream block iv p src"
        unfolding out(1) src(1,2) x ctr_stream_append [of _ _ _ "used @ take (16 * k) left"]
        using src(2,3) by simp
      have "(r + length left2) div 16 = r div 16" "(r + length left2) mod 16 = length left2"
        using r(1) \<open>length left2 < 16\<close> by (simp_all add: div_add1_eq [of r] mod_add_eq [of r, symmetric])
      then show ?thesis
        using nonempty r(2) s unfolding src(3) out(2) ctr_at_def blocks_used by simp
    qed
  qed
qed

lemma feed_ctr32_stream:
  "counts_32 block func \<Longrightarrow> block_ok block \<Longrightarrow> ctr_at block iv p st \<Longrightarrow>
    feed (CRYPTO_ctr128_encrypt_ctr32 func) st pieces = (out, st') \<Longrightarrow>
    out = ctr_stream block iv p (concat pieces) \<and> ctr_at block iv (p + length (concat pieces)) st'"
proof (induction pieces arbitrary: p st out st')
  case (Cons src pieces)
  obtain o1 s1 where a: "CRYPTO_ctr128_encrypt_ctr32 func st src = (o1, s1)" by fastforce
  obtain o2 s2 where b: "feed (CRYPTO_ctr128_encrypt_ctr32 func) s1 pieces = (o2, s2)" by fastforce
  have "o1 = ctr_stream block iv p src" "ctr_at block iv (p + length src) s1"
    using ctr32_encrypt_stream [OF Cons.prems(1-3) a] by auto
  then show ?case
    using Cons.IH [OF Cons.prems(1,2) _ b] Cons.prems(4) a b
    by (auto simp: ctr_stream_append add.assoc [symmetric])
qed simp

lemma feed_ctr_stream:
  assumes "block_ok block" "length iv = 16" "length e = 16" "st = \<lparr>ivec = iv, ecount_buf = e, num = 0\<rparr>"
    and "feed (CRYPTO_ctr128_encrypt block) st pieces = (out, st')"
  shows "out = ctr_stream block iv 0 (concat pieces) \<and> ctr_at block iv (length (concat pieces)) st'"
proof -
  have ok: "ctr_ok block st" using assms(1-4) by (simp add: ctr_ok_def)
  then have "ctr_bytes block st (concat pieces) = (out, st')"
    using assms(5) by (simp add: ctr.enc.feed_concat ctr_eq_bytes)
  then show ?thesis
    using ctr_bytes_keystream [of block iv 0 st "concat pieces"] ctr_at_0 [OF assms(2)] assms(4) by simp
qed

text \<open>
  C28: Counter mode with a fresh state, the input in any pieces: byte \<open>i\<close> of the output is byte \<open>i\<close> of the
  input exclusive or with byte \<open>i mod 16\<close> of the encrypted counter \<open>iv + i div 16\<close>, modulo \<open>2 ^ 128\<close>; afterwards
  \<open>ivec\<close> is the counter of the first block not begun and \<open>num\<close> the position in the current one.
\<close>

theorem ctr_keystream_any_pieces:
  assumes "block_ok block" "length iv = 16" "length e = 16"
    and "feed (CRYPTO_ctr128_encrypt block) \<lparr>ivec = iv, ecount_buf = e, num = 0\<rparr> pieces = (out, st')"
  shows "length out = length (concat pieces) \<and>
    (\<forall>i < length out. out ! i = concat pieces ! i XOR block (counter_block iv (i div 16)) ! (i mod 16)) \<and>
    be_nat (ivec st') = (be_nat iv + (length out + 15) div 16) mod 2 ^ 128 \<and> num st' = length out mod 16"
proof -
  note run = feed_ctr_stream [OF assms(1-3) refl assms(4)]
  have "length out = length (concat pieces)" using run by (simp add: ctr_stream_def)
  then show ?thesis
    using run by (simp add: ctr_stream_def ctr_at_def ctr_keystream_def be_nat_counter)
qed

text \<open>The counter wraps: \<open>num\<close> counts 18 bytes, and \<open>ivec\<close> is two blocks on.\<close>

lemma ctr_keystream_any_pieces_witness:
  "\<exists>out st. feed (CRYPTO_ctr128_encrypt rev) \<lparr>ivec = replicate 16 255, ecount_buf = replicate 16 0, num = 0\<rparr>
      [[1, 2, 3], replicate 15 7] = (out, st) \<and>
    length out = 18 \<and> out ! 0 = 254 \<and> be_nat (ivec st) = 1 \<and> num st = 2"
proof -
  obtain out st where r: "feed (CRYPTO_ctr128_encrypt rev)
      \<lparr>ivec = replicate 16 255, ecount_buf = replicate 16 0, num = 0\<rparr> [[1, 2, 3], replicate 15 7] = (out, st)"
    by fastforce
  have p: "length out = 18" "out ! 0 = 1 XOR rev (counter_block (replicate 16 255) 0) ! 0"
    "be_nat (ivec st) = (be_nat (replicate 16 255) + (18 + 15) div 16) mod 2 ^ 128" "num st = 18 mod 16"
    using ctr_keystream_any_pieces [OF _ _ _ r] by (simp_all add: block_ok_def)
  have "be_nat (replicate k 255) + 1 = 256 ^ k" for k by (induction k) simp_all
  from this [of 16] have "be_nat (replicate 16 255) = 2 ^ 128 - 1" by simp
  then show ?thesis using r p by (auto simp: counter_block_0 rev_nth)
qed

text \<open>
  C29: \<open>CRYPTO_ctr128_encrypt_ctr32\<close> with a function that counts in the last 32 bits of the counter only acts like
  \<open>CRYPTO_ctr128_encrypt\<close>, the input in any pieces: the same output, counter and position, and the same key block
  where one is in use. The chunks end where the 32 bits wrap, and the carry goes into the other 96.
\<close>

theorem ctr32_equivalent:
  assumes "counts_32 block func" "block_ok block" "length iv = 16" "length e = 16"
    and "feed (CRYPTO_ctr128_encrypt_ctr32 func) \<lparr>ivec = iv, ecount_buf = e, num = 0\<rparr> pieces = (out1, st1)"
    and "feed (CRYPTO_ctr128_encrypt block) \<lparr>ivec = iv, ecount_buf = e, num = 0\<rparr> pieces = (out2, st2)"
  shows "out1 = out2 \<and> ivec st1 = ivec st2 \<and> num st1 = num st2 \<and> (num st2 \<noteq> 0 \<longrightarrow> ecount_buf st1 = ecount_buf st2)"
  using feed_ctr32_stream [OF assms(1,2) ctr_at_0 [OF assms(3)] assms(5)] feed_ctr_stream [OF assms(2-4) refl assms(6)]
  by (simp add: ctr_at_def)

definition rev_ctr32 :: ctr128_fn where
  "rev_ctr32 src blocks iv =
     map2 (XOR) src (concat (map (\<lambda>i. rev (put_ctr32 iv (GETU32 (drop 12 iv) + word_of_nat i))) [0..<blocks]))"

lemma ctr32_equivalent_witness:
  "\<exists>out st1 st2.
    feed (CRYPTO_ctr128_encrypt_ctr32 rev_ctr32) \<lparr>ivec = replicate 16 255, ecount_buf = replicate 16 0, num = 0\<rparr>
      [[1, 2, 3], replicate 35 7] = (out, st1) \<and>
    feed (CRYPTO_ctr128_encrypt rev) \<lparr>ivec = replicate 16 255, ecount_buf = replicate 16 0, num = 0\<rparr>
      [[1, 2, 3], replicate 35 7] = (out, st2) \<and> ivec st1 = ivec st2"
proof -
  obtain out1 st1 where r1: "feed (CRYPTO_ctr128_encrypt_ctr32 rev_ctr32)
      \<lparr>ivec = replicate 16 255, ecount_buf = replicate 16 0, num = 0\<rparr> [[1, 2, 3], replicate 35 7] = (out1, st1)"
    by fastforce
  obtain out2 st2 where r2: "feed (CRYPTO_ctr128_encrypt rev)
      \<lparr>ivec = replicate 16 255, ecount_buf = replicate 16 0, num = 0\<rparr> [[1, 2, 3], replicate 35 7] = (out2, st2)"
    by fastforce
  have "counts_32 rev rev_ctr32" "block_ok rev" by (simp_all add: counts_32_def rev_ctr32_def block_ok_def)
  then show ?thesis using ctr32_equivalent [OF _ _ _ _ r1 r2] r1 r2 by auto
qed

end
