(* ===== verification/Cbc.thy ===== *)
theory Cbc
  imports Stream_Modes
begin

text \<open>
  Cipher block chaining, \<open>crypto/fipsmodule/modes/cbc.c\<close>, over the memory: input, output and vector are
  addresses, since the code keeps the vector as a pointer into what it has read or written, and chooses
  the loop of the decryption by how far the output is behind the input.
\<close>

section \<open>Model\<close>

definition load_word_at :: "mem \<Rightarrow> nat \<Rightarrow> u64" where
  "load_word_at m a = load_word_le (load_bytes m a 8) 0"

text \<open>The loop \<open>out = in XOR iv\<close> over the words of a block.\<close>

definition xor_block :: "mem \<Rightarrow> nat \<Rightarrow> nat \<Rightarrow> nat \<Rightarrow> mem" where
  "xor_block m out inp iv =
     fold (\<lambda>n m. store_bytes m (out + n) (store_word_le (load_word_at m (inp + n) XOR load_word_at m (iv + n)))) [0, 8] m"

text \<open>The loop over its bytes, for platforms with strict alignment.\<close>

definition xor_block_bytes :: "mem \<Rightarrow> nat \<Rightarrow> nat \<Rightarrow> nat \<Rightarrow> mem" where
  "xor_block_bytes m out inp iv = fold (\<lambda>n m. m(out + n := m (inp + n) XOR m (iv + n))) [0..<16] m"

function cbc_enc_blocks ::
    "block_fn \<Rightarrow> mem \<Rightarrow> nat \<Rightarrow> nat \<Rightarrow> nat \<Rightarrow> nat \<Rightarrow> mem \<times> nat \<times> nat \<times> nat \<times> nat" where
  "cbc_enc_blocks block m inp out iv len =
     (if len < 16 then (m, inp, out, iv, len)
      else
        let m = xor_block m out inp iv;
            m = store_bytes m out (block (load_bytes m out 16)) in
        cbc_enc_blocks block m (inp + 16) (out + 16) out (len - 16))"
  by pat_completeness auto

termination by (relation "measure (\<lambda>(block, m, inp, out, iv, len). len)") auto

declare cbc_enc_blocks.simps [simp del]

text \<open>The last block, filled up with the vector; the memory and the vector.\<close>

function cbc_enc_rest :: "block_fn \<Rightarrow> mem \<Rightarrow> nat \<Rightarrow> nat \<Rightarrow> nat \<Rightarrow> nat \<Rightarrow> mem \<times> nat" where
  "cbc_enc_rest block m inp out iv len =
     (if len = 0 then (m, iv)
      else
        let m = fold (\<lambda>n m. m(out + n := (if n < len then m (inp + n) XOR m (iv + n) else m (iv + n)))) [0..<16] m;
            m = store_bytes m out (block (load_bytes m out 16)) in
        if len \<le> 16 then (m, out)
        else cbc_enc_rest block m (inp + 16) (out + 16) out (len - 16))"
  by pat_completeness auto

termination by (relation "measure (\<lambda>(block, m, inp, out, iv, len). len)") auto

declare cbc_enc_rest.simps [simp del]

definition CRYPTO_cbc128_encrypt :: "block_fn \<Rightarrow> mem \<Rightarrow> nat \<Rightarrow> nat \<Rightarrow> nat \<Rightarrow> nat \<Rightarrow> mem" where
  "CRYPTO_cbc128_encrypt block m inp out len ivp =
     (let (m, inp, out, iv, len) = cbc_enc_blocks block m inp out ivp len;
          (m, iv) = cbc_enc_rest block m inp out iv len in
      store_bytes m ivp (load_bytes m iv 16))"

text \<open>Decryption right into the output: the vector is the input block before.\<close>

function cbc_dec_direct ::
    "block_fn \<Rightarrow> mem \<Rightarrow> nat \<Rightarrow> nat \<Rightarrow> nat \<Rightarrow> nat \<Rightarrow> mem \<times> nat \<times> nat \<times> nat \<times> nat" where
  "cbc_dec_direct block m inp out iv len =
     (if len < 16 then (m, inp, out, iv, len)
      else
        let m = store_bytes m out (block (load_bytes m inp 16));
            m = xor_block m out out iv in
        cbc_dec_direct block m (inp + 16) (out + 16) inp (len - 16))"
  by pat_completeness auto

termination by (relation "measure (\<lambda>(block, m, inp, out, iv, len). len)") auto

declare cbc_dec_direct.simps [simp del]

text \<open>Decryption to a temporary block; the vector is kept in the array at \<open>ivp\<close>.\<close>

definition cbc_dec_words :: "u8 list \<Rightarrow> nat \<Rightarrow> nat \<Rightarrow> nat \<Rightarrow> mem \<Rightarrow> mem" where
  "cbc_dec_words tmp inp out ivp m =
     fold (\<lambda>n m.
       let c = load_word_at m (inp + n);
           m = store_bytes m (out + n) (store_word_le (load_word_le tmp n XOR load_word_at m (ivp + n))) in
       store_bytes m (ivp + n) (store_word_le c)) [0, 8] m"

function cbc_dec_tmp :: "block_fn \<Rightarrow> mem \<Rightarrow> nat \<Rightarrow> nat \<Rightarrow> nat \<Rightarrow> nat \<Rightarrow> mem \<times> nat \<times> nat \<times> nat" where
  "cbc_dec_tmp block m inp out ivp len =
     (if len < 16 then (m, inp, out, len)
      else
        let tmp = block (load_bytes m inp 16);
            m = cbc_dec_words tmp inp out ivp m in
        cbc_dec_tmp block m (inp + 16) (out + 16) ivp (len - 16))"
  by pat_completeness auto

termination by (relation "measure (\<lambda>(block, m, inp, out, ivp, len). len)") auto

declare cbc_dec_tmp.simps [simp del]

text \<open>The first \<open>k\<close> bytes of a block: all of them with strict alignment, what is left otherwise.\<close>

definition cbc_dec_bytes :: "u8 list \<Rightarrow> nat \<Rightarrow> nat \<Rightarrow> nat \<Rightarrow> nat \<Rightarrow> mem \<Rightarrow> mem" where
  "cbc_dec_bytes tmp inp out ivp k m =
     fold (\<lambda>n m. let c = m (inp + n); m = m(out + n := tmp ! n XOR m (ivp + n)) in m(ivp + n := c)) [0..<k] m"

function cbc_dec_rest :: "block_fn \<Rightarrow> mem \<Rightarrow> nat \<Rightarrow> nat \<Rightarrow> nat \<Rightarrow> nat \<Rightarrow> mem" where
  "cbc_dec_rest block m inp out ivp len =
     (if len = 0 then m
      else
        let tmp = block (load_bytes m inp 16);
            m = cbc_dec_bytes tmp inp out ivp (min 16 len) m in
        if len \<le> 16 then fold (\<lambda>n m. m(ivp + n := m (inp + n))) [min 16 len..<16] m
        else cbc_dec_rest block m (inp + 16) (out + 16) ivp (len - 16))"
  by pat_completeness auto

termination by (relation "measure (\<lambda>(block, m, inp, out, ivp, len). len)") auto

declare cbc_dec_rest.simps [simp del]

definition CRYPTO_cbc128_decrypt :: "block_fn \<Rightarrow> mem \<Rightarrow> nat \<Rightarrow> nat \<Rightarrow> nat \<Rightarrow> nat \<Rightarrow> mem" where
  "CRYPTO_cbc128_decrypt block m inp out len ivp =
     (let (m, inp, out, len) =
        (if 32 \<le> inp \<and> out \<le> inp - 32 \<or> inp < out then
           let (m, inp, out, iv, len) = cbc_dec_direct block m inp out ivp len in
           (store_bytes m ivp (load_bytes m iv 16), inp, out, len)
         else cbc_dec_tmp block m inp out ivp len) in
      cbc_dec_rest block m inp out ivp len)"

section \<open>Chaining on lists\<close>

definition pad16 :: "u8 list \<Rightarrow> u8 list" where
  "pad16 xs = take 16 xs @ replicate (16 - length xs) 0"

function cbc_encrypted :: "block_fn \<Rightarrow> u8 list \<Rightarrow> u8 list \<Rightarrow> u8 list" where
  "cbc_encrypted block iv xs =
     (if xs = [] then []
      else let c = block (map2 (XOR) (pad16 xs) iv) in c @ cbc_encrypted block c (drop 16 xs))"
  by pat_completeness auto

termination by (relation "measure (\<lambda>(block, iv, xs). length xs)") auto

function cbc_decrypted :: "block_fn \<Rightarrow> u8 list \<Rightarrow> u8 list \<Rightarrow> u8 list" where
  "cbc_decrypted block iv cs =
     (if cs = [] then []
      else map2 (XOR) (block (take 16 cs)) iv @ cbc_decrypted block (take 16 cs) (drop 16 cs))"
  by pat_completeness auto

termination by (relation "measure (\<lambda>(block, iv, cs). length cs)") auto

declare cbc_encrypted.simps [simp del] cbc_decrypted.simps [simp del]

text \<open>Whole blocks.\<close>

definition padded :: "nat \<Rightarrow> nat" where
  "padded n = 16 * ((n + 15) div 16)"

lemma padded_simps [simp]: "padded 0 = 0" "16 \<le> n \<Longrightarrow> padded n = 16 + padded (n - 16)"
  "0 < n \<Longrightarrow> n \<le> 16 \<Longrightarrow> padded n = 16"
proof -
  show "padded 0 = 0" by (simp add: padded_def)
  show "padded n = 16 + padded (n - 16)" if "16 \<le> n"
  proof -
    have "n + 15 = (n - 16 + 15) + 16" using that by simp
    then show ?thesis unfolding padded_def by (simp only: div_add_self2) simp
  qed
  show "padded n = 16" if "0 < n" "n \<le> 16"
    using that div_nat_eqI [of 16 1 "n + 15"] by (simp add: padded_def)
qed

lemma padded_ge: "n \<le> padded n"
  unfolding padded_def by linarith

lemma length_pad16 [simp]: "length (pad16 xs) = 16"
  by (simp add: pad16_def)

lemma cbc_list_roundtrip:
  assumes "block_ok e" "\<And>x. length x = 16 \<Longrightarrow> d (e x) = x"
  shows "length iv = 16 \<Longrightarrow> length (cbc_encrypted e iv xs) = padded (length xs) \<and>
    cbc_decrypted d iv (cbc_encrypted e iv xs) = xs @ replicate (padded (length xs) - length xs) 0"
proof (induction "length xs" arbitrary: iv xs rule: less_induct)
  case less
  show ?case
  proof (cases "xs = []")
    case False
    define c where "c = e (map2 (XOR) (pad16 xs) iv)"
    have c: "length c = 16" using assms(1) less.prems by (simp add: c_def block_ok_def)
    have dc: "map2 (XOR) (d c) iv = pad16 xs"
      using assms(2) less.prems by (auto simp: c_def xor.assoc intro!: nth_equalityI)
    have "length (drop 16 xs) < length xs" using False by simp
    note ih = less.hyps [OF this c]
    have en: "cbc_encrypted e iv xs = c @ cbc_encrypted e c (drop 16 xs)"
      using False by (subst cbc_encrypted.simps) (simp add: c_def Let_def)
    have de: "cbc_decrypted d iv (c @ cs) = pad16 xs @ cbc_decrypted d c cs" for cs
      using c dc by (subst cbc_decrypted.simps) auto
    show ?thesis
    proof (cases "16 \<le> length xs")
      case True
      then show ?thesis
        using ih c unfolding en de by (simp add: pad16_def add.commute append_assoc [symmetric] del: append_assoc)
    next
      case short: False
      then show ?thesis
        using ih c False unfolding en de by (simp add: pad16_def cbc_encrypted.simps [of e c "[]"] cbc_decrypted.simps [of d c "[]"])
    qed
  qed (simp add: cbc_encrypted.simps cbc_decrypted.simps)
qed

section \<open>Memory\<close>

lemma xor_words_at:
  "store_word_le (load_word_at m a XOR load_word_at m b) = map2 (XOR) (load_bytes m a 8) (load_bytes m b 8)"
  using store_load_word [of 0 "load_bytes m a 8"] store_load_word [of 0 "load_bytes m b 8"]
  by (simp add: store_word_le_def load_word_at_def le_bytes_xor)

lemma map2_append: "length a = length b \<Longrightarrow> map2 f (a @ a') (b @ b') = map2 f a b @ map2 f a' b'"
  by simp

lemma load_block_split: "load_bytes m a 16 = load_bytes m a 8 @ load_bytes m (a + 8) 8"
  using load_bytes_add [of m a 8 8] by simp

lemma xor_block_eq:
  assumes "out \<le> inp \<or> inp + 16 \<le> out" "out + 16 \<le> iv \<or> iv + 16 \<le> out"
  shows "xor_block m out inp iv = store_bytes m out (map2 (XOR) (load_bytes m inp 16) (load_bytes m iv 16))"
proof -
  define w where "w = map2 (XOR) (load_bytes m inp 8) (load_bytes m iv 8)"
  have "load_bytes (store_bytes m out w) (inp + 8) 8 = load_bytes m (inp + 8) 8"
    "load_bytes (store_bytes m out w) (iv + 8) 8 = load_bytes m (iv + 8) 8"
    using assms by (auto intro!: load_store_disjoint simp: w_def)
  then show ?thesis
    unfolding load_block_split [of m] by (simp add: xor_block_def xor_words_at store_bytes_append w_def)
qed


section \<open>Encryption\<close>

text \<open>The two loops together.\<close>

definition cbc_enc_run :: "block_fn \<Rightarrow> mem \<Rightarrow> nat \<Rightarrow> nat \<Rightarrow> nat \<Rightarrow> nat \<Rightarrow> mem \<times> nat" where
  "cbc_enc_run block m inp out iv len =
     (let (m, inp, out, iv, len) = cbc_enc_blocks block m inp out iv len in cbc_enc_rest block m inp out iv len)"

lemma cbc_enc_pad:
  assumes "0 < len" "len \<le> 16" "out \<le> inp \<or> inp + len \<le> out" "out + 16 \<le> iv \<or> iv + 16 \<le> out"
  shows "fold (\<lambda>n m. m(out + n := (if n < len then m (inp + n) XOR m (iv + n) else m (iv + n)))) [0..<16] m =
    store_bytes m out (map2 (XOR) (pad16 (load_bytes m inp len)) (load_bytes m iv 16))"
proof -
  define xs where "xs = map2 (XOR) (pad16 (load_bytes m inp len)) (load_bytes m iv 16)"
  have nth: "xs ! n = (if n < len then m (inp + n) XOR m (iv + n) else m (iv + n))" if "n < 16" for n
    using that assms(2) by (simp add: xs_def pad16_def nth_append)
  define f where "f = (\<lambda>n m. m(out + n := (if n < len then m (inp + n) XOR m (iv + n) else m (iv + n) :: u8)))"
  have "fold f [0..<k] m = store_bytes m out (take k xs)" if "k \<le> 16" for k
    using that
  proof (induction k)
    case (Suc k)
    have "store_bytes m out (take k xs) (inp + k) = m (inp + k)" if "k < len"
      using assms(3) that by (intro store_bytes_outside) (auto simp: xs_def)
    moreover have "store_bytes m out (take k xs) (iv + k) = m (iv + k)"
      using assms(4) Suc.prems by (intro store_bytes_outside) (auto simp: xs_def)
    ultimately have "f k (store_bytes m out (take k xs)) = (store_bytes m out (take k xs))(out + k := xs ! k)"
      using Suc.prems nth [of k] by (simp only: f_def) auto
    moreover have "length (take k xs) = k" "take (Suc k) xs = take k xs @ [xs ! k]"
      using Suc.prems by (simp_all add: xs_def take_Suc_conv_app_nth)
    ultimately show ?case using Suc by (simp add: store_bytes_snoc)
  qed simp
  from this [of 16] show ?thesis by (simp add: xs_def f_def)
qed

lemma cbc_enc_run_step:
  assumes "block_ok block" "0 < len" "out \<le> inp \<or> inp + len \<le> out" "out + 16 \<le> iv \<or> iv + 16 \<le> out"
    and c_def: "c = block (map2 (XOR) (pad16 (load_bytes m inp len)) (load_bytes m iv 16))"
  shows "cbc_enc_run block m inp out iv len =
    (if len \<le> 16 then (store_bytes m out c, out)
     else cbc_enc_run block (store_bytes m out c) (inp + 16) (out + 16) out (len - 16))"
proof (cases "16 \<le> len")
  case True
  define x where "x = map2 (XOR) (load_bytes m inp 16) (load_bytes m iv 16)"
  have x: "length x = 16" "pad16 (load_bytes m inp len) = load_bytes m inp 16"
    using True by (simp_all add: pad16_def x_def)
  then have c: "c = block x" "length c = 16"
    using assms(1) by (simp_all add: c_def x_def block_ok_def)
  have "xor_block m out inp iv = store_bytes m out x"
    unfolding x_def using assms(3,4) True by (intro xor_block_eq) auto
  moreover have "load_bytes (store_bytes m out x) out 16 = x"
    using load_store_same [of m out x] x by simp
  ultimately have "cbc_enc_blocks block m inp out iv len =
      cbc_enc_blocks block (store_bytes m out c) (inp + 16) (out + 16) out (len - 16)"
    using True c x by (simp add: cbc_enc_blocks.simps [of block m inp out iv len] Let_def store_bytes_over)
  then show ?thesis
    using True by (auto simp: cbc_enc_run_def cbc_enc_blocks.simps [of _ _ _ _ _ 0] cbc_enc_rest.simps [of _ _ _ _ _ 0])
next
  case False
  define x where "x = map2 (XOR) (pad16 (load_bytes m inp len)) (load_bytes m iv 16)"
  have x: "length x = 16" by (simp add: x_def)
  then have c: "c = block x" "length c = 16"
    using assms(1) by (simp_all add: c_def x_def block_ok_def)
  have "load_bytes (store_bytes m out x) out 16 = x" using load_store_same [of m out x] x by simp
  then have "cbc_enc_rest block m inp out iv len = (store_bytes m out c, out)"
    using assms(2) False c x cbc_enc_pad [OF assms(2) _ assms(3,4), of m, folded x_def]
    by (simp only: cbc_enc_rest.simps [of block m inp out iv len] Let_def) (simp add: store_bytes_over)
  then show ?thesis
    using False by (simp add: cbc_enc_run_def cbc_enc_blocks.simps [of block m inp out iv len])
qed

lemma cbc_enc_run_eq:
  "block_ok block \<Longrightarrow> out \<le> inp \<or> inp + len \<le> out \<Longrightarrow> out + padded len \<le> iv \<or> iv + 16 \<le> out \<Longrightarrow>
    cbc_enc_run block m inp out iv len =
      (store_bytes m out (cbc_encrypted block (load_bytes m iv 16) (load_bytes m inp len)),
       if len = 0 then iv else out + padded len - 16)"
proof (induction len arbitrary: m inp out iv rule: less_induct)
  case (less len)
  define c where "c = block (map2 (XOR) (pad16 (load_bytes m inp len)) (load_bytes m iv 16))"
  have c: "length c = 16" using less.prems(1) by (simp add: c_def block_ok_def)
  show ?case
  proof (cases "len = 0")
    case True
    then show ?thesis
      by (simp add: cbc_enc_run_def cbc_enc_blocks.simps [of _ _ _ _ _ 0] cbc_enc_rest.simps [of _ _ _ _ _ 0] cbc_encrypted.simps)
  next
    case False
    have "out + 16 \<le> iv \<or> iv + 16 \<le> out"
      using less.prems(3) padded_ge [of len] False by (cases "16 \<le> len") auto
    then have step: "cbc_enc_run block m inp out iv len = (if len \<le> 16 then (store_bytes m out c, out)
        else cbc_enc_run block (store_bytes m out c) (inp + 16) (out + 16) out (len - 16))"
      using less.prems False cbc_enc_run_step [of block len out inp iv c m] by (simp add: c_def)
    have en: "cbc_encrypted block (load_bytes m iv 16) (load_bytes m inp len) =
        c @ cbc_encrypted block c (load_bytes m (inp + 16) (len - 16))"
      using False by (subst cbc_encrypted.simps) (simp add: c_def Let_def)
    show ?thesis
    proof (cases "len \<le> 16")
      case True
      then show ?thesis using step en False by (simp add: cbc_encrypted.simps)
    next
      case long: False
      have "load_bytes (store_bytes m out c) (inp + 16) (len - 16) = load_bytes m (inp + 16) (len - 16)"
        using less.prems(2) c long by (intro load_store_disjoint) auto
      moreover have "load_bytes (store_bytes m out c) out 16 = c"
        using load_store_same [of m out c] c by simp
      ultimately show ?thesis
        using less.IH [of "len - 16" "out + 16" "inp + 16" out "store_bytes m out c"] less.prems long step c
        unfolding en by (auto simp: store_bytes_append)
    qed
  qed
qed


theorem cbc_encrypt_eq:
  assumes "block_ok block" "out \<le> inp \<or> inp + len \<le> out" "out + padded len \<le> ivp \<or> ivp + 16 \<le> out"
  shows "CRYPTO_cbc128_encrypt block m inp out len ivp =
    (let c = cbc_encrypted block (load_bytes m ivp 16) (load_bytes m inp len);
         m = store_bytes m out c in
     store_bytes m ivp (load_bytes m (if len = 0 then ivp else out + padded len - 16) 16))"
proof -
  have "CRYPTO_cbc128_encrypt block m inp out len ivp =
      (case cbc_enc_run block m inp out ivp len of (m, iv) \<Rightarrow> store_bytes m ivp (load_bytes m iv 16))"
    by (simp add: CRYPTO_cbc128_encrypt_def cbc_enc_run_def split: prod.split)
  then show ?thesis using cbc_enc_run_eq [OF assms, of m] by (simp add: Let_def)
qed

section \<open>Decryption\<close>

lemma length_cbc_decrypted: "block_ok block \<Longrightarrow> length iv = 16 \<Longrightarrow> length cs = 16 * k \<Longrightarrow> length (cbc_decrypted block iv cs) = 16 * k"
proof (induction k arbitrary: iv cs)
  case (Suc k)
  then show ?case
    using Suc.IH [of "take 16 cs" "drop 16 cs"]
    by (subst cbc_decrypted.simps) (auto simp: block_ok_def)
qed (simp add: cbc_decrypted.simps)

lemma cbc_decrypted_block:
  "length c = 16 \<Longrightarrow> cbc_decrypted block iv (c @ cs) = map2 (XOR) (block c) iv @ cbc_decrypted block c cs"
  by (subst cbc_decrypted.simps) auto

text \<open>The vector behind \<open>n\<close> bytes of whole blocks.\<close>

definition chain_end :: "mem \<Rightarrow> nat \<Rightarrow> nat \<Rightarrow> nat \<Rightarrow> u8 list" where
  "chain_end m inp ivp n = (if n = 0 then load_bytes m ivp 16 else load_bytes m (inp + n - 16) 16)"

lemma cbc_decrypted_append:
  "cbc_decrypted block (load_bytes m ivp 16) (load_bytes m inp (16 * k + n)) =
    cbc_decrypted block (load_bytes m ivp 16) (load_bytes m inp (16 * k)) @
    cbc_decrypted block (chain_end m inp ivp (16 * k)) (load_bytes m (inp + 16 * k) n)"
proof (induction k arbitrary: ivp inp)
  case (Suc k)
  have s: "load_bytes m inp (16 * Suc k + j) = load_bytes m inp 16 @ load_bytes m (inp + 16) (16 * k + j)" for j
    using load_bytes_add [of m inp 16 "16 * k + j"] by (simp add: add.assoc)
  have "chain_end m (inp + 16) inp (16 * k) = chain_end m inp ivp (16 * Suc k)" by (auto simp: chain_end_def)
  then show ?case
    using Suc.IH [of inp "inp + 16"] s [of n] s [of 0] by (simp add: cbc_decrypted_block add.assoc)
qed (simp add: cbc_decrypted.simps [of _ _ "[]"] chain_end_def)

lemma cbc_dec_direct_eq:
  assumes "block_ok block" "r < 16"
  shows "out + 32 \<le> inp \<or> inp + 16 * k \<le> out \<Longrightarrow> out + 16 \<le> iv \<or> iv + 16 \<le> out \<or> k = 0 \<Longrightarrow>
    cbc_dec_direct block m inp out iv (16 * k + r) =
      (store_bytes m out (cbc_decrypted block (load_bytes m iv 16) (load_bytes m inp (16 * k))),
       inp + 16 * k, out + 16 * k, if k = 0 then iv else inp + 16 * k - 16, r)"
proof (induction k arbitrary: m inp out iv)
  case 0
  then show ?case using assms(2) by (simp add: cbc_dec_direct.simps [of _ _ _ _ _ r] cbc_decrypted.simps)
next
  case (Suc k)
  define t where "t = block (load_bytes m inp 16)"
  define x where "x = map2 (XOR) t (load_bytes m iv 16)"
  have l: "length t = 16" "length x = 16" using assms(1) by (simp_all add: t_def x_def block_ok_def)
  have "load_bytes (store_bytes m out t) out 16 = t" using load_store_same [of m out t] l by simp
  moreover have "load_bytes (store_bytes m out t) iv 16 = load_bytes m iv 16"
    using Suc.prems l by (intro load_store_disjoint) auto
  ultimately have "xor_block (store_bytes m out t) out out iv = store_bytes m out x"
    using Suc.prems l xor_block_eq [of out out iv "store_bytes m out t"] by (simp add: store_bytes_over x_def)
  then have step: "cbc_dec_direct block m inp out iv (16 * Suc k + r) =
      cbc_dec_direct block (store_bytes m out x) (inp + 16) (out + 16) inp (16 * k + r)"
    using assms(2) by (simp add: cbc_dec_direct.simps [of block m inp out iv] Let_def t_def)
  have keep: "load_bytes (store_bytes m out x) inp 16 = load_bytes m inp 16"
    "load_bytes (store_bytes m out x) (inp + 16) (16 * k) = load_bytes m (inp + 16) (16 * k)"
    using Suc.prems l by (auto intro!: load_store_disjoint)
  have "cbc_decrypted block (load_bytes m iv 16) (load_bytes m inp (16 * Suc k)) =
      x @ cbc_decrypted block (load_bytes m inp 16) (load_bytes m (inp + 16) (16 * k))"
    using load_bytes_add [of m inp 16 "16 * k"] by (simp add: cbc_decrypted_block x_def t_def)
  then show ?case
    using Suc.IH [of "out + 16" "inp + 16" inp "store_bytes m out x"] Suc.prems l keep unfolding step
    by (auto simp: store_bytes_append)
qed

lemma cbc_dec_words_eq:
  assumes "length tmp = 16" "out \<le> inp \<or> inp + 16 \<le> out"
    "out + 16 \<le> ivp \<or> ivp + 16 \<le> out" "inp + 16 \<le> ivp \<or> ivp + 16 \<le> inp"
  shows "cbc_dec_words tmp inp out ivp m =
    store_bytes (store_bytes m out (map2 (XOR) tmp (load_bytes m ivp 16))) ivp (load_bytes m inp 16)"
proof -
  have word: "store_word_le (load_word_le tmp n XOR load_word_at m a) = map2 (XOR) (take 8 (drop n tmp)) (load_bytes m a 8)"
    "store_word_le (load_word_at m a) = load_bytes m a 8" if "n + 8 \<le> 16" for n m a
    using that assms(1) store_load_word [of n tmp] store_load_word [of 0 "load_bytes m a 8"]
    by (simp_all add: store_word_le_def load_word_at_def le_bytes_xor)
  define w0 where "w0 = map2 (XOR) (take 8 tmp) (load_bytes m ivp 8)"
  define w1 where "w1 = map2 (XOR) (take 8 (drop 8 tmp)) (load_bytes m (ivp + 8) 8)"
  have l: "length w0 = 8" "length w1 = 8" using assms(1) by (simp_all add: w0_def w1_def)
  define m2 where "m2 = store_bytes (store_bytes m out w0) ivp (load_bytes m inp 8)"
  have m2: "load_bytes m2 (inp + 8) 8 = load_bytes m (inp + 8) 8" "load_bytes m2 (ivp + 8) 8 = load_bytes m (ivp + 8) 8"
    unfolding m2_def using assms(2-4) l
    by (auto simp: load_store_disjoint)
  have x: "map2 (XOR) tmp (load_bytes m ivp 16) = w0 @ w1"
    using assms(1) append_take_drop_id [of 8 tmp] map2_append [of "take 8 tmp" "load_bytes m ivp 8" "(XOR)" "drop 8 tmp"]
    unfolding load_block_split w0_def w1_def by simp
  have "store_bytes (store_bytes m2 (out + 8) w1) (ivp + 8) (load_bytes m (inp + 8) 8) =
      store_bytes (store_bytes m out (w0 @ w1)) ivp (load_bytes m inp 16)"
    using assms(3) l store_bytes_commute [of ivp "load_bytes m inp 8" "out + 8" w1 "store_bytes m out w0"]
    unfolding load_block_split m2_def by (auto simp: store_bytes_append)
  moreover have "load_bytes (store_bytes m out w0) ivp 8 = load_bytes m ivp 8"
    using assms(3) l by (intro load_store_disjoint) auto
  ultimately show ?thesis
    unfolding x cbc_dec_words_def using word [of 0 m] word [of 8 m2] m2 by (simp add: Let_def w0_def [symmetric] w1_def [symmetric] m2_def [symmetric])
qed

lemma cbc_dec_tmp_eq:
  assumes "block_ok block" "r < 16"
  shows "out \<le> inp \<or> inp + 16 * k \<le> out \<Longrightarrow> out + 16 * k \<le> ivp \<or> ivp + 16 \<le> out \<Longrightarrow>
    inp + 16 * k \<le> ivp \<or> ivp + 16 \<le> inp \<Longrightarrow>
    cbc_dec_tmp block m inp out ivp (16 * k + r) =
      (store_bytes (store_bytes m out (cbc_decrypted block (load_bytes m ivp 16) (load_bytes m inp (16 * k))))
         ivp (chain_end m inp ivp (16 * k)), inp + 16 * k, out + 16 * k, r)"
proof (induction k arbitrary: m inp out)
  case 0
  have "store_bytes m ivp (load_bytes m ivp 16) = m" by (rule ext) (auto simp: store_bytes_def)
  then show ?case using assms(2) by (simp add: cbc_dec_tmp.simps [of _ _ _ _ _ r] cbc_decrypted.simps chain_end_def)
next
  case (Suc k)
  define t where "t = block (load_bytes m inp 16)"
  define x where "x = map2 (XOR) t (load_bytes m ivp 16)"
  define m2 where "m2 = store_bytes (store_bytes m out x) ivp (load_bytes m inp 16)"
  define y where "y = cbc_decrypted block (load_bytes m inp 16) (load_bytes m (inp + 16) (16 * k))"
  have l: "length t = 16" "length x = 16" using assms(1) by (simp_all add: t_def x_def block_ok_def)
  have y: "length y = 16 * k" using assms(1) by (simp add: y_def length_cbc_decrypted)
  have step: "cbc_dec_tmp block m inp out ivp (16 * Suc k + r) =
      cbc_dec_tmp block m2 (inp + 16) (out + 16) ivp (16 * k + r)"
    using cbc_dec_words_eq [of t out inp ivp m] Suc.prems l assms(2)
    by (auto simp: cbc_dec_tmp.simps [of block m inp out ivp] Let_def t_def [symmetric] x_def [symmetric] m2_def)
  have keep1: "load_bytes m2 ivp 16 = load_bytes m inp 16"
    using load_store_same [of "store_bytes m out x" ivp "load_bytes m inp 16"] by (simp add: m2_def)
  have keep2: "load_bytes m2 (inp + 16) n = load_bytes m (inp + 16) n" if "n \<le> 16 * k" for n
    using Suc.prems l that unfolding m2_def by (auto simp: load_store_disjoint)
  have last: "chain_end m2 (inp + 16) ivp (16 * k) = chain_end m inp ivp (16 * Suc k)"
  proof (cases k)
    case 0
    then show ?thesis using keep1 by (simp add: chain_end_def)
  next
    case (Suc j)
    have "load_bytes m2 (inp + 16 + 16 * j) 16 = load_bytes m (inp + 16 + 16 * j) 16"
      using keep2 [of "16 * j + 16"] Suc load_bytes_add [of m2 "inp + 16" "16 * j" 16] load_bytes_add [of m "inp + 16" "16 * j" 16]
      by simp
    then show ?thesis using Suc by (simp add: chain_end_def ac_simps)
  qed
  have dec: "cbc_decrypted block (load_bytes m ivp 16) (load_bytes m inp (16 * Suc k)) = x @ y"
    using load_bytes_add [of m inp 16 "16 * k"] by (simp add: cbc_decrypted_block x_def t_def y_def)
  have "cbc_dec_tmp block m2 (inp + 16) (out + 16) ivp (16 * k + r) =
      (store_bytes (store_bytes m2 (out + 16) y) ivp (chain_end m2 (inp + 16) ivp (16 * k)), inp + 16 + 16 * k, out + 16 + 16 * k, r)"
    using Suc.IH [of "out + 16" "inp + 16" m2] Suc.prems keep1 keep2 [of "16 * k"] by (auto simp: y_def)
  moreover have "store_bytes m2 (out + 16) y = store_bytes (store_bytes (store_bytes m out x) (out + 16) y) ivp (load_bytes m inp 16)"
    unfolding m2_def using Suc.prems y by (intro store_bytes_commute) auto
  ultimately show ?case
    unfolding step dec last by (simp add: store_bytes_over chain_end_def store_bytes_append l ac_simps)
qed

lemma cbc_dec_bytes_eq:
  assumes "length t = 16" "r \<le> 16" "out \<le> inp \<or> inp + 16 \<le> out"
    "out + r \<le> ivp \<or> ivp + 16 \<le> out" "inp + 16 \<le> ivp \<or> ivp + 16 \<le> inp" "k \<le> r"
  shows "cbc_dec_bytes t inp out ivp k m =
    store_bytes (store_bytes m out (take k (map2 (XOR) t (load_bytes m ivp 16)))) ivp (take k (load_bytes m inp 16))"
  using assms(6)
proof (induction k)
  case (Suc k)
  define x where "x = map2 (XOR) t (load_bytes m ivp 16)"
  define c where "c = load_bytes m inp 16"
  define s where "s = store_bytes (store_bytes m out (take k x)) ivp (take k c)"
  have l: "length x = 16" "length c = 16" "k < 16" using assms(1,2) Suc.prems by (simp_all add: x_def c_def)
  have ivp: "s (ivp + k) = m (ivp + k)"
    unfolding s_def using assms(4) Suc.prems l by (subst store_bytes_outside; (intro store_bytes_outside)?; auto)
  have "s (inp + k) = store_bytes m out (take k x) (inp + k)"
    unfolding s_def using assms(5) l by (intro store_bytes_outside) auto
  also have "\<dots> = c ! k" using assms(3) l by (subst store_bytes_outside) (auto simp: c_def)
  finally have "cbc_dec_bytes t inp out ivp (Suc k) m = s(out + k := x ! k, ivp + k := c ! k)"
    using Suc l ivp assms(1) by (simp add: cbc_dec_bytes_def x_def [symmetric] c_def [symmetric] s_def [symmetric] Let_def)
      (simp add: x_def)
  moreover have "s(out + k := x ! k) = store_bytes (store_bytes m out (take (Suc k) x)) ivp (take k c)"
    using Suc.prems assms(4) l unfolding s_def
    by (auto simp: take_Suc_conv_app_nth store_bytes_snoc fun_eq_iff store_bytes_def nth_append)
  ultimately show ?case
    using l by (simp add: take_Suc_conv_app_nth [of k c] store_bytes_snoc x_def [symmetric] c_def [symmetric])
qed (simp add: cbc_dec_bytes_def)

text \<open>Whatever the alignment, the loops over a block do the same.\<close>

lemma block_bytes_words:
  "out \<le> inp \<or> inp + 16 \<le> out \<Longrightarrow> out + 16 \<le> iv \<or> iv + 16 \<le> out \<Longrightarrow> xor_block_bytes m out inp iv = xor_block m out inp iv"
  "length tmp = 16 \<Longrightarrow> out \<le> inp \<or> inp + 16 \<le> out \<Longrightarrow>
    out + 16 \<le> ivp \<or> ivp + 16 \<le> out \<Longrightarrow> inp + 16 \<le> ivp \<or> ivp + 16 \<le> inp \<Longrightarrow>
    cbc_dec_bytes tmp inp out ivp 16 m = cbc_dec_words tmp inp out ivp m"
proof -
  assume a: "out \<le> inp \<or> inp + 16 \<le> out" "out + 16 \<le> iv \<or> iv + 16 \<le> out"
  have "xor_block_bytes m out inp iv =
      fold (\<lambda>n m. m(out + n := (if n < 16 then m (inp + n) XOR m (iv + n) else m (iv + n)))) [0..<16] m"
    unfolding xor_block_bytes_def by (intro fold_cong) auto
  then show "xor_block_bytes m out inp iv = xor_block m out inp iv"
    using a cbc_enc_pad [of 16 out inp iv m] by (simp add: xor_block_eq pad16_def)
qed (simp add: cbc_dec_bytes_eq [where r = 16] cbc_dec_words_eq)

lemma cbc_dec_rest_eq:
  assumes "block_ok block" "0 < r" "r < 16" "out \<le> inp \<or> inp + 16 \<le> out"
    "out + r \<le> ivp \<or> ivp + 16 \<le> out" "inp + 16 \<le> ivp \<or> ivp + 16 \<le> inp"
  shows "cbc_dec_rest block m inp out ivp r =
    store_bytes (store_bytes m out (take r (map2 (XOR) (block (load_bytes m inp 16)) (load_bytes m ivp 16)))) ivp (load_bytes m inp 16)"
proof -
  define t where "t = block (load_bytes m inp 16)"
  define c where "c = load_bytes m inp 16"
  have l: "length t = 16" "length c = 16" using assms(1) by (simp_all add: t_def c_def block_ok_def)
  define y where "y = take r (map2 (XOR) t (load_bytes m ivp 16))"
  define g where "g = (\<lambda>n m. m(ivp + n := m (inp + n) :: u8))"
  define st where "st = (\<lambda>k. store_bytes (store_bytes m out y) ivp (take k c))"
  have y: "length y = r" using assms(3) l by (simp add: y_def)
  have g: "fold g [r..<k] (st r) = st k" if "r \<le> k" "k \<le> 16" for k
    using that
  proof (induction k rule: dec_induct)
    case (step k)
    have "st k (inp + k) = store_bytes m out y (inp + k)"
      unfolding st_def using assms(6) step l by (intro store_bytes_outside) auto
    also have "\<dots> = c ! k" using assms(4) step y by (subst store_bytes_outside) (auto simp: c_def)
    finally have "g k (st k) = (st k)(ivp + k := c ! k)" by (simp add: g_def)
    also have "\<dots> = st (Suc k)"
      using step l by (simp add: st_def take_Suc_conv_app_nth [of k c] store_bytes_snoc)
    finally show ?case using step by simp
  qed simp
  have "cbc_dec_rest block m inp out ivp r = fold g [r..<16] (cbc_dec_bytes t inp out ivp r m)"
    using assms(2,3) by (simp only: cbc_dec_rest.simps [of block m inp out ivp r] Let_def g_def t_def) simp
  also have "\<dots> = fold g [r..<16] (st r)"
    using cbc_dec_bytes_eq [OF l(1) _ assms(4-6), of r] assms(3) by (simp add: st_def y_def c_def)
  also have "\<dots> = st 16" using g [of 16] assms(3) by simp
  finally show ?thesis using l by (simp add: st_def y_def c_def t_def)
qed

text \<open>Both loops and the rest, for every overlap that the assertions of the code allow.\<close>

lemma padded_split: "r < 16 \<Longrightarrow> padded (16 * k + r) = 16 * k + (if r = 0 then 0 else 16)"
proof -
  assume r: "r < 16"
  have "(16 * k + (r + 15)) div 16 = k + (r + 15) div 16" by simp
  moreover have "(r + 15) div 16 = (if r = 0 then 0 else 1)" using r by (auto intro: div_nat_eqI)
  ultimately show ?thesis by (simp add: padded_def add.assoc)
qed

lemma cbc_decrypt_eq:
  assumes "block_ok block" "out \<le> inp \<or> inp + padded len \<le> out"
    "out + len \<le> ivp \<or> ivp + 16 \<le> out" "inp + padded len \<le> ivp \<or> ivp + 16 \<le> inp"
  shows "CRYPTO_cbc128_decrypt block m inp out len ivp =
    store_bytes (store_bytes m out
      (take len (cbc_decrypted block (load_bytes m ivp 16) (load_bytes m inp (padded len)))))
      ivp (chain_end m inp ivp (padded len))"
proof -
  define k where "k = len div 16"
  define r where "r = len mod 16"
  have len: "len = 16 * k + r" "r < 16" by (simp_all add: k_def r_def)
  have p: "padded len = 16 * k + (if r = 0 then 0 else 16)" unfolding len(1) by (rule padded_split [OF len(2)])
  define V where "V = load_bytes m ivp 16"
  define x where "x = cbc_decrypted block V (load_bytes m inp (16 * k))"
  define e where "e = chain_end m inp ivp (16 * k)"
  define m1 where "m1 = store_bytes (store_bytes m out x) ivp e"
  have x: "length x = 16 * k" "length e = 16" using assms(1) by (simp_all add: x_def V_def e_def chain_end_def length_cbc_decrypted)
  have main: "(if 32 \<le> inp \<and> out \<le> inp - 32 \<or> inp < out then
       let (m, inp, out, iv, len) = cbc_dec_direct block m inp out ivp len in
       (store_bytes m ivp (load_bytes m iv 16), inp, out, len)
     else cbc_dec_tmp block m inp out ivp len) = (m1, inp + 16 * k, out + 16 * k, r)"
  proof (cases "32 \<le> inp \<and> out \<le> inp - 32 \<or> inp < out")
    case True
    define iv where "iv = (if k = 0 then ivp else inp + 16 * k - 16)"
    have c: "out + 32 \<le> inp \<or> inp + 16 * k \<le> out" using True assms(2) p by auto
    have "cbc_dec_direct block m inp out ivp len = (store_bytes m out x, inp + 16 * k, out + 16 * k, iv, r)"
      unfolding len(1) iv_def x_def V_def using c assms(3) len by (intro cbc_dec_direct_eq [OF assms(1)]) auto
    moreover have "load_bytes (store_bytes m out x) iv 16 = load_bytes m iv 16"
      using c assms(3) len x by (intro load_store_disjoint) (auto simp: iv_def)
    moreover have "load_bytes m iv 16 = e" by (simp add: iv_def e_def chain_end_def)
    ultimately show ?thesis using True by (simp add: m1_def)
  next
    case False
    then have "cbc_dec_tmp block m inp out ivp len = (m1, inp + 16 * k, out + 16 * k, r)"
      unfolding len(1) m1_def e_def x_def V_def using assms(3,4) p len by (intro cbc_dec_tmp_eq [OF assms(1)]) auto
    then show ?thesis by (simp only: False if_False)
  qed
  have run: "CRYPTO_cbc128_decrypt block m inp out len ivp = cbc_dec_rest block m1 (inp + 16 * k) (out + 16 * k) ivp r"
    unfolding CRYPTO_cbc128_decrypt_def main by simp
  show ?thesis
  proof (cases "r = 0")
    case True
    then show ?thesis
      using run p len x by (simp add: cbc_dec_rest.simps [of _ _ _ _ _ 0] m1_def e_def x_def V_def)
  next
    case False
    define c where "c = load_bytes m (inp + 16 * k) 16"
    define y where "y = map2 (XOR) (block c) e"
    have y: "length y = 16" using assms(1) x by (simp add: y_def c_def block_ok_def)
    have k1: "load_bytes m1 (inp + 16 * k) 16 = c" "load_bytes m1 ivp 16 = e"
      using assms(2-4) p len False x load_store_same [of "store_bytes m out x" ivp e]
      unfolding m1_def c_def by (auto simp: load_store_disjoint)
    have "cbc_dec_rest block m1 (inp + 16 * k) (out + 16 * k) ivp r =
        store_bytes (store_bytes m1 (out + 16 * k) (take r y)) ivp c"
      unfolding y_def k1 [symmetric] using assms p len False by (intro cbc_dec_rest_eq) auto
    also have "store_bytes m1 (out + 16 * k) (take r y) = store_bytes (store_bytes (store_bytes m out x) (out + 16 * k) (take r y)) ivp e"
      unfolding m1_def using assms(3) len x y by (intro store_bytes_commute) auto
    also have "store_bytes (store_bytes m out x) (out + 16 * k) (take r y) = store_bytes m out (x @ take r y)"
      using x by (simp add: store_bytes_append)
    finally have res: "CRYPTO_cbc128_decrypt block m inp out len ivp = store_bytes (store_bytes m out (x @ take r y)) ivp c"
      using run x by (simp add: store_bytes_over c_def)
    have "cbc_decrypted block V (load_bytes m inp (padded len)) = x @ y"
      using p False cbc_decrypted_append [of block m ivp inp k 16] cbc_decrypted_block [of c block e "[]"]
      by (simp add: V_def x_def y_def c_def e_def cbc_decrypted.simps [of _ _ "[]"])
    moreover have "chain_end m inp ivp (padded len) = c" using p False by (simp add: chain_end_def c_def)
    ultimately show ?thesis using res len x by (simp add: V_def)
  qed
qed

section \<open>Round trip\<close>

text \<open>
  C32: What \<open>CRYPTO_cbc128_encrypt\<close> makes of the \<open>len\<close> bytes at \<open>src\<close>, \<open>CRYPTO_cbc128_decrypt\<close> with the inverse
  block function turns back into them, in place or with any overlap in which the output is not ahead of the
  input: right into the output where the input block before is still there, by way of a temporary block
  otherwise. Both vectors end as the last block of ciphertext, and nothing but the outputs and the
  vectors has changed.
\<close>

theorem cbc_roundtrip:
  assumes cipher: "block_ok e" "block_ok d" "\<And>x. length x = 16 \<Longrightarrow> d (e x) = x"
    and overlap: "ct \<le> src \<or> src + len \<le> ct" "out \<le> ct \<or> ct + padded len \<le> out"
    and vectors: "ct + padded len \<le> iv1 \<or> iv1 + 16 \<le> ct" "ct + padded len \<le> iv2 \<or> iv2 + 16 \<le> ct"
      "out + len \<le> iv1 \<or> iv1 + 16 \<le> out" "out + len \<le> iv2 \<or> iv2 + 16 \<le> out" "iv1 + 16 \<le> iv2 \<or> iv2 + 16 \<le> iv1"
      "load_bytes m iv1 16 = load_bytes m iv2 16"
    and m': "m' = CRYPTO_cbc128_decrypt d (CRYPTO_cbc128_encrypt e m src ct len iv1) ct out len iv2"
  shows "load_bytes m' out len = load_bytes m src len \<and> load_bytes m' iv1 16 = load_bytes m' iv2 16 \<and>
    (\<forall>x. x \<notin> {ct..<ct + padded len} \<union> {out..<out + len} \<union> {iv1..<iv1 + 16} \<union> {iv2..<iv2 + 16} \<longrightarrow> m' x = m x)"
proof -
  define V where "V = load_bytes m iv1 16"
  define c where "c = cbc_encrypted e V (load_bytes m src len)"
  define l where "l = load_bytes (store_bytes m ct c) (if len = 0 then iv1 else ct + padded len - 16) 16"
  define m1 where "m1 = store_bytes (store_bytes m ct c) iv1 l"
  have rt: "length c = padded len" "cbc_decrypted d V c = load_bytes m src len @ replicate (padded len - len) 0"
    using cbc_list_roundtrip [OF cipher(1), of d V "load_bytes m src len"] cipher(3) by (simp_all add: c_def V_def)
  have m1: "CRYPTO_cbc128_encrypt e m src ct len iv1 = m1"
    unfolding cbc_encrypt_eq [OF cipher(1) overlap(1) vectors(1)] m1_def l_def c_def V_def Let_def ..
  have l: "length l = 16" by (simp add: l_def)
  have "load_bytes m1 ct (padded len) = c"
    using vectors(1) l load_store_same [of m ct c] unfolding m1_def rt(1) by (subst load_store_disjoint) auto
  moreover have iv2: "load_bytes m1 iv2 16 = V"
    using vectors(2,5,6) l rt(1) unfolding m1_def V_def by (auto simp: load_store_disjoint)
  moreover have "chain_end m1 ct iv2 (padded len) = l"
  proof (cases "len = 0")
    case True
    then show ?thesis using iv2 rt(1) by (simp add: chain_end_def l_def V_def)
  next
    case False
    then have "16 \<le> padded len" using padded_ge [of len] by (cases "16 \<le> len") auto
    then show ?thesis
      using False vectors(1) l unfolding chain_end_def l_def m1_def by (auto intro!: load_store_disjoint)
  qed
  ultimately have m': "m' = store_bytes (store_bytes m1 out (load_bytes m src len)) iv2 l"
    using cbc_decrypt_eq [OF cipher(2) overlap(2) vectors(4) vectors(2), of m1] rt(2) by (simp add: m' m1)
  have "load_bytes m' out len = load_bytes m src len"
    using vectors(4) l load_store_same [of m1 out "load_bytes m src len"] unfolding m' by (subst load_store_disjoint) auto
  moreover have "load_bytes m' iv1 16 = l"
    using vectors(3,5) l load_store_same [of "store_bytes m ct c" iv1 l] unfolding m'
    by (auto simp: load_store_disjoint m1_def)
  moreover have "load_bytes m' iv2 16 = l"
    using load_store_same [of _ iv2 l] l unfolding m' by simp
  moreover have "m' x = m x" if "x \<notin> {ct..<ct + padded len} \<union> {out..<out + len} \<union> {iv1..<iv1 + 16} \<union> {iv2..<iv2 + 16}" for x
    using that l rt(1) unfolding m' m1_def by (auto simp: store_bytes_def)
  ultimately show ?thesis by (intro conjI allI impI) simp_all
qed

text \<open>37 bytes: the ciphertext overlaps the plaintext by 27, the decrypted text the ciphertext by 8.\<close>

lemma cbc_roundtrip_witness:
  "let m = (\<lambda>a. if a < 40 then 7 else word_of_nat a);
       m' = CRYPTO_cbc128_decrypt rev (CRYPTO_cbc128_encrypt rev m 100 90 37 0) 90 50 37 20 in
   load_bytes m' 50 37 = load_bytes m 100 37 \<and> load_bytes m' 0 16 = load_bytes m' 20 16"
proof -
  define m :: mem where "m = (\<lambda>a. if a < 40 then 7 else word_of_nat a)"
  have "load_bytes m 0 16 = load_bytes m 20 16" by (rule nth_equalityI) (auto simp: m_def)
  moreover have "padded 37 = 48" by (simp add: padded_def)
  ultimately show ?thesis
    using cbc_roundtrip [of rev rev 90 100 37 50 0 20 m] unfolding m_def [symmetric] Let_def by (simp add: block_ok_def)
qed

text \<open>The assertion on the overlap looks at \<open>len\<close> bytes of input, and the last block is read in full.\<close>

lemma cbc_assertion_too_weak:
  assumes "block = (\<lambda>x. rev (map (\<lambda>b. b + 1) x))" "m = (\<lambda>a. 0)"
  shows "CRYPTO_cbc128_decrypt block m 100 117 17 0 133 = 2"
    and "cbc_decrypted block (load_bytes m 0 16) (load_bytes m 100 32) ! 16 = 1"
proof -
  have ok: "block_ok block" by (simp add: assms block_ok_def)
  have m: "load_bytes m a n = replicate n 0" for a n by (rule nth_equalityI) (simp_all add: assms)
  have x: "map2 (XOR) (block (load_bytes m 100 16)) (load_bytes m 0 16) = replicate 16 1"
    unfolding m by (rule nth_equalityI) (simp_all add: assms(1) rev_nth)
  have p: "cbc_decrypted block iv [] = []" for iv by (simp add: cbc_decrypted.simps)
  have one: "cbc_decrypted block (load_bytes m 0 16) (load_bytes m 100 16) = replicate 16 1"
    using cbc_decrypted_block [of "load_bytes m 100 16" block "load_bytes m 0 16" "[]"] x by (simp add: p)
  show "cbc_decrypted block (load_bytes m 0 16) (load_bytes m 100 32) ! 16 = 1"
    using cbc_decrypted_append [of block m 0 100 1 16] cbc_decrypted_block [of "load_bytes m 116 16" block "load_bytes m 100 16" "[]"]
    by (simp add: one p chain_end_def nth_append) (simp add: assms(1) m rev_nth)
  define m1 where "m1 = store_bytes (store_bytes m 117 (replicate 16 1)) 0 (replicate 16 0)"
  have "cbc_dec_direct block m 100 117 0 17 = (store_bytes m 117 (replicate 16 1), 116, 133, 100, 1)"
    using cbc_dec_direct_eq [OF ok, of 1 117 100 1 0 m] one by simp
  moreover have "load_bytes (store_bytes m 117 (replicate 16 1)) 100 16 = replicate 16 0"
    by (rule nth_equalityI) (simp_all add: store_bytes_def assms)
  ultimately have "CRYPTO_cbc128_decrypt block m 100 117 17 0 = cbc_dec_rest block m1 116 133 0 1"
    by (simp add: CRYPTO_cbc128_decrypt_def m1_def)
  also have "\<dots> = store_bytes (store_bytes m1 133 (take 1 (map2 (XOR) (block (load_bytes m1 116 16)) (load_bytes m1 0 16)))) 0
      (load_bytes m1 116 16)"
    by (rule cbc_dec_rest_eq [OF ok]) simp_all
  finally show "CRYPTO_cbc128_decrypt block m 100 117 17 0 133 = 2"
    by (simp add: store_bytes_def m1_def assms rev_nth)
qed

end
