(* ===== verification/Lhash.thy ===== *)
theory Lhash
  imports Prelude "HOL-Library.Multiset"
begin

text \<open>
  The hash table of BoringSSL, \<open>crypto/lhash/lhash.c\<close>. An element is any value; the comparison and the
  hash function are the callbacks that the client gives to \<open>lh_new\<close>. A bucket is the list of its chain, a
  pointer to a pointer in it the bucket and a position; the end of the chain stands for a pointer to \<open>NULL\<close>.
  Every allocation may fail: its success is an argument of the operation.
\<close>

section \<open>Model\<close>

record 'd lhash_item =
  item_data :: 'd
  item_hash :: u32

record 'd lhash =
  num_items :: nat
  buckets :: "'d lhash_item list list"
  num_buckets :: nat
  callback_depth :: u32
  comp :: "'d \<Rightarrow> 'd \<Rightarrow> int"
  hash :: "'d \<Rightarrow> u32"

definition kMinNumBuckets :: nat where "kMinNumBuckets = 16"
definition kMaxAverageChainLength :: nat where "kMaxAverageChainLength = 2"
definition kMinAverageChainLength :: nat where "kMinAverageChainLength = 1"

definition lh_new :: "bool \<Rightarrow> bool \<Rightarrow> ('d \<Rightarrow> u32) \<Rightarrow> ('d \<Rightarrow> 'd \<Rightarrow> int) \<Rightarrow> 'd lhash option" where
  "lh_new table_alloc buckets_alloc hash_fn comp_fn =
     (if \<not> table_alloc then None
      else if \<not> buckets_alloc then None
      else Some \<lparr>num_items = 0, buckets = replicate kMinNumBuckets [], num_buckets = kMinNumBuckets,
        callback_depth = 0, comp = comp_fn, hash = hash_fn\<rparr>)"

definition lh_num_items :: "'d lhash \<Rightarrow> nat" where
  "lh_num_items lh = num_items lh"

text \<open>The walk along a chain.\<close>

fun chain_pos :: "('d \<Rightarrow> 'd \<Rightarrow> int) \<Rightarrow> 'd \<Rightarrow> 'd lhash_item list \<Rightarrow> nat" where
  "chain_pos cmp data [] = 0"
| "chain_pos cmp data (cur # chain) =
     (if cmp (item_data cur) data = 0 then 0 else Suc (chain_pos cmp data chain))"

definition get_next_ptr_and_hash :: "'d lhash \<Rightarrow> 'd \<Rightarrow> u32 \<times> nat \<times> nat" where
  "get_next_ptr_and_hash lh data =
     (let h = hash lh data; b = unat h mod num_buckets lh in (h, b, chain_pos (comp lh) data (buckets lh ! b)))"

definition lh_retrieve :: "'d lhash \<Rightarrow> 'd \<Rightarrow> 'd option" where
  "lh_retrieve lh data =
     (let (_, b, k) = get_next_ptr_and_hash lh data; chain = buckets lh ! b in
      if k = length chain then None else Some (item_data (chain ! k)))"

text \<open>Items go to the front of their new chain.\<close>

definition lh_rebucket :: "bool \<Rightarrow> 'd lhash \<Rightarrow> nat \<Rightarrow> 'd lhash" where
  "lh_rebucket alloc lh new_num_buckets =
     (let alloc_size = (8 * new_num_buckets) mod 2 ^ 64 in
      if alloc_size div 8 \<noteq> new_num_buckets then lh
      else if \<not> alloc then lh
      else
        let new_buckets = fold (\<lambda>cur bs.
              let new_bucket = unat (item_hash cur) mod new_num_buckets in
              bs[new_bucket := cur # bs ! new_bucket]) (concat (buckets lh)) (replicate new_num_buckets []) in
        lh\<lparr>num_buckets := new_num_buckets, buckets := new_buckets\<rparr>)"

definition lh_maybe_resize :: "bool \<Rightarrow> 'd lhash \<Rightarrow> 'd lhash" where
  "lh_maybe_resize alloc lh =
     (if 0 < callback_depth lh then lh
      else
        let avg_chain_length = num_items lh div num_buckets lh in
        if kMaxAverageChainLength < avg_chain_length then
          let new_num_buckets = (num_buckets lh * 2) mod 2 ^ 64 in
          if num_buckets lh < new_num_buckets then lh_rebucket alloc lh new_num_buckets else lh
        else if avg_chain_length < kMinAverageChainLength \<and> kMinNumBuckets < num_buckets lh then
          let new_num_buckets = num_buckets lh div 2;
              new_num_buckets = (if new_num_buckets < kMinNumBuckets then kMinNumBuckets else new_num_buckets) in
          lh_rebucket alloc lh new_num_buckets
        else lh)"

text \<open>Success, \<open>old_data\<close> and the table.\<close>

definition lh_insert :: "bool \<Rightarrow> bool \<Rightarrow> 'd lhash \<Rightarrow> 'd \<Rightarrow> bool \<times> 'd option \<times> 'd lhash" where
  "lh_insert item_alloc buckets_alloc lh data =
     (let (h, b, k) = get_next_ptr_and_hash lh data; chain = buckets lh ! b in
      if k \<noteq> length chain then
        (True, Some (item_data (chain ! k)),
         lh\<lparr>buckets := (buckets lh)[b := chain[k := (chain ! k)\<lparr>item_data := data\<rparr>]]\<rparr>)
      else if \<not> item_alloc then (False, None, lh)
      else
        let item = \<lparr>item_data = data, item_hash = h\<rparr>;
            lh = lh\<lparr>buckets := (buckets lh)[b := chain @ [item]], num_items := size_add (num_items lh) 1\<rparr> in
        (True, None, lh_maybe_resize buckets_alloc lh))"

definition lh_delete :: "bool \<Rightarrow> 'd lhash \<Rightarrow> 'd \<Rightarrow> 'd option \<times> 'd lhash" where
  "lh_delete buckets_alloc lh data =
     (let (_, b, k) = get_next_ptr_and_hash lh data; chain = buckets lh ! b in
      if k = length chain then (None, lh)
      else
        let lh = lh\<lparr>buckets := (buckets lh)[b := take k chain @ drop (Suc k) chain], num_items := size_add (num_items lh) (2 ^ 64 - 1)\<rparr> in
        (Some (item_data (chain ! k)), lh_maybe_resize buckets_alloc lh))"

text \<open>The callback has a state of its own and leaves the table alone.\<close>

definition lh_doall_internal ::
    "bool \<Rightarrow> 'd lhash option \<Rightarrow> ('d \<Rightarrow> 's \<Rightarrow> 's) \<Rightarrow> 's \<Rightarrow> 's \<times> 'd lhash option" where
  "lh_doall_internal buckets_alloc table func s =
     (case table of None \<Rightarrow> (s, None)
      | Some lh \<Rightarrow>
        let lh = (if callback_depth lh < - 1 then lh\<lparr>callback_depth := callback_depth lh + 1\<rparr> else lh);
            s = fold (\<lambda>chain. fold (\<lambda>cur. func (item_data cur)) chain) (buckets lh) s;
            lh = (if callback_depth lh < - 1 then lh\<lparr>callback_depth := callback_depth lh - 1\<rparr> else lh) in
        (s, Some (lh_maybe_resize buckets_alloc lh)))"

definition lh_doall :: "bool \<Rightarrow> 'd lhash option \<Rightarrow> ('d \<Rightarrow> 's \<Rightarrow> 's) \<Rightarrow> 's \<Rightarrow> 's \<times> 'd lhash option" where
  "lh_doall buckets_alloc table func s = lh_doall_internal buckets_alloc table func s"

definition lh_doall_arg ::
    "bool \<Rightarrow> 'd lhash option \<Rightarrow> ('d \<Rightarrow> 'a \<Rightarrow> 's \<Rightarrow> 's) \<Rightarrow> 'a \<Rightarrow> 's \<Rightarrow> 's \<times> 'd lhash option" where
  "lh_doall_arg buckets_alloc table func arg s = lh_doall_internal buckets_alloc table (\<lambda>d. func d arg) s"

text \<open>The hash of strings: \<open>FNV-1a\<close>.\<close>

definition OPENSSL_hash32 :: "u8 list \<Rightarrow> u32" where
  "OPENSSL_hash32 bytes = fold (\<lambda>b h. (h XOR ucast b) * 16777619) bytes 2166136261"

definition lh_strhash :: "u8 list option \<Rightarrow> u32" where
  "lh_strhash c = (case c of None \<Rightarrow> 0 | Some s \<Rightarrow> OPENSSL_hash32 (takeWhile (\<lambda>b. b \<noteq> 0) s))"

section \<open>The map that a table stands for\<close>

definition client_ok :: "('d \<Rightarrow> 'd \<Rightarrow> int) \<Rightarrow> ('d \<Rightarrow> u32) \<Rightarrow> bool" where
  "client_ok cmp hsh \<longleftrightarrow> (\<forall>a. cmp a a = 0) \<and> (\<forall>a b. cmp a b = 0 \<longrightarrow> cmp b a = 0 \<and> hsh a = hsh b) \<and>
    (\<forall>a b c. cmp a b = 0 \<longrightarrow> cmp b c = 0 \<longrightarrow> cmp a c = 0)"

abbreviation equal_to :: "'d lhash \<Rightarrow> 'd \<Rightarrow> 'd lhash_item \<Rightarrow> bool" where
  "equal_to lh x \<equiv> (\<lambda>i. comp lh (item_data i) x = 0)"

definition matches :: "'d lhash \<Rightarrow> 'd \<Rightarrow> 'd lhash_item list" where
  "matches lh x = filter (equal_to lh x) (concat (buckets lh))"

definition lh_map :: "'d lhash \<Rightarrow> 'd \<Rightarrow> 'd option" where
  "lh_map lh x = (case matches lh x of [] \<Rightarrow> None | i # _ \<Rightarrow> Some (item_data i))"

text \<open>Every item is in the bucket of its hash.\<close>

definition hashed :: "nat \<Rightarrow> 'd lhash_item list list \<Rightarrow> bool" where
  "hashed n bs \<longleftrightarrow> length bs = n \<and> (\<forall>b < n. \<forall>i \<in> set (bs ! b). unat (item_hash i) mod n = b)"

definition placed :: "'d lhash \<Rightarrow> bool" where
  "placed lh \<longleftrightarrow> hashed (num_buckets lh) (buckets lh) \<and>
    (\<forall>i \<in> set (concat (buckets lh)). item_hash i = hash lh (item_data i))"

definition lh_ok :: "'d lhash \<Rightarrow> bool" where
  "lh_ok lh \<longleftrightarrow> client_ok (comp lh) (hash lh) \<and> kMinNumBuckets \<le> num_buckets lh \<and> placed lh \<and>
    num_items lh = length (concat (buckets lh)) mod 2 ^ 64 \<and> (\<forall>x. length (matches lh x) \<le> 1)"

section \<open>Chains\<close>

lemma concat_split:
  assumes "b < length bs"
  shows "concat bs = concat (take b bs) @ bs ! b @ concat (drop (Suc b) bs)"
    and "concat (bs[b := c]) = concat (take b bs) @ c @ concat (drop (Suc b) bs)"
proof -
  have "bs = take b bs @ bs ! b # drop (Suc b) bs" using assms by (simp add: id_take_nth_drop)
  then show "concat bs = concat (take b bs) @ bs ! b @ concat (drop (Suc b) bs)"
    by (metis concat.simps(2) concat_append)
  show "concat (bs[b := c]) = concat (take b bs) @ c @ concat (drop (Suc b) bs)"
    using assms by (simp add: upd_conv_take_nth_drop)
qed

lemma hashed_replicate: "hashed n (replicate n [])"
  by (simp add: hashed_def)

lemma hashed_length: "hashed n bs \<Longrightarrow> length bs = n"
  by (simp add: hashed_def)

lemma hashed_nth: "hashed n bs \<Longrightarrow> b < n \<Longrightarrow> i \<in> set (bs ! b) \<Longrightarrow> unat (item_hash i) mod n = b"
  by (simp add: hashed_def)

lemma hashed_update:
  assumes "hashed n bs" "\<And>i. i \<in> set c \<Longrightarrow> unat (item_hash i) mod n = b"
  shows "hashed n (bs[b := c])"
  unfolding hashed_def
proof (intro conjI allI impI ballI)
  show "length (bs[b := c]) = n" using assms(1) by (simp add: hashed_def)
  show "unat (item_hash i) mod n = j" if "j < n" "i \<in> set (bs[b := c] ! j)" for i j
    using assms that hashed_nth [OF assms(1), of j i] unfolding hashed_def by (cases "j = b") auto
qed

lemma hashed_push:
  assumes "hashed n bs" "b = unat (item_hash x) mod n" "b < n"
  shows "hashed n (bs[b := x # bs ! b])"
  by (rule hashed_update [OF assms(1)]) (use assms hashed_nth [OF assms(1,3)] in auto)

lemma placed_hash: "placed lh \<Longrightarrow> b < num_buckets lh \<Longrightarrow> i \<in> set (buckets lh ! b) \<Longrightarrow> item_hash i = hash lh (item_data i)"
proof -
  assume a: "placed lh" "b < num_buckets lh" "i \<in> set (buckets lh ! b)"
  then have "buckets lh ! b \<in> set (buckets lh)" by (simp add: placed_def hashed_def)
  then show ?thesis using a unfolding placed_def by auto
qed

lemma chain_pos_filter:
  "chain_pos cmp x chain \<le> length chain"
  "chain_pos cmp x chain = length chain \<longleftrightarrow> filter (\<lambda>i. cmp (item_data i) x = 0) chain = []"
  "chain_pos cmp x chain < length chain \<Longrightarrow> cmp (item_data (chain ! chain_pos cmp x chain)) x = 0"
  by (induction chain) (auto split: if_splits)

lemma filter_concat_Nil: "(\<And>c. c \<in> set cs \<Longrightarrow> filter P c = []) \<Longrightarrow> filter P (concat cs) = []"
  by (induction cs) auto

lemma matches_bucket:
  assumes "client_ok (comp lh) (hash lh)" "placed lh" "0 < num_buckets lh"
  shows "matches lh x = filter (equal_to lh x) (buckets lh ! (unat (hash lh x) mod num_buckets lh))"
proof -
  define b where "b = unat (hash lh x) mod num_buckets lh"
  have b: "b < length (buckets lh)" using assms(2,3) by (simp add: b_def placed_def hashed_def)
  have "j = b" if "j < length (buckets lh)" "i \<in> set (buckets lh ! j)" "equal_to lh x i" for i j
  proof -
    have "hash lh (item_data i) = hash lh x" using assms(1) that(3) unfolding client_ok_def by blast
    then show ?thesis using hashed_nth [of "num_buckets lh" "buckets lh" j i] placed_hash [OF assms(2), of j i] assms(2) that(1,2) hashed_length
      unfolding b_def placed_def by metis
  qed
  then have other: "filter (equal_to lh x) (buckets lh ! j) = []" if "j < length (buckets lh)" "j \<noteq> b" for j
    using that by (auto simp: filter_empty_conv)
  have "filter (equal_to lh x) (concat (take b (buckets lh))) = []"
    by (rule filter_concat_Nil) (use other b in \<open>auto simp: in_set_conv_nth\<close>)
  moreover have "filter (equal_to lh x) (concat (drop (Suc b) (buckets lh))) = []"
    by (rule filter_concat_Nil) (use other b in \<open>auto simp: in_set_conv_nth\<close>)
  ultimately show ?thesis
    unfolding matches_def by (subst concat_split(1) [OF b]) (simp add: b_def)
qed

text \<open>The search ends at the only item that is equal, or at the end of the chain.\<close>

lemma search:
  assumes "lh_ok lh" "get_next_ptr_and_hash lh x = (h, b, k)"
  shows "b < length (buckets lh)" "h = hash lh x" "b = unat h mod num_buckets lh" "k \<le> length (buckets lh ! b)"
    and "k = length (buckets lh ! b) \<Longrightarrow> matches lh x = [] \<and> lh_map lh x = None"
    and "k < length (buckets lh ! b) \<Longrightarrow>
      matches lh x = [buckets lh ! b ! k] \<and> lh_map lh x = Some (item_data (buckets lh ! b ! k)) \<and> equal_to lh x (buckets lh ! b ! k)"
proof -
  have ok: "client_ok (comp lh) (hash lh)" "placed lh" "0 < num_buckets lh"
    using assms(1) by (auto simp: lh_ok_def kMinNumBuckets_def)
  have g: "h = hash lh x" "b = unat h mod num_buckets lh" "k = chain_pos (comp lh) x (buckets lh ! b)"
    using assms(2) by (auto simp: get_next_ptr_and_hash_def Let_def)
  show "b < length (buckets lh)" "h = hash lh x" "b = unat h mod num_buckets lh" "k \<le> length (buckets lh ! b)"
    using g ok chain_pos_filter(1) by (auto simp: placed_def hashed_def)
  note m = matches_bucket [OF ok, of x, folded g(1), folded g(2)]
  show "matches lh x = [] \<and> lh_map lh x = None" if "k = length (buckets lh ! b)"
    using that chain_pos_filter(2) [of "comp lh" x "buckets lh ! b"] g(3) m by (simp add: lh_map_def)
  show "matches lh x = [buckets lh ! b ! k] \<and> lh_map lh x = Some (item_data (buckets lh ! b ! k)) \<and> equal_to lh x (buckets lh ! b ! k)"
    if "k < length (buckets lh ! b)"
  proof -
    have e: "equal_to lh x (buckets lh ! b ! k)" using chain_pos_filter(3) [of "comp lh" x "buckets lh ! b"] that g(3) by simp
    then have "buckets lh ! b ! k \<in> set (matches lh x)" using m that by simp
    moreover have "length (matches lh x) \<le> 1" using assms(1) by (simp add: lh_ok_def)
    ultimately have "matches lh x = [buckets lh ! b ! k]" by (cases "matches lh x") auto
    then show ?thesis using e by (simp add: lh_map_def)
  qed
qed

lemma lh_retrieve_eq: "lh_ok lh \<Longrightarrow> lh_retrieve lh x = lh_map lh x"
  using search [of lh x] by (auto simp: lh_retrieve_def Let_def split: prod.split)


section \<open>Resizing\<close>

text \<open>A table with the same items in other places is the same map.\<close>

lemma same_items:
  assumes "lh_ok lh" "mset (concat (buckets lh')) = mset (concat (buckets lh))" "comp lh' = comp lh"
  shows "matches lh' x = matches lh x"
proof -
  have m: "mset (matches lh' x) = mset (matches lh x)" unfolding matches_def mset_filter assms(2,3) ..
  moreover have "length (matches lh x) \<le> 1" using assms(1) by (simp add: lh_ok_def)
  ultimately show ?thesis
    using mset_eq_length [OF m] by (cases "matches lh x"; cases "matches lh' x") auto
qed

lemma rebucket_fold:
  "0 < n \<Longrightarrow> hashed n bs \<Longrightarrow>
    bs' = fold (\<lambda>cur bs. let b = unat (item_hash cur) mod n in bs[b := cur # bs ! b]) xs bs \<Longrightarrow>
    hashed n bs' \<and> mset (concat bs') = mset xs + mset (concat bs)"
proof (induction xs arbitrary: bs)
  case (Cons x xs)
  define b where "b = unat (item_hash x) mod n"
  have b: "b < length bs" using Cons.prems(1,2) by (simp add: b_def hashed_def)
  have "mset (concat (bs[b := x # bs ! b])) = add_mset x (mset (concat bs))"
    unfolding concat_split(2) [OF b] concat_split(1) [OF b] by simp
  moreover have "hashed n (bs[b := x # bs ! b])"
    using Cons.prems(1) by (intro hashed_push [OF Cons.prems(2) b_def]) (simp add: b_def)
  moreover have "bs' = fold (\<lambda>cur bs. let b = unat (item_hash cur) mod n in bs[b := cur # bs ! b]) xs (bs[b := x # bs ! b])"
    using Cons.prems(3) by (simp add: Let_def b_def)
  ultimately show ?case using Cons.IH [OF Cons.prems(1)] by auto
qed simp

text \<open>All that an operation leaves as it is.\<close>

definition same_table :: "'d lhash \<Rightarrow> 'd lhash \<Rightarrow> bool" where
  "same_table lh lh' \<longleftrightarrow> lh_ok lh' \<and> lh_map lh' = lh_map lh \<and> comp lh' = comp lh \<and> hash lh' = hash lh \<and>
    num_items lh' = num_items lh \<and> mset (concat (buckets lh')) = mset (concat (buckets lh))"

lemma lh_rebucket_same:
  assumes "lh_ok lh" "kMinNumBuckets \<le> n"
  shows "same_table lh (lh_rebucket alloc lh n)"
proof -
  define bs where "bs = fold (\<lambda>cur bs. let b = unat (item_hash cur) mod n in bs[b := cur # bs ! b]) (concat (buckets lh)) (replicate n [])"
  have f: "hashed n bs" "mset (concat bs) = mset (concat (buckets lh))"
    using rebucket_fold [OF _ hashed_replicate bs_def] assms(2) by (simp_all add: kMinNumBuckets_def)
  define lh1 where "lh1 = lh\<lparr>num_buckets := n, buckets := bs\<rparr>"
  have r: "lh_rebucket alloc lh n = lh \<or> lh_rebucket alloc lh n = lh1"
    by (simp add: lh_rebucket_def bs_def lh1_def Let_def)
  have m: "matches lh1 x = matches lh x" for x by (rule same_items [OF assms(1)]) (simp_all add: lh1_def f(2))
  have "item_hash i = hash lh (item_data i)" if "i \<in> set (concat bs)" for i
  proof -
    have "i \<in> set (concat (buckets lh))" using that mset_eq_setD [OF f(2)] by blast
    then show ?thesis using assms(1) unfolding lh_ok_def placed_def by blast
  qed
  then have "placed lh1" using f(1) unfolding placed_def lh1_def by simp
  then have "lh_ok lh1" using assms m mset_eq_length [OF f(2)] by (simp add: lh_ok_def) (simp add: lh1_def)
  moreover have "lh_map lh1 = lh_map lh" by (rule ext) (simp add: lh_map_def m)
  ultimately have "same_table lh lh1" using f(2) by (simp add: same_table_def lh1_def)
  moreover have "same_table lh lh" using assms(1) by (simp add: same_table_def)
  ultimately show ?thesis using r by metis
qed

lemma lh_maybe_resize_same:
  assumes "lh_ok lh"
  shows "same_table lh (lh_maybe_resize alloc lh)"
proof -
  have "same_table lh lh" using assms by (simp add: same_table_def)
  moreover have "kMinNumBuckets \<le> num_buckets lh" using assms by (simp add: lh_ok_def)
  ultimately show ?thesis
    using lh_rebucket_same [OF assms] by (simp add: lh_maybe_resize_def Let_def del: One_nat_def)
qed

section \<open>The operations\<close>

lemma lh_new_ok:
  "client_ok cmp hsh \<Longrightarrow> lh_new a1 a2 hsh cmp = Some lh \<Longrightarrow>
    lh_ok lh \<and> lh_map lh = (\<lambda>x. None) \<and> comp lh = cmp \<and> hash lh = hsh \<and> concat (buckets lh) = []"
  by (auto simp: lh_new_def lh_ok_def placed_def matches_def lh_map_def kMinNumBuckets_def hashed_replicate split: if_splits)

lemma equal_to_eq:
  assumes "client_ok (comp lh) (hash lh)" "comp lh d x = 0"
  shows "equal_to lh d i = equal_to lh x i"
  using assms unfolding client_ok_def by blast

lemma matches_cong: "client_ok (comp lh) (hash lh) \<Longrightarrow> comp lh d x = 0 \<Longrightarrow> matches lh d = matches lh x"
  unfolding matches_def using equal_to_eq by (metis (no_types, lifting) filter_cong)


text \<open>What an insertion or deletion does to the size, before it looks whether to resize.\<close>

definition edit :: "bool \<Rightarrow> 'd lhash \<Rightarrow> 'd lhash \<Rightarrow> bool" where
  "edit alloc lh lh' \<longleftrightarrow> (\<exists>lh1. lh_ok lh1 \<and> callback_depth lh1 = callback_depth lh \<and> num_buckets lh1 = num_buckets lh \<and>
    (lh' = lh1 \<and> length (concat (buckets lh1)) = length (concat (buckets lh)) \<or>
     lh' = lh_maybe_resize alloc lh1 \<and> (length (concat (buckets lh1)) = Suc (length (concat (buckets lh))) \<or>
       length (concat (buckets lh)) = Suc (length (concat (buckets lh1))))))"

text \<open>One chain changes; \<open>A\<close> and \<open>B\<close> are the items of the other buckets.\<close>

lemma lh_insert_map:
  assumes ok: "lh_ok lh" and ins: "lh_insert a1 a2 lh d = (success, old, lh')"
  shows "edit a2 lh lh' \<and> lh_ok lh' \<and> comp lh' = comp lh \<and> hash lh' = hash lh \<and>
    (if lh_map lh d = None \<and> \<not> a1 then \<not> success \<and> old = None \<and> lh' = lh
     else success \<and> old = lh_map lh d \<and> lh_map lh' = (\<lambda>x. if comp lh d x = 0 then Some d else lh_map lh x))"
proof -
  obtain h b k where g: "get_next_ptr_and_hash lh d = (h, b, k)" by (metis prod_cases3)
  note s = search [OF ok g]
  define A B chain where "A = concat (take b (buckets lh))" and "B = concat (drop (Suc b) (buckets lh))" and "chain = buckets lh ! b"
  note ab = concat_split [OF s(1), folded A_def B_def chain_def]
  have client: "client_ok (comp lh) (hash lh)" using ok by (simp add: lh_ok_def)
  note cong = matches_cong [OF client]
  show ?thesis
  proof (cases "k = length chain")
    case False
    then have k: "k < length chain" using s(4) by (simp add: chain_def)
    define i where "i = chain ! k"
    define lh1 where "lh1 = lh\<lparr>buckets := (buckets lh)[b := chain[k := i\<lparr>item_data := d\<rparr>]]\<rparr>"
    have m: "matches lh d = [i]" "lh_map lh d = Some (item_data i)" "comp lh (item_data i) d = 0"
      using s(6) k by (simp_all add: chain_def i_def)
    have e: "comp lh (item_data i) x = 0 \<longleftrightarrow> comp lh d x = 0" for x
      using client m(3) unfolding client_ok_def by blast
    have ch: "chain = take k chain @ i # drop (Suc k) chain" using k by (simp add: i_def id_take_nth_drop)
    have chain: "chain[k := i\<lparr>item_data := d\<rparr>] = take k chain @ i\<lparr>item_data := d\<rparr> # drop (Suc k) chain"
      using k by (simp add: upd_conv_take_nth_drop)
    have mm: "matches lh1 x = (if comp lh d x = 0 then [i\<lparr>item_data := d\<rparr>] else matches lh x)" for x
    proof (cases "comp lh d x = 0")
      case True
      have "filter (equal_to lh x) (A @ take k chain @ i # drop (Suc k) chain @ B) = [i]"
        using cong [OF True] m(1) ab(1) ch unfolding matches_def by (metis append_Cons append_assoc)
      moreover have "equal_to lh x i" using True e by simp
      ultimately have "filter (equal_to lh x) A = []" "filter (equal_to lh x) (take k chain) = []"
          "filter (equal_to lh x) (drop (Suc k) chain) = []" "filter (equal_to lh x) B = []"
        by (auto simp: append_eq_Cons_conv Cons_eq_append_conv)
      then show ?thesis using True ab(2) unfolding matches_def lh1_def chain by simp
    next
      case False
      then have "filter (equal_to lh x) (chain[k := i\<lparr>item_data := d\<rparr>]) = filter (equal_to lh x) chain"
        using e [of x] unfolding chain by (subst (3) ch) simp
      then show ?thesis using False ab unfolding matches_def lh1_def by simp
    qed
    have "placed lh1"
    proof -
      have p: "hashed (num_buckets lh) (buckets lh)" "b < num_buckets lh" "placed lh"
        using ok s(1) by (simp_all add: lh_ok_def placed_def hashed_def)
      have i: "i \<in> set (buckets lh ! b)" using k by (simp add: i_def chain_def)
      have sub: "set (chain[k := i\<lparr>item_data := d\<rparr>]) \<subseteq> insert (i\<lparr>item_data := d\<rparr>) (set (buckets lh ! b))"
        unfolding chain_def by (rule set_update_subset_insert)
      have "hashed (num_buckets lh) ((buckets lh)[b := chain[k := i\<lparr>item_data := d\<rparr>]])"
      proof (rule hashed_update [OF p(1)])
        show "unat (item_hash j) mod num_buckets lh = b" if "j \<in> set (chain[k := i\<lparr>item_data := d\<rparr>])" for j
          using subsetD [OF sub that] hashed_nth [OF p(1,2) i] hashed_nth [OF p(1,2), of j] by auto
      qed
      moreover have "item_hash i = hash lh d"
        using placed_hash [OF p(3,2) i] client m(3) unfolding client_ok_def by metis
      ultimately show ?thesis
        using p(3) ab chain ch unfolding placed_def lh1_def by (auto dest: in_set_takeD in_set_dropD simp: chain_def)
    qed
    moreover have "num_items lh1 = length (concat (buckets lh1)) mod 2 ^ 64"
      using ok ab unfolding lh_ok_def lh1_def by simp
    ultimately have "lh_ok lh1" using ok mm unfolding lh_ok_def by (simp add: lh1_def)
    moreover have "lh_map lh1 = (\<lambda>x. if comp lh d x = 0 then Some d else lh_map lh x)"
      by (rule ext) (simp add: lh_map_def mm)
    moreover have "success \<and> old = Some (item_data i) \<and> lh' = lh1"
      using ins g False by (auto simp: lh_insert_def Let_def lh1_def i_def chain_def)
    moreover have "length (concat (buckets lh1)) = length (concat (buckets lh))" using ab by (simp add: lh1_def)
    ultimately have "edit a2 lh lh'" unfolding edit_def by (intro exI [of _ lh1]) (simp add: lh1_def)
    then show ?thesis
      using m \<open>lh_ok lh1\<close> \<open>lh_map lh1 = _\<close> \<open>success \<and> old = Some (item_data i) \<and> lh' = lh1\<close> by (auto simp: lh1_def)
  next
    case True
    then have m: "matches lh d = []" "lh_map lh d = None" using s(5) by (simp_all add: chain_def)
    define lh1 where "lh1 = lh\<lparr>buckets := (buckets lh)[b := chain @ [\<lparr>item_data = d, item_hash = h\<rparr>]], num_items := size_add (num_items lh) 1\<rparr>"
    have mm: "matches lh1 x = (if comp lh d x = 0 then [\<lparr>item_data = d, item_hash = h\<rparr>] else matches lh x)" for x
    proof (cases "comp lh d x = 0")
      case True
      then have "matches lh x = []" using cong [of d x] m by simp
      then show ?thesis using True ab by (simp add: matches_def lh1_def)
    next
      case False
      then show ?thesis using ab by (simp add: matches_def lh1_def)
    qed
    have "placed lh1"
    proof -
      have p: "hashed (num_buckets lh) (buckets lh)" "b < num_buckets lh" using ok s(1) by (simp_all add: lh_ok_def placed_def hashed_def)
      have "hashed (num_buckets lh) ((buckets lh)[b := chain @ [\<lparr>item_data = d, item_hash = h\<rparr>]])"
        by (rule hashed_update [OF p(1)]) (use hashed_nth [OF p] s(3) in \<open>auto simp: chain_def\<close>)
      then show ?thesis using ok ab s(2) unfolding lh_ok_def placed_def lh1_def by auto
    qed
    moreover have "num_items lh1 = length (concat (buckets lh1)) mod 2 ^ 64"
      using ok ab unfolding lh_ok_def lh1_def by (simp add: size_add_def mod_Suc_eq)
    ultimately have "lh_ok lh1" using ok mm unfolding lh_ok_def by (simp add: lh1_def)
    then have same: "same_table lh1 (lh_maybe_resize a2 lh1)" by (rule lh_maybe_resize_same)
    have "lh_map lh1 = (\<lambda>x. if comp lh d x = 0 then Some d else lh_map lh x)"
      by (rule ext) (simp add: lh_map_def mm)
    moreover have "(success, old, lh') = (if a1 then (True, None, lh_maybe_resize a2 lh1) else (False, None, lh))"
      using ins g True by (cases a1) (simp_all add: lh_insert_def Let_def lh1_def chain_def)
    moreover have "edit a2 lh (if a1 then lh_maybe_resize a2 lh1 else lh)"
    proof (cases a1)
      case True
      have "length (concat (buckets lh1)) = Suc (length (concat (buckets lh)))" using ab by (simp add: lh1_def)
      then show ?thesis using True \<open>lh_ok lh1\<close> unfolding edit_def by (intro exI [of _ lh1]) (simp add: lh1_def)
    qed (use ok in \<open>auto simp: edit_def\<close>)
    ultimately show ?thesis
      using m ok same by (cases a1) (simp_all add: same_table_def lh1_def)
  qed
qed


lemma lh_delete_map:
  assumes ok: "lh_ok lh" and del: "lh_delete a lh d = (old, lh')"
  shows "edit a lh lh' \<and> lh_ok lh' \<and> comp lh' = comp lh \<and> hash lh' = hash lh \<and> old = lh_map lh d \<and>
    lh_map lh' = (\<lambda>x. if comp lh d x = 0 then None else lh_map lh x)"
proof -
  obtain h b k where g: "get_next_ptr_and_hash lh d = (h, b, k)" by (metis prod_cases3)
  note s = search [OF ok g]
  define A B chain where "A = concat (take b (buckets lh))" and "B = concat (drop (Suc b) (buckets lh))" and "chain = buckets lh ! b"
  note ab = concat_split [OF s(1), folded A_def B_def chain_def]
  have client: "client_ok (comp lh) (hash lh)" using ok by (simp add: lh_ok_def)
  note cong = matches_cong [OF client]
  show ?thesis
  proof (cases "k = length chain")
    case True
    then have m: "matches lh d = []" "lh_map lh d = None" using s(5) by (simp_all add: chain_def)
    have "lh_map lh x = None" if "comp lh d x = 0" for x using cong [OF that] m(1) by (simp add: lh_map_def)
    moreover have "edit a lh lh" using ok by (auto simp: edit_def)
    ultimately show ?thesis using del g True ok m(2) by (auto simp: lh_delete_def Let_def chain_def)
  next
    case False
    then have k: "k < length chain" using s(4) by (simp add: chain_def)
    define i where "i = chain ! k"
    define c where "c = take k chain @ drop (Suc k) chain"
    define lh1 where "lh1 = lh\<lparr>buckets := (buckets lh)[b := c], num_items := size_add (num_items lh) (2 ^ 64 - 1)\<rparr>"
    have m: "matches lh d = [i]" "lh_map lh d = Some (item_data i)" "comp lh (item_data i) d = 0"
      using s(6) k by (simp_all add: chain_def i_def)
    have e: "comp lh (item_data i) x = 0 \<longleftrightarrow> comp lh d x = 0" for x
      using client m(3) unfolding client_ok_def by blast
    have ch: "chain = take k chain @ i # drop (Suc k) chain" using k by (simp add: i_def id_take_nth_drop)
    have mm: "matches lh1 x = (if comp lh d x = 0 then [] else matches lh x)" for x
    proof (cases "comp lh d x = 0")
      case True
      have "filter (equal_to lh x) (A @ take k chain @ i # drop (Suc k) chain @ B) = [i]"
        using cong [OF True] m(1) ab(1) ch unfolding matches_def by (metis append_Cons append_assoc)
      moreover have "equal_to lh x i" using True e by simp
      ultimately have "filter (equal_to lh x) A = []" "filter (equal_to lh x) (take k chain) = []"
          "filter (equal_to lh x) (drop (Suc k) chain) = []" "filter (equal_to lh x) B = []"
        by (auto simp: append_eq_Cons_conv Cons_eq_append_conv)
      then show ?thesis using True ab(2) unfolding matches_def lh1_def c_def by simp
    next
      case False
      then have "filter (equal_to lh x) c = filter (equal_to lh x) chain"
        using e [of x] unfolding c_def by (subst (3) ch) simp
      then show ?thesis using False ab unfolding matches_def lh1_def by simp
    qed
    have "placed lh1"
    proof -
      have p: "hashed (num_buckets lh) (buckets lh)" "b < num_buckets lh" "placed lh"
        using ok s(1) by (simp_all add: lh_ok_def placed_def hashed_def)
      have sub: "set c \<subseteq> set chain" unfolding c_def by (auto dest: in_set_takeD in_set_dropD)
      have "hashed (num_buckets lh) ((buckets lh)[b := c])"
        by (rule hashed_update [OF p(1)]) (use hashed_nth [OF p(1,2)] sub in \<open>auto simp: chain_def\<close>)
      then show ?thesis using p(3) ab sub unfolding placed_def lh1_def by auto
    qed
    moreover have "num_items lh1 = length (concat (buckets lh1)) mod 2 ^ 64"
    proof -
      have "length chain = Suc (length c)" using k by (simp add: c_def)
      then have "length (concat (buckets lh)) + (2 ^ 64 - 1) = length (concat (buckets lh1)) + 2 ^ 64"
        using ab unfolding lh1_def by simp
      moreover have "num_items lh1 = (length (concat (buckets lh)) + (2 ^ 64 - 1)) mod 2 ^ 64"
        using ok unfolding lh_ok_def lh1_def size_add_def by (simp add: mod_add_left_eq)
      ultimately show ?thesis by (simp only: mod_add_self2)
    qed
    ultimately have "lh_ok lh1" using ok mm unfolding lh_ok_def by (simp add: lh1_def)
    then have same: "same_table lh1 (lh_maybe_resize a lh1)" by (rule lh_maybe_resize_same)
    have "lh_map lh1 = (\<lambda>x. if comp lh d x = 0 then None else lh_map lh x)"
      by (rule ext) (simp add: lh_map_def mm)
    moreover have "old = Some (item_data i) \<and> lh' = lh_maybe_resize a lh1"
      using del g False by (auto simp: lh_delete_def Let_def lh1_def i_def c_def chain_def)
    moreover have "edit a lh (lh_maybe_resize a lh1)"
    proof -
      have "Suc (length c) = length chain" using k by (simp add: c_def)
      then have "length (concat (buckets lh)) = Suc (length (concat (buckets lh1)))" using ab by (simp add: lh1_def)
      then show ?thesis using \<open>lh_ok lh1\<close> unfolding edit_def by (intro exI [of _ lh1]) (simp add: lh1_def)
    qed
    ultimately show ?thesis using m same by (simp add: same_table_def lh1_def)
  qed
qed

text \<open>Every element is visited once, and a resize that the iteration held up is made up for.\<close>

lemma lh_doall_map:
  assumes ok: "lh_ok lh" and run: "lh_doall_internal a (Some lh) f s = (s', t')"
  shows "\<exists>lh' visited. t' = Some lh' \<and> lh_ok lh' \<and> comp lh' = comp lh \<and> hash lh' = hash lh \<and> lh_map lh' = lh_map lh \<and>
    s' = fold f visited s \<and> (\<forall>x. filter (\<lambda>d. comp lh d x = 0) visited = (case lh_map lh x of None \<Rightarrow> [] | Some d \<Rightarrow> [d]))"
proof -
  define depth where "depth = (if callback_depth lh < - 1 then callback_depth lh + 1 else callback_depth lh)"
  define lh1 where "lh1 = lh\<lparr>callback_depth := if depth < - 1 then depth - 1 else depth\<rparr>"
  have "matches lh1 x = matches lh x" for x by (simp add: matches_def lh1_def)
  then have "lh_ok lh1" "lh_map lh1 = lh_map lh" using ok by (auto simp: lh_ok_def placed_def lh_map_def lh1_def)
  then have same: "same_table lh1 (lh_maybe_resize a lh1)" by (intro lh_maybe_resize_same)
  define visited where "visited = map item_data (concat (buckets lh))"
  have "fold (\<lambda>chain. fold (\<lambda>cur. f (item_data cur)) chain) cs u = fold f (map item_data (concat cs)) u" for cs u
    by (induction cs arbitrary: u) (auto simp: fold_map o_def)
  then have r: "s' = fold f visited s" "t' = Some (lh_maybe_resize a lh1)"
    using run by (auto simp: lh_doall_internal_def Let_def lh1_def depth_def visited_def split: if_splits)
  have "filter (\<lambda>d. comp lh d x = 0) visited = (case lh_map lh x of None \<Rightarrow> [] | Some d \<Rightarrow> [d])" for x
  proof -
    have "length (matches lh x) \<le> 1" using ok by (simp add: lh_ok_def)
    moreover have "filter (\<lambda>d. comp lh d x = 0) visited = map item_data (matches lh x)"
      by (simp add: visited_def matches_def filter_map o_def)
    ultimately show ?thesis by (cases "matches lh x") (auto simp: lh_map_def)
  qed
  then show ?thesis using r same \<open>lh_map lh1 = lh_map lh\<close> by (auto simp: same_table_def lh1_def)
qed

section \<open>The interface of a dictionary\<close>

text \<open>The calls of a client, with the success of the allocations that they make, and what it gets.\<close>

datatype 'd dict_op = Retrieve 'd | Insert bool bool 'd | Delete bool 'd

datatype 'd dict_result = Retrieved "'d option" | Inserted bool "'d option" | Deleted "'d option"

fun dict_run ::
    "('t \<Rightarrow> 'd \<Rightarrow> 'd option) \<Rightarrow> (bool \<Rightarrow> bool \<Rightarrow> 't \<Rightarrow> 'd \<Rightarrow> bool \<times> 'd option \<times> 't) \<Rightarrow> (bool \<Rightarrow> 't \<Rightarrow> 'd \<Rightarrow> 'd option \<times> 't) \<Rightarrow>
      't \<Rightarrow> 'd dict_op list \<Rightarrow> 'd dict_result list \<times> 't" where
  "dict_run look put rem t [] = ([], t)"
| "dict_run look put rem t (op # ops) =
     (let (r, t) = (case op of
        Retrieve d \<Rightarrow> (Retrieved (look t d), t)
      | Insert a1 a2 d \<Rightarrow> (let (ok, old, t) = put a1 a2 t d in (Inserted ok old, t))
      | Delete a d \<Rightarrow> (let (old, t) = rem a t d in (Deleted old, t)));
          (rs, t) = dict_run look put rem t ops in
      (r # rs, t))"

text \<open>The specification: a map on elements, up to equality of elements.\<close>

definition map_retrieve :: "('d \<Rightarrow> 'd option) \<Rightarrow> 'd \<Rightarrow> 'd option" where
  "map_retrieve m d = m d"

definition map_insert ::
    "('d \<Rightarrow> 'd \<Rightarrow> bool) \<Rightarrow> bool \<Rightarrow> bool \<Rightarrow> ('d \<Rightarrow> 'd option) \<Rightarrow> 'd \<Rightarrow> bool \<times> 'd option \<times> ('d \<Rightarrow> 'd option)" where
  "map_insert same a1 a2 m d =
     (if m d = None \<and> \<not> a1 then (False, None, m) else (True, m d, \<lambda>x. if same d x then Some d else m x))"

definition map_delete :: "('d \<Rightarrow> 'd \<Rightarrow> bool) \<Rightarrow> bool \<Rightarrow> ('d \<Rightarrow> 'd option) \<Rightarrow> 'd \<Rightarrow> 'd option \<times> ('d \<Rightarrow> 'd option)" where
  "map_delete same a m d = (m d, \<lambda>x. if same d x then None else m x)"

locale dictionary =
  fixes same :: "'d \<Rightarrow> 'd \<Rightarrow> bool"
    and ok :: "'t \<Rightarrow> bool"
    and view :: "'t \<Rightarrow> 'd \<Rightarrow> 'd option"
    and look :: "'t \<Rightarrow> 'd \<Rightarrow> 'd option"
    and put :: "bool \<Rightarrow> bool \<Rightarrow> 't \<Rightarrow> 'd \<Rightarrow> bool \<times> 'd option \<times> 't"
    and rem :: "bool \<Rightarrow> 't \<Rightarrow> 'd \<Rightarrow> 'd option \<times> 't"
  assumes retrieve_view: "ok t \<Longrightarrow> look t d = view t d"
    and insert_view: "ok t \<Longrightarrow> put a1 a2 t d = (s, old, t') \<Longrightarrow>
      ok t' \<and> (s, old, view t') = map_insert same a1 a2 (view t) d"
    and delete_view: "ok t \<Longrightarrow> rem a t d = (old, t') \<Longrightarrow> ok t' \<and> (old, view t') = map_delete same a (view t) d"
begin

lemma dict_run_refines:
  "ok t \<Longrightarrow> dict_run look put rem t ops = (rs, t') \<Longrightarrow>
    ok t' \<and> dict_run map_retrieve (map_insert same) (map_delete same) (view t) ops = (rs, view t')"
proof (induction ops arbitrary: t rs)
  case (Cons op ops)
  show ?case
  proof (cases op)
    case (Retrieve d)
    then show ?thesis
      using Cons.IH [OF Cons.prems(1)] Cons.prems by (auto simp: retrieve_view map_retrieve_def split: prod.splits)
  next
    case (Insert a1 a2 d)
    obtain s old t1 where i: "put a1 a2 t d = (s, old, t1)" by (metis prod_cases3)
    obtain rs1 where r: "dict_run look put rem t1 ops = (rs1, t')" "rs = Inserted s old # rs1"
      using Cons.prems(2) Insert i by (auto split: prod.splits)
    show ?thesis
      using Cons.IH [OF _ r(1)] insert_view [OF Cons.prems(1) i] r(2) Insert by (auto split: prod.splits)
  next
    case (Delete a d)
    obtain old t1 where i: "rem a t d = (old, t1)" by fastforce
    obtain rs1 where r: "dict_run look put rem t1 ops = (rs1, t')" "rs = Deleted old # rs1"
      using Cons.prems(2) Delete i by (auto split: prod.splits)
    show ?thesis
      using Cons.IH [OF _ r(1)] delete_view [OF Cons.prems(1) i] r(2) Delete by (auto split: prod.splits)
  qed
qed simp

end

definition lh_with :: "('d \<Rightarrow> 'd \<Rightarrow> int) \<Rightarrow> 'd lhash \<Rightarrow> bool" where
  "lh_with cmp lh \<longleftrightarrow> lh_ok lh \<and> comp lh = cmp"

interpretation lh: dictionary "\<lambda>a b. cmp a b = 0" "lh_with cmp" lh_map lh_retrieve lh_insert lh_delete
  for cmp :: "'d \<Rightarrow> 'd \<Rightarrow> int"
proof
  show "lh_retrieve t d = lh_map t d" if "lh_with cmp t" for t d
    using that by (simp add: lh_retrieve_eq lh_with_def)
  show "lh_with cmp t' \<and> (s, old, lh_map t') = map_insert (\<lambda>a b. cmp a b = 0) a1 a2 (lh_map t) d"
    if "lh_with cmp t" "lh_insert a1 a2 t d = (s, old, t')" for t a1 a2 d s old t'
    using lh_insert_map [of t a1 a2 d s old t'] that by (auto simp: lh_with_def map_insert_def split: if_splits)
  show "lh_with cmp t' \<and> (old, lh_map t') = map_delete (\<lambda>a b. cmp a b = 0) a (lh_map t) d"
    if "lh_with cmp t" "lh_delete a t d = (old, t')" for t a d old t'
    using lh_delete_map [of t a d old t'] that by (simp add: lh_with_def map_delete_def)
qed

text \<open>The items are the elements of the map.\<close>

lemma lh_items:
  assumes "lh_ok lh"
  shows "ran (lh_map lh) = item_data ` set (concat (buckets lh))" "card (ran (lh_map lh)) = length (concat (buckets lh))"
proof -
  have refl: "comp lh a a = 0" for a using assms unfolding lh_ok_def client_ok_def by blast
  have one: "length (matches lh x) \<le> 1" for x using assms by (simp add: lh_ok_def)
  have "lh_map lh (item_data i) = Some (item_data i)" if "i \<in> set (concat (buckets lh))" for i
  proof -
    have "i \<in> set (matches lh (item_data i))" using that refl by (simp add: matches_def)
    then have "matches lh (item_data i) = [i]" using one [of "item_data i"] by (cases "matches lh (item_data i)") auto
    then show ?thesis by (simp add: lh_map_def)
  qed
  moreover have "d \<in> item_data ` set (concat (buckets lh))" if some: "lh_map lh x = Some d" for x d
  proof -
    obtain i rest where "matches lh x = i # rest" "d = item_data i"
      using some by (auto simp: lh_map_def split: list.splits)
    moreover have "set (matches lh x) \<subseteq> set (concat (buckets lh))" by (auto simp: matches_def)
    ultimately show ?thesis by auto
  qed
  ultimately show r: "ran (lh_map lh) = item_data ` set (concat (buckets lh))"
    unfolding ran_def by blast
  define ys where "ys = map item_data (concat (buckets lh))"
  have "count (mset ys) x \<le> 1" for x
  proof -
    have "filter (\<lambda>i. x = item_data i) (concat (buckets lh)) = filter (\<lambda>i. x = item_data i) (matches lh x)"
      unfolding matches_def filter_filter by (rule filter_cong) (auto simp: refl)
    then have "length (filter (\<lambda>d. x = d) ys) \<le> length (matches lh x)"
      by (simp add: ys_def filter_map o_def)
    then show ?thesis using one [of x] by (simp add: count_mset count_list_eq_length_filter)
  qed
  then have "count (mset ys) x = (if x \<in> set ys then 1 else 0)" for x
    by (metis count_greater_eq_one_iff count_mset_0_iff le_antisym set_mset_mset)
  then have "distinct ys" by (simp add: distinct_count_atmost_1)
  then show "card (ran (lh_map lh)) = length (concat (buckets lh))"
    unfolding r using distinct_card [of ys] by (simp add: ys_def)
qed


text \<open>
  C35: A hash table, from \<open>lh_new\<close> through any sequence of \<open>lh_retrieve\<close>, \<open>lh_insert\<close> and \<open>lh_delete\<close> and with any
  allocations failing, answers like a map from elements to elements up to the client's equality: a failed
  insertion reports it and changes nothing, a failed resize goes unnoticed. The count is the number of
  elements. The hash function need only agree on equal elements.
\<close>

theorem lhash_refines_map:
  assumes "client_ok cmp hsh" "lh_new True True hsh cmp = Some lh"
    and "dict_run lh_retrieve lh_insert lh_delete lh ops = (rs, lh')"
  shows "dict_run map_retrieve (map_insert (\<lambda>a b. cmp a b = 0)) (map_delete (\<lambda>a b. cmp a b = 0)) (\<lambda>x. None) ops =
      (rs, lh_map lh') \<and> lh_num_items lh' = card (ran (lh_map lh')) mod 2 ^ 64"
proof -
  have new: "lh_with cmp lh" "lh_map lh = (\<lambda>x. None)" using lh_new_ok [OF assms(1,2)] by (simp_all add: lh_with_def)
  have run: "lh_with cmp lh'" "dict_run map_retrieve (map_insert (\<lambda>a b. cmp a b = 0)) (map_delete (\<lambda>a b. cmp a b = 0)) (\<lambda>x. None) ops =
      (rs, lh_map lh')"
    using lh.dict_run_refines [OF new(1) assms(3)] new(2) by simp_all
  then have "lh_ok lh'" by (simp add: lh_with_def)
  then show ?thesis using run(2) lh_items(2) [of lh'] by (simp add: lh_num_items_def lh_ok_def)
qed

text \<open>Everything collides, and elements are equal modulo ten; the third insertion replaces the first.\<close>

lemma lhash_refines_map_witness:
  "\<exists>lh lh'. lh_new True True (\<lambda>d. 5) (\<lambda>a b. a mod 10 - b mod 10) = Some lh \<and>
    dict_run lh_retrieve lh_insert lh_delete lh
      [Insert True True 3, Insert False True 4, Insert False True 13, Retrieve 23, Delete True (33 :: int), Retrieve 3] =
      ([Inserted True None, Inserted False None, Inserted True (Some 3), Retrieved (Some 13), Deleted (Some 13), Retrieved None], lh') \<and>
    lh_num_items lh' = 0"
proof -
  define cmp :: "int \<Rightarrow> int \<Rightarrow> int" where "cmp = (\<lambda>a b. a mod 10 - b mod 10)"
  define ops where "ops = [Insert True True 3, Insert False True 4, Insert False True 13, Retrieve 23, Delete True 33, Retrieve (3 :: int)]"
  have c: "client_ok cmp (\<lambda>d. 5)" by (simp add: client_ok_def cmp_def)
  obtain lh where new: "lh_new True True (\<lambda>d. 5) cmp = Some lh" by (simp add: lh_new_def)
  obtain rs lh' where run: "dict_run lh_retrieve lh_insert lh_delete lh ops = (rs, lh')" by fastforce
  have r: "dict_run map_retrieve (map_insert (\<lambda>a b. cmp a b = 0)) (map_delete (\<lambda>a b. cmp a b = 0)) (\<lambda>x. None) ops = (rs, lh_map lh')"
    "lh_num_items lh' = card (ran (lh_map lh')) mod 2 ^ 64"
    using lhash_refines_map [OF c new run] by simp_all
  then have "rs = [Inserted True None, Inserted False None, Inserted True (Some 3), Retrieved (Some 13), Deleted (Some 13), Retrieved None]"
      "lh_map lh' = (\<lambda>x. None)"
    by (auto simp: ops_def map_retrieve_def map_insert_def map_delete_def cmp_def fun_eq_iff split: if_splits) metis
  then show ?thesis using new run r(2) by (auto simp: ops_def cmp_def)
qed

section \<open>The load\<close>

text \<open>The average chain is at most two long, and there are no more buckets than elements but for the first 16.\<close>

definition balanced :: "'d lhash \<Rightarrow> bool" where
  "balanced lh \<longleftrightarrow> callback_depth lh = 0 \<and> num_items lh < 3 * num_buckets lh \<and>
    (num_buckets lh = 16 \<or> 16 \<le> num_buckets lh \<and> num_buckets lh \<le> num_items lh)"

lemma lh_rebucket_success:
  "n < 2 ^ 60 \<Longrightarrow> num_buckets (lh_rebucket True lh n) = n \<and> num_items (lh_rebucket True lh n) = num_items lh \<and>
    callback_depth (lh_rebucket True lh n) = callback_depth lh"
  by (simp add: lh_rebucket_def Let_def)

lemma lh_maybe_resize_balanced:
  assumes "callback_depth lh = 0" "16 \<le> num_buckets lh" "num_items lh \<le> 3 * num_buckets lh"
    "num_buckets lh = 16 \<or> num_buckets lh \<le> num_items lh + 1" "num_items lh < 2 ^ 58"
  shows "balanced (lh_maybe_resize True lh) \<and> num_items (lh_maybe_resize True lh) = num_items lh"
proof -
  define n where "n = num_items lh"
  define nb where "nb = num_buckets lh"
  note s = assms [folded n_def nb_def]
  have small: "nb < 2 ^ 59" using s(2,4,5) by auto
  consider (full) "n = 3 * nb" | (empty) "n < nb" "16 < nb" | (fine) "n < 3 * nb" "nb = 16 \<or> nb \<le> n"
    using s by linarith
  then show ?thesis
  proof cases
    case full
    then have "n div nb = 3" "(nb * 2) mod 2 ^ 64 = nb * 2" using s(2) small by simp_all
    then have "lh_maybe_resize True lh = lh_rebucket True lh (nb * 2)"
      using s(1,2) by (simp add: lh_maybe_resize_def Let_def n_def [symmetric] nb_def [symmetric] kMaxAverageChainLength_def)
    then show ?thesis using lh_rebucket_success [of "nb * 2" lh] small full s by (simp add: balanced_def n_def [symmetric])
  next
    case empty
    define h where "h = (if nb div 2 < kMinNumBuckets then kMinNumBuckets else nb div 2)"
    have "n div nb = 0" using empty by simp
    then have "lh_maybe_resize True lh = lh_rebucket True lh h"
      using s(1) empty by (simp add: lh_maybe_resize_def Let_def n_def [symmetric] nb_def [symmetric]
        kMaxAverageChainLength_def kMinAverageChainLength_def kMinNumBuckets_def h_def)
    moreover have "h = 16 \<or> 16 \<le> h \<and> h \<le> n" "n < 3 * h" "h < 2 ^ 60"
      using empty s(4) small by (auto simp: h_def kMinNumBuckets_def)
    ultimately show ?thesis using lh_rebucket_success [of h lh] s(1) by (simp add: balanced_def n_def [symmetric])
  next
    case fine
    then have "n div nb < 3" "nb = 16 \<or> 0 < n div nb" using s(2) by (auto simp: less_mult_imp_div_less div_greater_zero_iff)
    then have "lh_maybe_resize True lh = lh"
      using s(1) by (auto simp: lh_maybe_resize_def Let_def n_def [symmetric] nb_def [symmetric]
        kMaxAverageChainLength_def kMinAverageChainLength_def kMinNumBuckets_def)
    then show ?thesis using fine s(1,2) by (simp add: balanced_def n_def [symmetric] nb_def [symmetric])
  qed
qed

definition sized :: "nat \<Rightarrow> 'd lhash \<Rightarrow> bool" where
  "sized c lh \<longleftrightarrow> lh_ok lh \<and> balanced lh \<and> length (concat (buckets lh)) \<le> c"

lemma sized_num_items: "sized c lh \<Longrightarrow> c < 2 ^ 58 \<Longrightarrow> num_items lh = length (concat (buckets lh))"
  by (simp add: sized_def lh_ok_def)

lemma resize_sized:
  assumes "lh_ok lh" "callback_depth lh = 0" "num_items lh \<le> 3 * num_buckets lh"
    "num_buckets lh = 16 \<or> num_buckets lh \<le> num_items lh + 1" "length (concat (buckets lh)) \<le> c" "c < 2 ^ 58"
  shows "sized c (lh_maybe_resize True lh)"
proof -
  have "same_table lh (lh_maybe_resize True lh)" using assms(1) by (rule lh_maybe_resize_same)
  moreover have "length (concat (buckets (lh_maybe_resize True lh))) = length (concat (buckets lh))"
    using calculation mset_eq_length unfolding same_table_def by metis
  moreover have "num_items lh < 2 ^ 58" using assms(1,5,6) by (simp add: lh_ok_def)
  ultimately show ?thesis
    using lh_maybe_resize_balanced [of lh] assms by (simp add: sized_def same_table_def lh_ok_def kMinNumBuckets_def)
qed

lemma edit_sized:
  assumes "sized c lh" "Suc c < 2 ^ 58" "edit True lh lh'"
  shows "sized (Suc c) lh'"
proof -
  obtain lh1 where lh1: "lh_ok lh1" "callback_depth lh1 = callback_depth lh" "num_buckets lh1 = num_buckets lh"
    and l: "lh' = lh1 \<and> length (concat (buckets lh1)) = length (concat (buckets lh)) \<or>
     lh' = lh_maybe_resize True lh1 \<and> (length (concat (buckets lh1)) = Suc (length (concat (buckets lh))) \<or>
       length (concat (buckets lh)) = Suc (length (concat (buckets lh1))))"
    using assms(3) unfolding edit_def by blast
  have c: "length (concat (buckets lh)) \<le> c" "balanced lh" using assms(1) by (simp_all add: sized_def)
  have n: "num_items lh = length (concat (buckets lh))" using sized_num_items [OF assms(1)] assms(2) by simp
  have "length (concat (buckets lh1)) \<le> Suc c" using l c by linarith
  moreover have n1: "num_items lh1 = length (concat (buckets lh1))"
    using calculation lh1(1) assms(2) by (simp add: lh_ok_def)
  ultimately show ?thesis
    using l
  proof (elim disjE conjE, goal_cases)
    case 1
    then show ?case using c lh1 n n1 by (simp add: sized_def balanced_def)
  next
    case 2
    then show ?case unfolding 2(3) using c lh1 n n1 assms(2) by (intro resize_sized) (auto simp: balanced_def)
  next
    case 3
    then show ?case unfolding 3(3) using c lh1 n n1 assms(2) by (intro resize_sized) (auto simp: balanced_def)
  qed
qed

fun allocs_succeed :: "'d dict_op \<Rightarrow> bool" where
  "allocs_succeed (Retrieve d) = True"
| "allocs_succeed (Insert a1 a2 d) = (a1 \<and> a2)"
| "allocs_succeed (Delete a d) = a"

lemma run_sized:
  "sized c lh \<Longrightarrow> c + length ops < 2 ^ 58 \<Longrightarrow> list_all allocs_succeed ops \<Longrightarrow>
    dict_run lh_retrieve lh_insert lh_delete lh ops = (rs, lh') \<Longrightarrow> sized (c + length ops) lh'"
proof (induction ops arbitrary: c lh rs)
  case (Cons op ops)
  define lh1 where "lh1 = (case op of Retrieve d \<Rightarrow> lh | Insert a1 a2 d \<Rightarrow> snd (snd (lh_insert a1 a2 lh d)) | Delete a d \<Rightarrow> snd (lh_delete a lh d))"
  have ok: "lh_ok lh" using Cons.prems(1) by (simp add: sized_def)
  have "edit True lh lh1"
  proof (cases op)
    case (Retrieve d)
    then show ?thesis using ok by (auto simp: lh1_def edit_def)
  next
    case (Insert a1 a2 d)
    then show ?thesis using lh_insert_map [OF ok, of a1 a2 d] Cons.prems(3) by (cases "lh_insert a1 a2 lh d") (auto simp: lh1_def)
  next
    case (Delete a d)
    then show ?thesis using lh_delete_map [OF ok, of a d] Cons.prems(3) by (cases "lh_delete a lh d") (auto simp: lh1_def)
  qed
  then have "sized (Suc c) lh1" using Cons.prems(1,2) by (intro edit_sized) auto
  moreover have "\<exists>rs1. dict_run lh_retrieve lh_insert lh_delete lh1 ops = (rs1, lh')"
    using Cons.prems(4) by (auto simp: lh1_def split: dict_op.splits prod.splits)
  ultimately show ?case using Cons.IH [of "Suc c" lh1] Cons.prems(2,3) by auto
qed simp

text \<open>
  C36: As long as the allocations succeed, a table that is filled and emptied by any sequence of calls
  keeps its chains short: it has fewer than three times as many elements as buckets, and except for the 16
  buckets it begins with never more buckets than elements; every element lies in the bucket of its
  hash, and the cached hash is that of the element.
\<close>

theorem lhash_load_bounded:
  assumes "client_ok cmp hsh" "lh_new True True hsh cmp = Some lh" "length ops < 2 ^ 58" "list_all allocs_succeed ops"
    and "dict_run lh_retrieve lh_insert lh_delete lh ops = (rs, lh')"
  shows "lh_num_items lh' < 3 * num_buckets lh' \<and> 16 \<le> num_buckets lh' \<and>
    (num_buckets lh' = 16 \<or> num_buckets lh' \<le> lh_num_items lh') \<and>
    num_buckets lh' = length (buckets lh') \<and>
    (\<forall>b < num_buckets lh'. \<forall>i \<in> set (buckets lh' ! b).
      item_hash i = hash lh' (item_data i) \<and> unat (item_hash i) mod num_buckets lh' = b)"
proof -
  have "sized 0 lh"
    using lh_new_ok [OF assms(1,2)] assms(2) by (auto simp: sized_def balanced_def lh_new_def kMinNumBuckets_def)
  then have s: "sized (length ops) lh'" using run_sized [of 0 lh ops rs lh'] assms(3-5) by simp
  then have p: "placed lh'" by (simp add: sized_def lh_ok_def)
  then show ?thesis
    using s placed_hash [OF p] hashed_nth [of "num_buckets lh'" "buckets lh'"]
    by (auto simp: sized_def balanced_def lh_num_items_def placed_def hashed_length)
qed

lemma lhash_load_bounded_witness:
  "\<exists>lh rs lh'. lh_new True True (\<lambda>d. word_of_int d) (-) = Some lh \<and>
    dict_run lh_retrieve lh_insert lh_delete lh (map (Insert True True) [0..50] @ [Delete True 7]) = (rs, lh') \<and>
    lh_num_items lh' < 3 * num_buckets lh'"
proof -
  have c: "client_ok (-) (\<lambda>d. word_of_int d)" by (auto simp: client_ok_def)
  obtain lh where new: "lh_new True True (\<lambda>d. word_of_int d) (-) = Some lh" by (simp add: lh_new_def)
  obtain rs lh' where run: "dict_run lh_retrieve lh_insert lh_delete lh (map (Insert True True) [0..50] @ [Delete True 7]) = (rs, lh')"
    by fastforce
  have "list_all allocs_succeed (map (Insert True True) [0..50] @ [Delete True 7 :: int dict_op])"
    by (simp add: list_all_iff)
  then show ?thesis using lhash_load_bounded [OF c new _ _ run] new run by auto
qed

end
