(* ===== verification/Stack.thy ===== *)
theory Stack
  imports Prelude "HOL-Library.Multiset"
begin

text \<open>
  The stacks of BoringSSL, \<open>crypto/stack/stack.c\<close>: growing arrays of pointers with an optional order. A pointer
  is an option, \<open>None\<close> being \<open>NULL\<close>. Comparison functions are function pointers, compared by name, and \<open>call\<close> is
  what calling one gives. \<open>qsort\<close> and \<open>bsearch\<close> of the C library are parameters, with what the C standard says of
  them as hypotheses. Every allocation may fail, and new memory may hold anything.
\<close>

section \<open>Model\<close>

record ('p, 'c) stack =
  st_num :: nat
  st_data :: "'p option list"
  st_sorted :: bool
  st_num_alloc :: nat
  st_comp :: "'c option"

definition kMinSize :: nat where "kMinSize = 4"

definition sk_new :: "bool \<Rightarrow> bool \<Rightarrow> 'c option \<Rightarrow> ('p, 'c) stack option" where
  "sk_new stack_alloc data_alloc comp_fn =
     (if \<not> stack_alloc then None
      else if \<not> data_alloc then None
      else Some \<lparr>st_num = 0, st_data = replicate kMinSize None, st_sorted = False, st_num_alloc = kMinSize,
        st_comp = comp_fn\<rparr>)"

definition sk_new_null :: "bool \<Rightarrow> bool \<Rightarrow> ('p, 'c) stack option" where
  "sk_new_null stack_alloc data_alloc = sk_new stack_alloc data_alloc None"

definition sk_num :: "('p, 'c) stack option \<Rightarrow> nat" where
  "sk_num stk = (case stk of None \<Rightarrow> 0 | Some sk \<Rightarrow> st_num sk)"

definition sk_zero :: "('p, 'c) stack option \<Rightarrow> ('p, 'c) stack option" where
  "sk_zero stk = (case stk of None \<Rightarrow> None | Some sk \<Rightarrow>
     if st_num sk = 0 then Some sk
     else Some (sk\<lparr>st_data := replicate (st_num sk) None @ drop (st_num sk) (st_data sk), st_num := 0,
       st_sorted := False\<rparr>))"

definition sk_value :: "('p, 'c) stack option \<Rightarrow> nat \<Rightarrow> 'p option" where
  "sk_value stk i = (case stk of None \<Rightarrow> None | Some sk \<Rightarrow>
     if st_num sk \<le> i then None else st_data sk ! i)"

definition sk_set :: "('p, 'c) stack option \<Rightarrow> nat \<Rightarrow> 'p option \<Rightarrow> 'p option \<times> ('p, 'c) stack option" where
  "sk_set stk i v = (case stk of None \<Rightarrow> (None, None) | Some sk \<Rightarrow>
     if st_num sk \<le> i then (None, Some sk) else (v, Some (sk\<lparr>st_data := (st_data sk)[i := v]\<rparr>)))"

text \<open>Freeing leaves no stack behind.\<close>

definition sk_free :: "('p, 'c) stack option \<Rightarrow> ('p, 'c) stack option" where
  "sk_free stk = None"

definition sk_pop_free ::
    "('p, 'c) stack option \<Rightarrow> ('p \<Rightarrow> 's \<Rightarrow> 's) \<Rightarrow> 's \<Rightarrow> 's \<times> ('p, 'c) stack option" where
  "sk_pop_free stk func s = (case stk of None \<Rightarrow> (s, None) | Some sk \<Rightarrow>
     (fold (\<lambda>i s. case st_data sk ! i of None \<Rightarrow> s | Some x \<Rightarrow> func x s) [0 ..< st_num sk] s, sk_free stk))"

text \<open>The new capacity: twice the old, one more when that overflows, and nothing when that does too.\<close>

definition sk_new_alloc :: "nat \<Rightarrow> nat option" where
  "sk_new_alloc num_alloc =
     (let bytes = (\<lambda>n. (n * 8) mod 2 ^ 64);
          over = (\<lambda>n. n < num_alloc \<or> bytes n div 8 \<noteq> n);
          new_alloc = (num_alloc * 2) mod 2 ^ 64;
          new_alloc = (if over new_alloc then size_add num_alloc 1 else new_alloc) in
      if over new_alloc then None else Some new_alloc)"

text \<open>\<open>mem\<close> is what \<open>OPENSSL_realloc\<close> gives: nothing, or memory whose new slots hold anything.\<close>

definition sk_insert ::
    "(nat \<Rightarrow> 'p option) option \<Rightarrow> ('p, 'c) stack option \<Rightarrow> 'p option \<Rightarrow> nat \<Rightarrow> nat \<times> ('p, 'c) stack option" where
  "sk_insert mem stk p pos = (case stk of None \<Rightarrow> (0, None) | Some sk \<Rightarrow>
     let grown =
       (if st_num_alloc sk \<le> size_add (st_num sk) 1 then
          (case sk_new_alloc (st_num_alloc sk) of None \<Rightarrow> None
           | Some new_alloc \<Rightarrow>
               (case mem of None \<Rightarrow> None
                | Some fresh \<Rightarrow>
                    Some (sk\<lparr>st_data := st_data sk @ map fresh [length (st_data sk) ..< new_alloc],
                      st_num_alloc := new_alloc\<rparr>)))
        else Some sk) in
     case grown of None \<Rightarrow> (0, Some sk)
     | Some sk \<Rightarrow>
         let d = st_data sk;
             d = (if st_num sk \<le> pos then d[st_num sk := p]
                  else take pos d @ p # take (st_num sk - pos) (drop pos d) @ drop (st_num sk + 1) d);
             sk = sk\<lparr>st_data := d, st_num := size_add (st_num sk) 1, st_sorted := False\<rparr> in
         (st_num sk, Some sk))"

definition sk_delete :: "('p, 'c) stack option \<Rightarrow> nat \<Rightarrow> 'p option \<times> ('p, 'c) stack option" where
  "sk_delete stk pos = (case stk of None \<Rightarrow> (None, None) | Some sk \<Rightarrow>
     if st_num sk \<le> pos then (None, Some sk)
     else
       let d = st_data sk;
           moved = (if pos \<noteq> st_num sk - 1 then
               take pos d @ take (st_num sk - pos - 1) (drop (pos + 1) d) @ drop (st_num sk - 1) d
             else d) in
       (d ! pos, Some (sk\<lparr>st_data := moved, st_num := st_num sk - 1\<rparr>)))"

text \<open>The search for a pointer from index \<open>i\<close>; \<open>k\<close> elements are left.\<close>

primrec find_ptr :: "'p option list \<Rightarrow> 'p option \<Rightarrow> nat \<Rightarrow> nat \<Rightarrow> nat option" where
  "find_ptr d p i 0 = None"
| "find_ptr d p i (Suc k) = (if d ! i = p then Some i else find_ptr d p (Suc i) k)"

definition sk_delete_ptr :: "('p, 'c) stack option \<Rightarrow> 'p option \<Rightarrow> 'p option \<times> ('p, 'c) stack option" where
  "sk_delete_ptr stk p = (case stk of None \<Rightarrow> (None, None) | Some sk \<Rightarrow>
     case find_ptr (st_data sk) p 0 (st_num sk) of None \<Rightarrow> (None, stk) | Some i \<Rightarrow> sk_delete stk i)"

type_synonym 'p cmp = "'p option \<Rightarrow> 'p option \<Rightarrow> int"
type_synonym 'p qsort = "'p cmp \<Rightarrow> 'p option list \<Rightarrow> 'p option list"
type_synonym 'p bsearch = "'p cmp \<Rightarrow> 'p option \<Rightarrow> 'p option list \<Rightarrow> nat option"

definition sk_sort :: "('c \<Rightarrow> 'p cmp) \<Rightarrow> 'p qsort \<Rightarrow> ('p, 'c) stack option \<Rightarrow> ('p, 'c) stack option" where
  "sk_sort call qsort stk = (case stk of None \<Rightarrow> None | Some sk \<Rightarrow>
     case st_comp sk of None \<Rightarrow> stk
     | Some c \<Rightarrow>
         if st_sorted sk then stk
         else Some (sk\<lparr>st_data := qsort (call c) (take (st_num sk) (st_data sk)) @ drop (st_num sk) (st_data sk),
           st_sorted := True\<rparr>))"

text \<open>From the match that \<open>bsearch\<close> found back to the first one.\<close>

primrec first_match :: "'p cmp \<Rightarrow> 'p option \<Rightarrow> 'p option list \<Rightarrow> nat \<Rightarrow> nat" where
  "first_match cmp p d 0 = 0"
| "first_match cmp p d (Suc idx) = (if cmp p (d ! idx) = 0 then first_match cmp p d idx else Suc idx)"

definition sk_find :: "('c \<Rightarrow> 'p cmp) \<Rightarrow> 'p qsort \<Rightarrow> 'p bsearch \<Rightarrow> ('p, 'c) stack option \<Rightarrow> 'p option \<Rightarrow>
    nat option \<times> ('p, 'c) stack option" where
  "sk_find call qsort bsearch stk p = (case stk of None \<Rightarrow> (None, None) | Some sk \<Rightarrow>
     case st_comp sk of None \<Rightarrow> (find_ptr (st_data sk) p 0 (st_num sk), stk)
     | Some c \<Rightarrow>
         if p = None then (None, stk)
         else
           (case sk_sort call qsort stk of None \<Rightarrow> (None, None)
            | Some sk \<Rightarrow>
                (case bsearch (call c) p (take (st_num sk) (st_data sk)) of None \<Rightarrow> (None, Some sk)
                 | Some r \<Rightarrow> (Some (first_match (call c) p (st_data sk) r), Some sk))))"

definition sk_shift :: "('p, 'c) stack option \<Rightarrow> 'p option \<times> ('p, 'c) stack option" where
  "sk_shift stk = (case stk of None \<Rightarrow> (None, None) | Some sk \<Rightarrow>
     if st_num sk = 0 then (None, stk) else sk_delete stk 0)"

definition sk_push ::
    "(nat \<Rightarrow> 'p option) option \<Rightarrow> ('p, 'c) stack \<Rightarrow> 'p option \<Rightarrow> nat \<times> ('p, 'c) stack option" where
  "sk_push mem sk p = sk_insert mem (Some sk) p (st_num sk)"

definition sk_pop :: "('p, 'c) stack option \<Rightarrow> 'p option \<times> ('p, 'c) stack option" where
  "sk_pop stk = (case stk of None \<Rightarrow> (None, None) | Some sk \<Rightarrow>
     if st_num sk = 0 then (None, stk) else sk_delete stk (st_num sk - 1))"

definition sk_dup ::
    "bool \<Rightarrow> bool \<Rightarrow> (nat \<Rightarrow> 'p option) option \<Rightarrow> ('p, 'c) stack option \<Rightarrow> ('p, 'c) stack option" where
  "sk_dup stack_alloc data_alloc mem stk = (case stk of None \<Rightarrow> None | Some sk \<Rightarrow>
     case sk_new stack_alloc data_alloc (st_comp sk) of None \<Rightarrow> None
     | Some ret \<Rightarrow>
         (case mem of None \<Rightarrow> sk_free (Some ret)
          | Some fresh \<Rightarrow>
              let s = take (st_num_alloc sk) (st_data ret @ map fresh [length (st_data ret) ..< st_num_alloc sk]) in
              Some \<lparr>st_num = st_num sk, st_data = take (st_num sk) (st_data sk) @ drop (st_num sk) s,
                st_sorted = st_sorted sk, st_num_alloc = st_num_alloc sk, st_comp = st_comp sk\<rparr>))"

definition sk_is_sorted :: "('p, 'c) stack option \<Rightarrow> bool" where
  "sk_is_sorted stk = (case stk of None \<Rightarrow> True | Some sk \<Rightarrow> st_sorted sk)"

definition sk_set_cmp_func :: "('p, 'c) stack \<Rightarrow> 'c option \<Rightarrow> 'c option \<times> ('p, 'c) stack" where
  "sk_set_cmp_func sk comp_fn =
     (st_comp sk, (if st_comp sk \<noteq> comp_fn then sk\<lparr>st_sorted := False\<rparr> else sk)\<lparr>st_comp := comp_fn\<rparr>)"

text \<open>
  The client's \<open>copy_func\<close> and \<open>free_func\<close> have a state of their own. The loop is at index \<open>i\<close> with \<open>k\<close>
  elements left.
\<close>

primrec deep_copy_loop :: "('p \<Rightarrow> 's \<Rightarrow> 'p option \<times> 's) \<Rightarrow> ('p \<Rightarrow> 's \<Rightarrow> 's) \<Rightarrow> ('p, 'c) stack \<Rightarrow> nat \<Rightarrow> nat \<Rightarrow> 's \<Rightarrow>
    ('p, 'c) stack option \<times> 's" where
  "deep_copy_loop copy_func free_func ret i 0 s = (Some ret, s)"
| "deep_copy_loop copy_func free_func ret i (Suc k) s =
     (case st_data ret ! i of None \<Rightarrow> deep_copy_loop copy_func free_func ret (Suc i) k s
      | Some x \<Rightarrow>
          (case copy_func x s of
             (None, s) \<Rightarrow>
               (sk_free (Some ret),
                fold (\<lambda>j s. case st_data ret ! j of None \<Rightarrow> s | Some y \<Rightarrow> free_func y s) [0 ..< i] s)
           | (Some y, s) \<Rightarrow>
               deep_copy_loop copy_func free_func (ret\<lparr>st_data := (st_data ret)[i := Some y]\<rparr>) (Suc i) k s))"

definition sk_deep_copy :: "bool \<Rightarrow> bool \<Rightarrow> (nat \<Rightarrow> 'p option) option \<Rightarrow> ('p, 'c) stack option \<Rightarrow>
    ('p \<Rightarrow> 's \<Rightarrow> 'p option \<times> 's) \<Rightarrow> ('p \<Rightarrow> 's \<Rightarrow> 's) \<Rightarrow> 's \<Rightarrow> ('p, 'c) stack option \<times> 's" where
  "sk_deep_copy stack_alloc data_alloc mem stk copy_func free_func s =
     (case sk_dup stack_alloc data_alloc mem stk of None \<Rightarrow> (None, s)
      | Some ret \<Rightarrow> deep_copy_loop copy_func free_func ret 0 (st_num ret) s)"

section \<open>What the callbacks and the C library promise\<close>

definition cmp_ok :: "'p cmp \<Rightarrow> bool" where
  "cmp_ok f \<longleftrightarrow> (\<forall>a b. f a b \<le> 0 \<longleftrightarrow> 0 \<le> f b a) \<and> (\<forall>a b c. f a b \<le> 0 \<longrightarrow> f b c \<le> 0 \<longrightarrow> f a c \<le> 0)"

abbreviation ordered :: "'p cmp \<Rightarrow> 'p option list \<Rightarrow> bool" where
  "ordered f xs \<equiv> sorted_wrt (\<lambda>a b. f a b \<le> 0) xs"

text \<open>Equal elements may come out of \<open>qsort\<close> in any order.\<close>

definition qsort_ok :: "'p qsort \<Rightarrow> bool" where
  "qsort_ok qsort \<longleftrightarrow> (\<forall>f xs. cmp_ok f \<longrightarrow> mset (qsort f xs) = mset xs \<and> ordered f (qsort f xs))"

text \<open>\<open>bsearch\<close> may return any match.\<close>

definition bsearch_ok :: "'p bsearch \<Rightarrow> bool" where
  "bsearch_ok bsearch \<longleftrightarrow> (\<forall>f p xs. cmp_ok f \<longrightarrow> ordered f xs \<longrightarrow>
    (case bsearch f p xs of None \<Rightarrow> \<forall>x \<in> set xs. f p x \<noteq> 0 | Some i \<Rightarrow> i < length xs \<and> f p (xs ! i) = 0))"

lemma qsort_perm: "qsort_ok q \<Longrightarrow> cmp_ok f \<Longrightarrow> mset (q f xs) = mset xs"
  and qsort_ordered: "qsort_ok q \<Longrightarrow> cmp_ok f \<Longrightarrow> ordered f (q f xs)"
  by (simp_all add: qsort_ok_def)

lemma qsort_length: "qsort_ok q \<Longrightarrow> cmp_ok f \<Longrightarrow> length (q f xs) = length xs"
  by (metis qsort_perm size_mset)

lemma cmp_sym: "cmp_ok f \<Longrightarrow> f a b = 0 \<longleftrightarrow> f b a = 0"
  unfolding cmp_ok_def by (metis order.antisym order.refl)

lemma cmp_between:
  assumes "cmp_ok f" "f p a = 0" "f p b = 0" "f a x \<le> 0" "f x b \<le> 0"
  shows "f p x = 0"
proof -
  have s: "f x y \<le> 0 \<longleftrightarrow> 0 \<le> f y x" and t: "f x y \<le> 0 \<Longrightarrow> f y z \<le> 0 \<Longrightarrow> f x z \<le> 0" for x y z
    using assms(1) unfolding cmp_ok_def by blast+
  have "f p x \<le> 0" using t [of p a x] assms by simp
  moreover have "f x p \<le> 0" using t [of x b p] s [of b p] assms cmp_sym [OF assms(1), of p b] by simp
  ultimately show ?thesis using s [of x p] by simp
qed

section \<open>The list that a stack stands for\<close>

definition elements :: "('p, 'c) stack \<Rightarrow> 'p option list" where
  "elements sk = take (st_num sk) (st_data sk)"

text \<open>There is always a free slot, and the size in bytes is a \<open>size_t\<close>. The flag is never wrong.\<close>

definition slots_ok :: "('p, 'c) stack \<Rightarrow> bool" where
  "slots_ok sk \<longleftrightarrow> length (st_data sk) = st_num_alloc sk \<and> st_num sk < st_num_alloc sk \<and> st_num_alloc sk < 2 ^ 61"

definition flag_ok :: "('c \<Rightarrow> 'p cmp) \<Rightarrow> ('p, 'c) stack \<Rightarrow> bool" where
  "flag_ok call sk \<longleftrightarrow> (st_sorted sk \<longrightarrow> (\<exists>c. st_comp sk = Some c \<and> ordered (call c) (elements sk)))"

abbreviation stack_ok :: "('c \<Rightarrow> 'p cmp) \<Rightarrow> ('p, 'c) stack \<Rightarrow> bool" where
  "stack_ok call sk \<equiv> slots_ok sk \<and> flag_ok call sk"

lemma length_elements: "slots_ok sk \<Longrightarrow> length (elements sk) = st_num sk"
  by (simp add: elements_def slots_ok_def)

lemma nth_elements: "i < st_num sk \<Longrightarrow> st_data sk ! i = elements sk ! i"
  by (simp add: elements_def)

definition put_at :: "nat \<Rightarrow> 'a \<Rightarrow> 'a list \<Rightarrow> 'a list" where
  "put_at i x xs = take i xs @ x # drop i xs"

definition drop_at :: "nat \<Rightarrow> 'a list \<Rightarrow> 'a list" where
  "drop_at i xs = take i xs @ drop (Suc i) xs"

lemma sk_new_ok:
  "sk_new True True comp_fn = Some sk \<Longrightarrow>
    stack_ok call sk \<and> elements sk = [] \<and> \<not> st_sorted sk \<and> st_comp sk = comp_fn"
  by (auto simp: sk_new_def kMinSize_def slots_ok_def flag_ok_def elements_def)

lemma alloc_bytes: "(n * 8) mod 2 ^ 64 div 8 = n \<longleftrightarrow> n < 2 ^ 61" for n :: nat
proof
  have "(n * 8) mod 2 ^ 64 < 2 ^ 61 * 8" by simp
  then have "(n * 8) mod 2 ^ 64 div 8 < 2 ^ 61" by (rule less_mult_imp_div_less)
  then show "(n * 8) mod 2 ^ 64 div 8 = n \<Longrightarrow> n < 2 ^ 61" by (metis)
  show "n < 2 ^ 61 \<Longrightarrow> (n * 8) mod 2 ^ 64 div 8 = n" by simp
qed

lemma sk_new_alloc_bounds:
  assumes "sk_new_alloc n = Some m" "0 < n"
  shows "n < m" "m < 2 ^ 61"
proof -
  show m: "m < 2 ^ 61" and "n < m"
    using assms alloc_bytes [of "(n * 2) mod 2 ^ 64"] alloc_bytes [of "size_add n 1"] size_add_bound [of n 1]
    unfolding sk_new_alloc_def Let_def alloc_bytes
    by (auto simp: size_add_def mod_if split: if_splits)
qed

lemma sk_new_alloc_some:
  assumes "0 < n" "n + 1 < 2 ^ 61"
  shows "sk_new_alloc n \<noteq> None"
proof -
  have "size_add n 1 = n + 1" using assms by simp
  then show ?thesis using assms unfolding sk_new_alloc_def Let_def alloc_bytes by auto
qed

section \<open>Every operation on the list\<close>

lemma sk_insert_grown:
  assumes "slots_ok sk" "st_num_alloc sk \<le> size_add (st_num sk) 1" "sk_new_alloc (st_num_alloc sk) = Some m"
  shows "length (st_data sk @ map fresh [length (st_data sk) ..< m]) = m" "st_num sk + 1 < m" "m < 2 ^ 61"
    "take (st_num sk) (st_data sk @ map fresh [length (st_data sk) ..< m]) = elements sk"
  using assms sk_new_alloc_bounds [OF assms(3)] by (auto simp: slots_ok_def elements_def)

lemma put_slots:
  assumes "length d = n" "k + 1 < n"
  shows "k \<le> i \<Longrightarrow> take (Suc k) (d[k := p]) = put_at i p (take k d)"
    and "i < k \<Longrightarrow> length (take i d @ p # take (k - i) (drop i d) @ drop (k + 1) d) = n"
    and "i < k \<Longrightarrow> take (Suc k) (take i d @ p # take (k - i) (drop i d) @ drop (k + 1) d) = put_at i p (take k d)"
  using assms by (simp_all add: put_at_def take_Suc_conv_app_nth drop_take Suc_diff_le min_def)

text \<open>An insertion fails and changes nothing, or it inserts; it does with memory to spare.\<close>

lemma sk_insert_spec:
  assumes ok: "slots_ok sk" and ins: "sk_insert mem (Some sk) p i = (r, stk)"
  obtains "r = 0" "stk = Some sk" "st_num_alloc sk + 1 < 2 ^ 61 \<Longrightarrow> mem = None"
  | sk' where "stk = Some sk'" "r = Suc (st_num sk)" "stack_ok call sk'" "elements sk' = put_at i p (elements sk)"
      "\<not> st_sorted sk'" "st_comp sk' = st_comp sk" "st_num_alloc sk \<le> st_num_alloc sk'"
proof -
  note inserted = that(2)
  have put: thesis if g: "length d = m" "st_num sk + 1 < m" "m < 2 ^ 61" "take (st_num sk) d = elements sk"
      "st_num_alloc sk \<le> m"
    and r: "(r, stk) = (let d' = (if st_num sk \<le> i then d[st_num sk := p]
         else take i d @ p # take (st_num sk - i) (drop i d) @ drop (st_num sk + 1) d);
         sk' = sk\<lparr>st_data := d', st_num_alloc := m, st_num := size_add (st_num sk) 1, st_sorted := False\<rparr> in
         (st_num sk', Some sk'))" for d m
  proof -
    define sk' where "sk' = sk\<lparr>st_data := (if st_num sk \<le> i then d[st_num sk := p]
         else take i d @ p # take (st_num sk - i) (drop i d) @ drop (st_num sk + 1) d), st_num_alloc := m,
         st_num := size_add (st_num sk) 1, st_sorted := False\<rparr>"
    have n: "size_add (st_num sk) 1 = Suc (st_num sk)" using g by simp
    note p = put_slots [OF g(1,2), of i p, unfolded g(4)]
    show thesis
      by (rule inserted [of sk'])
         (use r g n p in \<open>simp_all add: sk'_def Let_def slots_ok_def flag_ok_def elements_def\<close>)
  qed
  show thesis
  proof (cases "st_num_alloc sk \<le> size_add (st_num sk) 1")
    case False
    then show thesis using put [of "st_data sk" "st_num_alloc sk"] ok ins
      by (auto simp: sk_insert_def slots_ok_def elements_def Let_def)
  next
    case grow: True
    show thesis
    proof (cases "sk_new_alloc (st_num_alloc sk)")
      case None
      then show thesis using that(1) ok ins grow sk_new_alloc_some [of "st_num_alloc sk"]
        by (auto simp: sk_insert_def slots_ok_def)
    next
      case (Some m)
      show thesis
      proof (cases mem)
        case None
        then show thesis using that(1) ins grow Some by (simp add: sk_insert_def)
      next
        case mem: (Some fresh)
        have grown: "st_num_alloc sk \<le> m" using sk_new_alloc_bounds [OF Some] ok by (simp add: slots_ok_def)
        show thesis
          by (rule put [OF sk_insert_grown(1) [OF ok grow Some, of fresh] sk_insert_grown(2,3) [OF ok grow Some]
                 sk_insert_grown(4) [OF ok grow Some, of fresh] grown])
             (use ins grow Some mem in \<open>auto simp: sk_insert_def Let_def\<close>)
      qed
    qed
  qed
qed

lemma sk_delete_spec:
  assumes ok: "stack_ok call sk"
  obtains "st_num sk \<le> i" "sk_delete (Some sk) i = (None, Some sk)"
  | sk' where "i < st_num sk" "sk_delete (Some sk) i = (elements sk ! i, Some sk')" "stack_ok call sk'"
      "elements sk' = drop_at i (elements sk)" "st_sorted sk' = st_sorted sk" "st_comp sk' = st_comp sk"
      "st_num_alloc sk' = st_num_alloc sk"
proof (cases "st_num sk \<le> i")
  case True
  then show thesis using that(1) by (simp add: sk_delete_def)
next
  case False
  define d where "d = st_data sk"
  define k where "k = st_num sk - 1"
  define moved where "moved = (if i \<noteq> k then take i d @ take (k - i) (drop (i + 1) d) @ drop k d else d)"
  have n: "st_num sk = Suc k" "i \<le> k" "Suc k < length d" "length d = st_num_alloc sk"
    using False ok by (auto simp: k_def d_def slots_ok_def)
  have m: "length moved = length d" "take k moved = drop_at i (elements sk)"
    using n by (auto simp: moved_def drop_at_def elements_def d_def [symmetric] drop_take min_def)
  define sk' where "sk' = sk\<lparr>st_data := moved, st_num := k\<rparr>"
  have "sorted_wrt P (drop_at i xs)" if "sorted_wrt P xs" for P and xs :: "'a option list"
    using that set_drop_subset_set_drop [of i "Suc i" xs] sorted_wrt_append [of P "take i xs" "drop i xs"]
    by (auto simp: drop_at_def sorted_wrt_append sorted_wrt_drop)
  moreover have e: "elements sk' = drop_at i (elements sk)" using m by (simp add: sk'_def elements_def)
  ultimately have "stack_ok call sk'"
    using ok n m by (auto simp: sk'_def slots_ok_def flag_ok_def)
  moreover have "sk_delete (Some sk) i = (elements sk ! i, Some sk')"
    using False n(1) by (simp add: sk_delete_def sk'_def moved_def d_def [symmetric] elements_def Let_def)
  ultimately show thesis using that(2) [of sk'] e False by (simp add: sk'_def)
qed

definition index_of :: "('a \<Rightarrow> bool) \<Rightarrow> 'a list \<Rightarrow> nat option" where
  "index_of P xs = (if list_ex P xs then Some (length (takeWhile (\<lambda>x. \<not> P x) xs)) else None)"

lemma index_of_simps [simp]:
  "index_of P [] = None"
  "index_of P (x # xs) = (if P x then Some 0 else map_option Suc (index_of P xs))"
  by (simp_all add: index_of_def)

lemma index_of_Some: "index_of P xs = Some i \<Longrightarrow> i < length xs \<and> P (xs ! i) \<and> (\<forall>j < i. \<not> P (xs ! j))"
  by (induction xs arbitrary: i) (auto simp: less_Suc_eq_0_disj split: if_splits)

lemma index_of_None: "index_of P xs = None \<longleftrightarrow> (\<forall>x \<in> set xs. \<not> P x)"
  by (induction xs) auto

lemma index_ofI: "i < length xs \<Longrightarrow> P (xs ! i) \<Longrightarrow> (\<And>j. j < i \<Longrightarrow> \<not> P (xs ! j)) \<Longrightarrow> index_of P xs = Some i"
proof (induction xs arbitrary: i)
  case (Cons x xs)
  show ?case
  proof (cases i)
    case (Suc k)
    have "\<not> P x" using Cons.prems(3) [of 0] Suc by simp
    moreover have "index_of P xs = Some k"
      using Cons.prems(1,2) Cons.prems(3) [of "Suc _"] Suc by (intro Cons.IH) auto
    ultimately show ?thesis using Suc by simp
  qed (use Cons.prems in simp)
qed simp

lemma find_ptr_index:
  "i + k \<le> length d \<Longrightarrow> find_ptr d p i k = map_option ((+) i) (index_of (\<lambda>x. x = p) (take k (drop i d)))"
proof (induction k arbitrary: i)
  case (Suc k)
  then have "drop i d = d ! i # drop (Suc i) d" by (simp add: Cons_nth_drop_Suc)
  then show ?case using Suc by (simp add: option.map_comp o_def)
qed simp

lemma find_ptr_elements:
  "slots_ok sk \<Longrightarrow> find_ptr (st_data sk) p 0 (st_num sk) = index_of (\<lambda>x. x = p) (elements sk)"
  using find_ptr_index [of 0 "st_num sk" "st_data sk" p] by (cases "index_of (\<lambda>x. x = p) (elements sk)") (simp_all add: slots_ok_def elements_def)

lemma sk_sort_spec:
  assumes q: "qsort_ok q" and cmp: "\<And>c. cmp_ok (call c)" and ok: "stack_ok call sk"
  obtains sk' where "sk_sort call q (Some sk) = Some sk'" "stack_ok call sk'"
    "elements sk' = (case st_comp sk of None \<Rightarrow> elements sk
       | Some c \<Rightarrow> if st_sorted sk then elements sk else q (call c) (elements sk))"
    "st_sorted sk' \<longleftrightarrow> st_comp sk \<noteq> None" "st_comp sk' = st_comp sk" "st_num_alloc sk' = st_num_alloc sk"
proof (cases "st_comp sk = None \<or> st_sorted sk")
  case True
  then show thesis using that [of sk] ok by (auto simp: sk_sort_def flag_ok_def split: option.splits)
next
  case False
  then obtain c where c: "st_comp sk = Some c" "\<not> st_sorted sk" by auto
  define sk' where "sk' = sk\<lparr>st_data := q (call c) (elements sk) @ drop (st_num sk) (st_data sk), st_sorted := True\<rparr>"
  have l: "length (q (call c) (elements sk)) = st_num sk"
    using qsort_length [OF q cmp] length_elements ok by fastforce
  then have "elements sk' = q (call c) (elements sk)" by (simp add: sk'_def elements_def)
  then show thesis using that [of sk'] ok c l qsort_ordered [OF q cmp]
    by (auto simp: sk_sort_def sk'_def slots_ok_def flag_ok_def elements_def)
qed

text \<open>In an ordered list the matches are together.\<close>

lemma first_match_index:
  assumes cmp: "cmp_ok f" and o: "ordered f xs" and r: "r < length xs" "f p (xs ! r) = 0" and i: "i \<le> r"
    "\<And>j. i \<le> j \<Longrightarrow> j \<le> r \<Longrightarrow> f p (xs ! j) = 0"
  shows "index_of (\<lambda>x. f p x = 0) xs = Some (first_match f p xs i)"
  using i
proof (induction i)
  case 0
  have "f p (xs ! 0) = 0" using 0(2) [of 0] by simp
  then show ?case using r(1) by (cases xs) auto
next
  case (Suc i)
  show ?case
  proof (cases "f p (xs ! i) = 0")
    case True
    then have "f p (xs ! j) = 0" if "i \<le> j" "j \<le> r" for j
      using Suc.prems(2) [of j] that by (cases "i = j") auto
    then show ?thesis using Suc.IH Suc.prems(1) True by simp
  next
    case False
    have "f p (xs ! j) \<noteq> 0" if "j < Suc i" for j
    proof
      assume "f p (xs ! j) = 0"
      moreover from this have "j < i" using that False by (cases "j = i") auto
      moreover have "f (xs ! j) (xs ! i) \<le> 0" "f (xs ! i) (xs ! r) \<le> 0"
        using \<open>j < i\<close> Suc.prems(1) r(1) o by (auto simp: sorted_wrt_iff_nth_less)
      ultimately show False using cmp_between [OF cmp _ r(2)] False by blast
    qed
    then show ?thesis using index_ofI [of "Suc i" xs "\<lambda>x. f p x = 0"] Suc.prems r False by simp
  qed
qed

lemma bsearch_first:
  assumes "bsearch_ok b" "cmp_ok f" "ordered f xs"
  shows "map_option (first_match f p xs) (b f p xs) = index_of (\<lambda>x. f p x = 0) xs"
proof -
  have *: "case b f p xs of None \<Rightarrow> \<forall>x \<in> set xs. f p x \<noteq> 0 | Some i \<Rightarrow> i < length xs \<and> f p (xs ! i) = 0"
    using assms unfolding bsearch_ok_def by blast
  show ?thesis
  proof (cases "b f p xs")
    case None
    then have "index_of (\<lambda>x. f p x = 0) xs = None" using * by (simp add: index_of_None)
    then show ?thesis using None by simp
  next
    case (Some r)
    then show ?thesis using * first_match_index [OF assms(2,3), of r p r] by simp
  qed
qed

lemma bsearch_less: "bsearch_ok b \<Longrightarrow> cmp_ok f \<Longrightarrow> ordered f xs \<Longrightarrow> b f p xs = Some r \<Longrightarrow> r < length xs"
  unfolding bsearch_ok_def by (metis (no_types, lifting) option.simps(5))

lemma first_match_take: "r \<le> n \<Longrightarrow> first_match f p (take n d) r = first_match f p d r"
  by (induction r) auto

lemma sk_find_spec:
  assumes q: "qsort_ok q" and b: "bsearch_ok b" and cmp: "\<And>c. cmp_ok (call c)" and ok: "stack_ok call sk"
  obtains c sk' where "st_comp sk = Some c" "p \<noteq> None" "sk_sort call q (Some sk) = Some sk'" "stack_ok call sk'"
    "sk_find call q b (Some sk) p = (index_of (\<lambda>x. call c p x = 0) (elements sk'), Some sk')"
  | "st_comp sk = None" "sk_find call q b (Some sk) p = (index_of (\<lambda>x. x = p) (elements sk), Some sk)"
  | "st_comp sk \<noteq> None" "p = None" "sk_find call q b (Some sk) p = (None, Some sk)"
proof (cases "st_comp sk")
  case None
  then show thesis using that(2) ok by (simp add: sk_find_def find_ptr_elements)
next
  case (Some c)
  show thesis
  proof (cases "p = None")
    case True
    then show thesis using that(3) Some by (simp add: sk_find_def)
  next
    case False
    obtain sk' where s: "sk_sort call q (Some sk) = Some sk'" "stack_ok call sk'" "st_sorted sk'" "st_comp sk' = Some c"
      using sk_sort_spec [of q call, OF q cmp ok] Some by (metis option.distinct(1))
    then have "ordered (call c) (elements sk')" by (auto simp: flag_ok_def)
    note e = bsearch_first [OF b cmp this, of p]
    have "r \<le> st_num sk'" if "b (call c) p (elements sk') = Some r" for r
      using bsearch_less [OF b cmp \<open>ordered (call c) (elements sk')\<close> that] length_elements [of sk'] s(2) by simp
    then have "sk_find call q b (Some sk) p = (index_of (\<lambda>x. call c p x = 0) (elements sk'), Some sk')"
      using Some False s(1) e unfolding elements_def
      by (auto simp: sk_find_def first_match_take split: option.splits)
    then show thesis using that(1) [of c sk'] Some False s by simp
  qed
qed

section \<open>Sequences of calls\<close>

datatype ('p, 'c) stack_op =
  Do_insert "(nat \<Rightarrow> 'p option) option" "'p option" nat
  | Do_push "(nat \<Rightarrow> 'p option) option" "'p option"
  | Do_delete nat | Do_delete_ptr "'p option" | Do_shift | Do_pop | Do_zero
  | Do_value nat | Do_num | Do_find "'p option" | Do_sort | Do_is_sorted | Do_set_cmp "'c option"

datatype ('p, 'c) stack_result =
  Size nat | Ptr "'p option" | Index "nat option" | Count nat | Flag bool | Cmp "'c option" | Nothing

fun stack_step :: "('c \<Rightarrow> 'p cmp) \<Rightarrow> 'p qsort \<Rightarrow> 'p bsearch \<Rightarrow> ('p, 'c) stack \<Rightarrow> ('p, 'c) stack_op \<Rightarrow>
    ('p, 'c) stack_result \<times> ('p, 'c) stack option" where
  "stack_step call q b sk (Do_insert mem p i) = map_prod Size id (sk_insert mem (Some sk) p i)"
| "stack_step call q b sk (Do_push mem p) = map_prod Size id (sk_push mem sk p)"
| "stack_step call q b sk (Do_delete i) = map_prod Ptr id (sk_delete (Some sk) i)"
| "stack_step call q b sk (Do_delete_ptr p) = map_prod Ptr id (sk_delete_ptr (Some sk) p)"
| "stack_step call q b sk Do_shift = map_prod Ptr id (sk_shift (Some sk))"
| "stack_step call q b sk Do_pop = map_prod Ptr id (sk_pop (Some sk))"
| "stack_step call q b sk Do_zero = (Nothing, sk_zero (Some sk))"
| "stack_step call q b sk (Do_value i) = (Ptr (sk_value (Some sk) i), Some sk)"
| "stack_step call q b sk Do_num = (Count (sk_num (Some sk)), Some sk)"
| "stack_step call q b sk (Do_find p) = map_prod Index id (sk_find call q b (Some sk) p)"
| "stack_step call q b sk Do_sort = (Nothing, sk_sort call q (Some sk))"
| "stack_step call q b sk Do_is_sorted = (Flag (sk_is_sorted (Some sk)), Some sk)"
| "stack_step call q b sk (Do_set_cmp c) = map_prod Cmp Some (sk_set_cmp_func sk c)"

fun stack_run :: "('c \<Rightarrow> 'p cmp) \<Rightarrow> 'p qsort \<Rightarrow> 'p bsearch \<Rightarrow> ('p, 'c) stack option \<Rightarrow> ('p, 'c) stack_op list \<Rightarrow>
    ('p, 'c) stack_result list \<times> ('p, 'c) stack option" where
  "stack_run call q b None ops = ([], None)"
| "stack_run call q b (Some sk) [] = ([], Some sk)"
| "stack_run call q b (Some sk) (op # ops) =
     (let (r, stk) = stack_step call q b sk op; (rs, stk) = stack_run call q b stk ops in (r # rs, stk))"

text \<open>
  The same calls on a list, the flag and the comparison function. An insertion that returned 0 did nothing.
\<close>

fun list_put :: "('p, 'c) stack_result \<Rightarrow> nat \<Rightarrow> 'p option \<Rightarrow> 'p option list \<times> bool \<times> 'c option \<Rightarrow>
    ('p, 'c) stack_result \<times> 'p option list \<times> bool \<times> 'c option" where
  "list_put r i p (xs, s, c) = (if r = Size 0 then (r, xs, s, c) else (Size (Suc (length xs)), put_at i p xs, False, c))"

fun list_del :: "nat option \<Rightarrow> 'p option list \<times> bool \<times> 'c option \<Rightarrow>
    ('p, 'c) stack_result \<times> 'p option list \<times> bool \<times> 'c option" where
  "list_del None (xs, s, c) = (Ptr None, xs, s, c)"
| "list_del (Some i) (xs, s, c) = (if i < length xs then (Ptr (xs ! i), drop_at i xs, s, c) else (Ptr None, xs, s, c))"

fun list_sort :: "('c \<Rightarrow> 'p cmp) \<Rightarrow> 'p qsort \<Rightarrow> 'p option list \<times> bool \<times> 'c option \<Rightarrow> 'p option list \<times> bool \<times> 'c option" where
  "list_sort call q (xs, s, None) = (xs, s, None)"
| "list_sort call q (xs, s, Some c) = (if s then xs else q (call c) xs, True, Some c)"

fun list_step :: "('c \<Rightarrow> 'p cmp) \<Rightarrow> 'p qsort \<Rightarrow> 'p option list \<times> bool \<times> 'c option \<Rightarrow> ('p, 'c) stack_op \<Rightarrow>
    ('p, 'c) stack_result \<Rightarrow> ('p, 'c) stack_result \<times> 'p option list \<times> bool \<times> 'c option" where
  "list_step call q l (Do_insert mem p i) r = list_put r i p l"
| "list_step call q l (Do_push mem p) r = list_put r (length (fst l)) p l"
| "list_step call q l (Do_delete i) r = list_del (Some i) l"
| "list_step call q l (Do_delete_ptr p) r = list_del (index_of (\<lambda>x. x = p) (fst l)) l"
| "list_step call q l Do_shift r = list_del (Some 0) l"
| "list_step call q l Do_pop r = list_del (if fst l = [] then None else Some (length (fst l) - 1)) l"
| "list_step call q (xs, s, c) Do_zero r = (Nothing, if xs = [] then (xs, s, c) else ([], False, c))"
| "list_step call q (xs, s, c) (Do_value i) r = (Ptr (if i < length xs then xs ! i else None), xs, s, c)"
| "list_step call q (xs, s, c) Do_num r = (Count (length xs), xs, s, c)"
| "list_step call q (xs, s, None) (Do_find p) r = (Index (index_of (\<lambda>x. x = p) xs), xs, s, None)"
| "list_step call q (xs, s, Some c) (Do_find p) r =
     (if p = None then (Index None, xs, s, Some c)
      else let l = list_sort call q (xs, s, Some c) in (Index (index_of (\<lambda>x. call c p x = 0) (fst l)), l))"
| "list_step call q l Do_sort r = (Nothing, list_sort call q l)"
| "list_step call q (xs, s, c) Do_is_sorted r = (Flag s, xs, s, c)"
| "list_step call q (xs, s, c) (Do_set_cmp c') r = (Cmp c, xs, s \<and> c = c', c')"

fun list_run :: "('c \<Rightarrow> 'p cmp) \<Rightarrow> 'p qsort \<Rightarrow> 'p option list \<times> bool \<times> 'c option \<Rightarrow> ('p, 'c) stack_op list \<Rightarrow>
    ('p, 'c) stack_result list \<Rightarrow> ('p, 'c) stack_result list \<times> 'p option list \<times> bool \<times> 'c option" where
  "list_run call q l (op # ops) (r # rs) =
     (let (r, l) = list_step call q l op r; (rs, l) = list_run call q l ops rs in (r # rs, l))"
| "list_run call q l _ _ = ([], l)"

abbreviation list_of_stack :: "('p, 'c) stack \<Rightarrow> 'p option list \<times> bool \<times> 'c option" where
  "list_of_stack sk \<equiv> (elements sk, st_sorted sk, st_comp sk)"

text \<open>With memory, an insertion succeeds.\<close>

fun insert_ok :: "('p, 'c) stack_op \<Rightarrow> ('p, 'c) stack_result \<Rightarrow> bool" where
  "insert_ok (Do_insert mem p i) r \<longleftrightarrow> (r = Size 0 \<longrightarrow> mem = None)"
| "insert_ok (Do_push mem p) r \<longleftrightarrow> (r = Size 0 \<longrightarrow> mem = None)"
| "insert_ok _ r \<longleftrightarrow> True"

definition implements :: "('c \<Rightarrow> 'p cmp) \<Rightarrow> 'p qsort \<Rightarrow> ('p, 'c) stack \<Rightarrow> ('p, 'c) stack_op \<Rightarrow>
    ('p, 'c) stack_result \<Rightarrow> ('p, 'c) stack \<Rightarrow> bool" where
  "implements call q sk op r sk' \<longleftrightarrow> stack_ok call sk' \<and> list_step call q (list_of_stack sk) op r = (r, list_of_stack sk') \<and>
     st_num_alloc sk \<le> st_num_alloc sk' \<and> (st_num_alloc sk' + 1 < 2 ^ 61 \<longrightarrow> insert_ok op r)"

lemma insert_implements:
  assumes ok: "stack_ok call sk"
  shows "\<exists>r sk'. sk_insert mem (Some sk) p i = (r, Some sk') \<and> implements call q sk (Do_insert mem p i) (Size r) sk'"
proof -
  obtain r stk where e: "sk_insert mem (Some sk) p i = (r, stk)" by fastforce
  from ok have s: "slots_ok sk" by simp
  show ?thesis
    by (rule sk_insert_spec [OF s e]) (use e ok length_elements [OF s] in \<open>auto simp: implements_def\<close>)
qed

lemma delete_implements:
  assumes ok: "stack_ok call sk"
  shows "\<exists>p sk'. sk_delete (Some sk) i = (p, Some sk') \<and> implements call q sk (Do_delete i) (Ptr p) sk'"
  by (rule sk_delete_spec [OF ok, of i])
    (use ok length_elements [of sk] in \<open>auto simp: implements_def\<close>)

lemma elements_Nil: "slots_ok sk \<Longrightarrow> elements sk = [] \<longleftrightarrow> st_num sk = 0"
  using length_elements [of sk] by auto

lemma find_implements:
  assumes q: "qsort_ok q" and b: "bsearch_ok b" and cmp: "\<And>c. cmp_ok (call c)" and ok: "stack_ok call sk"
  shows "\<exists>r sk'. sk_find call q b (Some sk) p = (r, Some sk') \<and> implements call q sk (Do_find p) (Index r) sk'"
proof (rule sk_find_spec [of q b call sk p, OF q b cmp ok])
  fix c sk'
  assume c: "st_comp sk = Some c" "p \<noteq> None" "sk_sort call q (Some sk) = Some sk'" "stack_ok call sk'"
    "sk_find call q b (Some sk) p = (index_of (\<lambda>x. call c p x = 0) (elements sk'), Some sk')"
  obtain sk2 where "sk_sort call q (Some sk) = Some sk2"
    "elements sk2 = (if st_sorted sk then elements sk else q (call c) (elements sk))"
    "st_sorted sk2" "st_comp sk2 = Some c" "st_num_alloc sk2 = st_num_alloc sk"
    by (rule sk_sort_spec [of q call sk, OF q cmp ok]) (use c(1) in simp)
  then show ?thesis using c by (auto simp: implements_def Let_def)
qed (use ok in \<open>auto simp: implements_def split: option.splits\<close>)

lemma sort_implements:
  assumes q: "qsort_ok q" and cmp: "\<And>c. cmp_ok (call c)" and ok: "stack_ok call sk"
  shows "\<exists>sk'. sk_sort call q (Some sk) = Some sk' \<and> implements call q sk Do_sort Nothing sk'"
proof -
  have "\<not> st_sorted sk" if "st_comp sk = None" using ok that by (auto simp: flag_ok_def)
  then show ?thesis
    by (rule_tac sk_sort_spec [of q call sk, OF q cmp ok])
      (auto simp: implements_def split: option.splits)
qed

lemma sk_zero_implements:
  assumes "stack_ok call sk"
  shows "\<exists>sk'. sk_zero (Some sk) = Some sk' \<and> implements call q sk Do_zero Nothing sk'"
proof (cases "st_num sk = 0")
  case False
  then have "elements sk \<noteq> []" using assms elements_Nil [of sk] by simp
  then show ?thesis using False assms
    by (auto simp: sk_zero_def implements_def slots_ok_def flag_ok_def) (simp_all add: elements_def)
qed (use assms elements_Nil [of sk] in \<open>auto simp: sk_zero_def implements_def\<close>)

lemma value_implements:
  "stack_ok call sk \<Longrightarrow> implements call q sk (Do_value i) (Ptr (sk_value (Some sk) i)) sk"
  using length_elements [of sk] nth_elements [of i sk] by (auto simp: implements_def sk_value_def)

lemma set_cmp_implements:
  "stack_ok call sk \<Longrightarrow> sk_set_cmp_func sk c = (r, sk') \<Longrightarrow> implements call q sk (Do_set_cmp c) (Cmp r) sk'"
  by (cases "st_comp sk = c") (auto simp: implements_def sk_set_cmp_func_def slots_ok_def flag_ok_def elements_def)

text \<open>Calls that delete are deletions at an index.\<close>

lemma delete_at_implements:
  assumes "stack_ok call sk" "\<And>r. list_step call q (list_of_stack sk) op r = list_step call q (list_of_stack sk) (Do_delete i) r"
    and "\<And>r. insert_ok op r"
  shows "\<exists>p sk'. sk_delete (Some sk) i = (p, Some sk') \<and> implements call q sk op (Ptr p) sk'"
  using delete_implements [OF assms(1), of i q] assms(2,3) unfolding implements_def by auto

lemma step_implements:
  assumes q: "qsort_ok q" and b: "bsearch_ok b" and cmp: "\<And>c. cmp_ok (call c)" and ok: "stack_ok call sk"
  shows "\<exists>r sk'. stack_step call q b sk op = (r, Some sk') \<and> implements call q sk op r sk'"
proof -
  have l: "length (elements sk) = st_num sk" using ok length_elements by blast
  note e = elements_Nil [of sk]
  note stay = ok [unfolded implements_def]
  show ?thesis
  proof (cases op)
    case (Do_insert mem p i)
    then show ?thesis using insert_implements [OF ok, of mem p i q] by auto
  next
    case (Do_push mem p)
    obtain r sk' where i: "sk_insert mem (Some sk) p (st_num sk) = (r, Some sk')"
      "implements call q sk (Do_insert mem p (st_num sk)) (Size r) sk'"
      using insert_implements [OF ok] by blast
    have "implements call q sk op (Size r) sk'" using i(2) l Do_push by (simp add: implements_def)
    then show ?thesis using i(1) Do_push by (simp add: sk_push_def)
  next
    case (Do_delete i)
    then show ?thesis using delete_implements [OF ok, of i q] by auto
  next
    case (Do_delete_ptr p)
    show ?thesis
    proof (cases "index_of (\<lambda>x. x = p) (elements sk)")
      case None
      then show ?thesis using ok Do_delete_ptr by (auto simp: sk_delete_ptr_def find_ptr_elements implements_def)
    next
      case (Some i)
      then show ?thesis using delete_at_implements [OF ok, of q op i] ok Do_delete_ptr
        by (auto simp: sk_delete_ptr_def find_ptr_elements)
    qed
  next
    case Do_shift
    then show ?thesis using delete_at_implements [OF ok, of q op 0] ok e
      by (cases "st_num sk = 0") (auto simp: sk_shift_def implements_def)
  next
    case Do_pop
    then show ?thesis using delete_at_implements [OF ok, of q op "st_num sk - 1"] ok e l
      by (cases "st_num sk = 0") (auto simp: sk_pop_def implements_def)
  next
    case Do_zero
    then show ?thesis using sk_zero_implements [OF ok, of q] by simp
  next
    case (Do_value i)
    then show ?thesis using value_implements [OF ok, of q i] by simp
  next
    case Do_num
    then show ?thesis using ok l by (simp add: implements_def sk_num_def)
  next
    case (Do_find p)
    then show ?thesis using find_implements [of q b call sk p, OF q b cmp ok] by auto
  next
    case Do_sort
    then show ?thesis using sort_implements [of q call sk, OF q cmp ok] by simp
  next
    case Do_is_sorted
    then show ?thesis using ok by (simp add: implements_def sk_is_sorted_def)
  next
    case (Do_set_cmp c)
    then show ?thesis using set_cmp_implements [OF ok, of c _ _ q]
      by (cases "sk_set_cmp_func sk c") auto
  qed
qed

lemma run_implements_list:
  assumes q: "qsort_ok q" and b: "bsearch_ok b" and cmp: "\<And>c. cmp_ok (call c)" and ok: "stack_ok call sk"
  shows "\<exists>rs sk'. stack_run call q b (Some sk) ops = (rs, Some sk') \<and> stack_ok call sk' \<and>
    list_run call q (list_of_stack sk) ops rs = (rs, list_of_stack sk') \<and> st_num_alloc sk \<le> st_num_alloc sk' \<and>
    (st_num_alloc sk' + 1 < 2 ^ 61 \<longrightarrow> list_all2 insert_ok ops rs)"
  using ok
proof (induction ops arbitrary: sk)
  case (Cons op ops)
  obtain r sk1 where s: "stack_step call q b sk op = (r, Some sk1)" "implements call q sk op r sk1"
    using step_implements [of q b call sk op, OF q b cmp Cons.prems] by blast
  then have "stack_ok call sk1" by (simp add: implements_def)
  then obtain rs sk' where "stack_run call q b (Some sk1) ops = (rs, Some sk')" "stack_ok call sk'"
    "list_run call q (list_of_stack sk1) ops rs = (rs, list_of_stack sk')" "st_num_alloc sk1 \<le> st_num_alloc sk'"
    "st_num_alloc sk' + 1 < 2 ^ 61 \<longrightarrow> list_all2 insert_ok ops rs"
    using Cons.IH by blast
  then show ?case using s by (auto simp: implements_def)
qed simp

section \<open>Copies\<close>

lemma sk_dup_spec:
  assumes ok: "stack_ok call sk"
  obtains sk' where "sk_dup True True (Some fresh) (Some sk) = Some sk'" "stack_ok call sk'" "list_of_stack sk' = list_of_stack sk"
proof -
  obtain ret :: "('a, 'b) stack" where ret: "sk_new True True (st_comp sk) = Some ret" "length (st_data ret) = kMinSize"
    by (simp add: sk_new_def)
  define s where "s = take (st_num_alloc sk) (st_data ret @ map fresh [length (st_data ret) ..< st_num_alloc sk])"
  define sk' where "sk' = \<lparr>st_num = st_num sk, st_data = take (st_num sk) (st_data sk) @ drop (st_num sk) s,
    st_sorted = st_sorted sk, st_num_alloc = st_num_alloc sk, st_comp = st_comp sk\<rparr>"
  have "length s = st_num_alloc sk" by (simp add: s_def)
  then have "stack_ok call sk'" "list_of_stack sk' = list_of_stack sk"
    using ok by (auto simp: sk'_def slots_ok_def flag_ok_def elements_def)
  moreover have "sk_dup True True (Some fresh) (Some sk) = Some sk'"
    unfolding sk_dup_def ret(1) option.case sk'_def s_def Let_def ..
  ultimately show thesis using that by blast
qed

text \<open>The copies made up to the first failure, whether there was none, and the state of the client.\<close>

fun copies :: "('p \<Rightarrow> 's \<Rightarrow> 'p option \<times> 's) \<Rightarrow> 'p option list \<Rightarrow> 's \<Rightarrow> 'p option list \<times> bool \<times> 's" where
  "copies copy [] s = ([], True, s)"
| "copies copy (None # xs) s = (let (ys, ok, s) = copies copy xs s in (None # ys, ok, s))"
| "copies copy (Some x # xs) s =
     (case copy x s of (None, s) \<Rightarrow> ([], False, s)
      | (Some y, s) \<Rightarrow> let (ys, ok, s) = copies copy xs s in (Some y # ys, ok, s))"

abbreviation on_pointers :: "('p \<Rightarrow> 's \<Rightarrow> 's) \<Rightarrow> 'p option list \<Rightarrow> 's \<Rightarrow> 's" where
  "on_pointers func xs s \<equiv> fold (\<lambda>x s. case x of None \<Rightarrow> s | Some y \<Rightarrow> func y s) xs s"

lemma fold_nth: "n \<le> length xs \<Longrightarrow> fold (\<lambda>i. f (xs ! i)) [0 ..< n] = fold f (take n xs)"
proof -
  assume "n \<le> length xs"
  then have "take n xs = map ((!) xs) [0 ..< n]" by (auto simp: list_eq_iff_nth_eq)
  then show ?thesis by (simp add: fold_map o_def)
qed

lemma deep_copy_loop_spec:
  assumes "i + k = st_num ret" "st_num ret \<le> length (st_data ret)"
    and "copies copy (drop i (elements ret)) s = (ys, ok, s')"
  shows "deep_copy_loop copy free ret i k s =
    (if ok then (Some (ret\<lparr>st_data := take i (st_data ret) @ ys @ drop (st_num ret) (st_data ret)\<rparr>), s')
     else (None, on_pointers free (take i (elements ret) @ ys) s'))"
  using assms
proof (induction k arbitrary: i ret s ys)
  case 0
  then show ?case by (auto simp: elements_def)
next
  case (Suc k)
  define x where "x = st_data ret ! i"
  have i: "i < length (st_data ret)" "i < st_num ret" using Suc.prems by auto
  have d: "drop i (elements ret) = x # drop (Suc i) (elements ret)"
    using i by (simp add: elements_def x_def Cons_nth_drop_Suc [symmetric])
  show ?case
  proof (cases x)
    case None
    then obtain zs where z: "copies copy (drop (Suc i) (elements ret)) s = (zs, ok, s')" "ys = None # zs"
      using Suc.prems(3) d by (auto split: prod.splits)
    have "take (Suc i) (st_data ret) = take i (st_data ret) @ [None]" "take (Suc i) (elements ret) = take i (elements ret) @ [None]"
      using i None by (simp_all add: x_def elements_def take_Suc_conv_app_nth)
    then show ?thesis using Suc.IH [of "Suc i" ret s zs] Suc.prems(1,2) z None by (simp add: x_def)
  next
    case (Some a)
    show ?thesis
    proof (cases "copy a s")
      case (Pair c s1)
      show ?thesis
      proof (cases c)
        case None
        then have "ys = []" "\<not> ok" "s' = s1" using Suc.prems(3) d Some Pair by auto
        then show ?thesis using Some Pair None Suc.prems(2) i
            fold_nth [of i "st_data ret" "\<lambda>x s. case x of None \<Rightarrow> s | Some y \<Rightarrow> free y s"]
          by (simp add: x_def sk_free_def elements_def min_def)
      next
        case y: (Some y)
        define ret1 where "ret1 = ret\<lparr>st_data := (st_data ret)[i := Some y]\<rparr>"
        have e: "drop (Suc i) (elements ret1) = drop (Suc i) (elements ret)"
          "take (Suc i) (elements ret1) = take i (elements ret) @ [Some y]"
          "take (Suc i) (st_data ret1) = take i (st_data ret) @ [Some y]"
          "drop (st_num ret) (st_data ret1) = drop (st_num ret) (st_data ret)"
          using i by (simp_all add: ret1_def elements_def take_update_swap [symmetric] drop_take take_Suc_conv_app_nth)
        obtain zs where z: "copies copy (drop (Suc i) (elements ret)) s1 = (zs, ok, s')" "ys = Some y # zs"
          using Suc.prems(3) d Some Pair y by (auto split: prod.splits)
        have "deep_copy_loop copy free ret1 (Suc i) k s1 =
          (if ok then (Some (ret1\<lparr>st_data := take (Suc i) (st_data ret1) @ zs @ drop (st_num ret1) (st_data ret1)\<rparr>), s')
           else (None, on_pointers free (take (Suc i) (elements ret1) @ zs) s'))"
          using Suc.prems(1,2) z(1) e(1) by (intro Suc.IH) (simp_all add: ret1_def)
        then show ?thesis using Some Pair y z(2) e(2-4) by (simp add: x_def ret1_def [symmetric]) (simp add: ret1_def)
      qed
    qed
  qed
qed

text \<open>A deep copy copies every element, or it frees exactly the copies that it has made.\<close>

lemma sk_deep_copy_spec:
  assumes ok: "stack_ok call sk" and c: "copies copy (elements sk) s = (ys, every, s')"
  obtains "\<not> every" "sk_deep_copy True True (Some fresh) (Some sk) copy free s = (None, on_pointers free ys s')"
  | sk' where "every" "sk_deep_copy True True (Some fresh) (Some sk) copy free s = (Some sk', s')"
      "list_of_stack sk' = (ys, st_sorted sk, st_comp sk)"
proof -
  obtain ret where r: "sk_dup True True (Some fresh) (Some sk) = Some ret" "stack_ok call ret" "list_of_stack ret = list_of_stack sk"
    by (rule sk_dup_spec [OF ok])
  have n: "st_num ret \<le> length (st_data ret)" using r(2) by (simp add: slots_ok_def)
  have "length ys = length xs" if "copies copy xs s = (ys, True, s')" for xs s ys s'
    using that by (induction copy xs s arbitrary: ys s' rule: copies.induct) (auto split: prod.splits option.splits)
  then have "every \<Longrightarrow> length ys = st_num ret" using c r length_elements [of ret] by auto
  moreover note deep_copy_loop_spec [of 0 "st_num ret" ret copy s ys "every" s' free]
  ultimately show thesis using that c r n
    by (cases "every") (auto simp: sk_deep_copy_def elements_def)
qed

lemma sk_pop_free_spec:
  "slots_ok sk \<Longrightarrow> sk_pop_free (Some sk) func s = (on_pointers func (elements sk) s, None)"
  using fold_nth [of "st_num sk" "st_data sk" "\<lambda>x s. case x of None \<Rightarrow> s | Some y \<Rightarrow> func y s"]
  by (simp add: sk_pop_free_def sk_free_def slots_ok_def elements_def)

section \<open>A sorting and a searching function with the promised laws\<close>

primrec insert_cmp :: "'p cmp \<Rightarrow> 'p option \<Rightarrow> 'p option list \<Rightarrow> 'p option list" where
  "insert_cmp f x [] = [x]"
| "insert_cmp f x (y # ys) = (if f x y \<le> 0 then x # y # ys else y # insert_cmp f x ys)"

definition insertion_sort :: "'p qsort" where
  "insertion_sort f xs = foldr (insert_cmp f) xs []"

lemma mset_insert_cmp: "mset (insert_cmp f x xs) = add_mset x (mset xs)"
  by (induction xs) auto

lemma insert_cmp_ordered: "cmp_ok f \<Longrightarrow> ordered f xs \<Longrightarrow> ordered f (insert_cmp f x xs)"
proof (induction xs)
  case (Cons y ys)
  have s: "f a b \<le> 0 \<longleftrightarrow> 0 \<le> f b a" and t: "f a b \<le> 0 \<Longrightarrow> f b c \<le> 0 \<Longrightarrow> f a c \<le> 0" for a b c
    using Cons.prems(1) unfolding cmp_ok_def by blast+
  have "set (insert_cmp f x ys) = insert x (set ys)"
    using mset_insert_cmp [of f x ys] by (metis set_mset_add_mset_insert set_mset_mset)
  moreover have "\<not> f x y \<le> 0 \<Longrightarrow> f y x \<le> 0" using s [of y x] by simp
  ultimately show ?case using Cons t by auto
qed simp

lemma insertion_sort_ok: "qsort_ok insertion_sort"
proof -
  have "mset (insertion_sort f xs) = mset xs" "cmp_ok f \<Longrightarrow> ordered f (insertion_sort f xs)" for f :: "'a cmp" and xs
    unfolding insertion_sort_def by (induction xs) (simp_all add: mset_insert_cmp insert_cmp_ordered)
  then show ?thesis by (simp add: qsort_ok_def)
qed

text \<open>Halving; \<open>lo\<close> and \<open>hi\<close> bound the indices that are left.\<close>

function bisect :: "'p cmp \<Rightarrow> 'p option \<Rightarrow> 'p option list \<Rightarrow> nat \<Rightarrow> nat \<Rightarrow> nat option" where
  "bisect f p xs lo hi =
     (if hi \<le> lo then None
      else let m = (lo + hi) div 2; c = f p (xs ! m) in
        if c = 0 then Some m else if c < 0 then bisect f p xs lo m else bisect f p xs (m + 1) hi)"
  by pat_completeness auto
termination by (relation "measure (\<lambda>(f, p, xs, lo, hi). hi - lo)") auto

declare bisect.simps [simp del]

lemma bisect_simps:
  "hi \<le> lo \<Longrightarrow> bisect f p xs lo hi = None"
  "lo < hi \<Longrightarrow> bisect f p xs lo hi = (let m = (lo + hi) div 2; c = f p (xs ! m) in
     if c = 0 then Some m else if c < 0 then bisect f p xs lo m else bisect f p xs (m + 1) hi)"
  by (simp_all add: bisect.simps)

definition binary_search :: "'p bsearch" where
  "binary_search f p xs = bisect f p xs 0 (length xs)"

lemma bisect_spec:
  assumes "cmp_ok f" "ordered f xs" "hi \<le> length xs" "\<And>j. j < lo \<Longrightarrow> f p (xs ! j) \<noteq> 0"
    "\<And>j. hi \<le> j \<Longrightarrow> j < length xs \<Longrightarrow> f p (xs ! j) \<noteq> 0"
  shows "case bisect f p xs lo hi of None \<Rightarrow> \<forall>x \<in> set xs. f p x \<noteq> 0 | Some i \<Rightarrow> i < length xs \<and> f p (xs ! i) = 0"
  using assms
proof (induction f p xs lo hi rule: bisect.induct [case_names step])
  case (step f p xs lo hi)
  define m where "m = (lo + hi) div 2"
  show ?case
  proof (cases "lo < hi")
    case False
    have "f p (xs ! j) \<noteq> 0" if "j < length xs" for j
      using step.prems(4) [of j] step.prems(5) [of j] that False by (cases "j < lo") auto
    then show ?thesis using False by (subst bisect.simps) (auto simp: in_set_conv_nth)
  next
    case True
    then have m: "lo \<le> m" "m < hi" by (auto simp: m_def)
    have le: "f (xs ! i) (xs ! j) \<le> 0" if "i < j" "j < length xs" for i j
      using step.prems(2) that by (auto simp: sorted_wrt_iff_nth_less)
    have s: "f a b \<le> 0 \<longleftrightarrow> 0 \<le> f b a" and t: "f a b \<le> 0 \<Longrightarrow> f b c \<le> 0 \<Longrightarrow> f a c \<le> 0" for a b c
      using step.prems(1) unfolding cmp_ok_def by blast+
    have e: "bisect f p xs lo hi = (if f p (xs ! m) = 0 then Some m
        else if f p (xs ! m) < 0 then bisect f p xs lo m else bisect f p xs (m + 1) hi)"
      using True by (subst bisect.simps) (simp add: m_def Let_def)
    consider "f p (xs ! m) = 0" | "f p (xs ! m) < 0" | "0 < f p (xs ! m)" by linarith
    then show ?thesis
    proof cases
      case 1
      then show ?thesis using e m step.prems(3) by simp
    next
      case 2
      have "f p (xs ! j) \<noteq> 0" if "m \<le> j" "j < length xs" for j
        using 2 le [of m j] t [of "xs ! m" "xs ! j" p] s [of "xs ! m" p] s [of "xs ! j" p] that by (cases "m = j") auto
      then show ?thesis using step.IH(1) [OF _ m_def refl] 2 e m True step.prems by auto
    next
      case 3
      have "f p (xs ! j) \<noteq> 0" if "j < m + 1" for j
        using 3 le [of j m] t [of p "xs ! j" "xs ! m"] m step.prems(3) that by (cases "m = j") auto
      then show ?thesis using step.IH(2) [OF _ m_def refl] 3 e m True step.prems by auto
    qed
  qed
qed

lemma binary_search_ok: "bsearch_ok binary_search"
  unfolding bsearch_ok_def binary_search_def by (intro allI impI bisect_spec) simp_all

section \<open>Properties\<close>

text \<open>
  C37: A stack, from \<open>sk_new\<close> through any sequence of insertions, deletions, searches and sorts, with any
  comparison functions that order the elements, answers like a list with a flag: \<open>sk_find\<close> gives the first
  element that is equal, after it has sorted a stack that has a comparison function; the flag is set only
  while the elements are in order, even when the comparison function changes; and an insertion that fails
  changes nothing. It fails only without memory, unless the array has \<open>2 ^ 61 - 1\<close> slots. Shown are also the
  bounds of the array: the elements never fill it.
\<close>

theorem stack_refines_list:
  assumes "qsort_ok qsort" "bsearch_ok bsearch" "\<And>c. cmp_ok (call c)" "sk_new True True comp_fn = Some sk"
  shows "\<exists>rs sk'. stack_run call qsort bsearch (Some sk) ops = (rs, Some sk') \<and>
    list_run call qsort ([], False, comp_fn) ops rs = (rs, elements sk', st_sorted sk', st_comp sk') \<and>
    (st_sorted sk' \<longrightarrow> (\<exists>c. st_comp sk' = Some c \<and> ordered (call c) (elements sk'))) \<and>
    (st_num_alloc sk' < 2 ^ 61 - 1 \<longrightarrow> list_all2 insert_ok ops rs) \<and>
    st_num sk' < st_num_alloc sk' \<and> length (st_data sk') = st_num_alloc sk'"
proof -
  have new: "stack_ok call sk" "list_of_stack sk = ([], False, comp_fn)" using sk_new_ok [OF assms(4)] by auto
  show ?thesis using run_implements_list [OF assms(1-3) new(1), of ops] unfolding new(2)
    by (auto simp: slots_ok_def flag_ok_def)
qed

text \<open>Numbers in order, with \<open>NULL\<close> first; the fourth insertion needs a larger array and does not get it.\<close>

definition compare :: "unit \<Rightarrow> nat cmp" where
  "compare c a b = (case a of None \<Rightarrow> - 1 | Some x \<Rightarrow> int x) - (case b of None \<Rightarrow> - 1 | Some x \<Rightarrow> int x)"

lemma compare_ok: "cmp_ok (compare c)"
  by (auto simp: cmp_ok_def compare_def)

definition example_ops :: "(nat, unit) stack_op list" where
  "example_ops = [Do_push None (Some 7), Do_push None (Some 3), Do_insert None (Some 5) 0, Do_push None (Some 9),
     Do_find (Some 7), Do_is_sorted, Do_shift, Do_num]"

definition example_stack :: "(nat, unit) stack" where
  "example_stack = \<lparr>st_num = 0, st_data = replicate 4 None, st_sorted = False, st_num_alloc = 4, st_comp = Some ()\<rparr>"

lemma example_run:
  "map_prod id (map_option list_of_stack) (stack_run compare insertion_sort binary_search (Some example_stack) example_ops) =
    ([Size 1, Size 2, Size 3, Size 0, Index (Some 2), Flag True, Ptr (Some 3), Count 2],
     Some ([Some 5, Some 7], True, Some ()))"
proof -
  define ex where "ex = (\<lambda>n d s. \<lparr>st_num = n, st_data = d, st_sorted = s, st_num_alloc = 4, st_comp = Some ()\<rparr> :: (nat, unit) stack)"
  note e = ex_def sk_push_def sk_insert_def sk_delete_def
  have 1: "sk_push None (ex 0 [None, None, None, None] False) (Some 7) = (1, Some (ex 1 [Some 7, None, None, None] False))"
    by (simp add: e)
  have 2: "sk_push None (ex 1 [Some 7, None, None, None] False) (Some 3) = (2, Some (ex 2 [Some 7, Some 3, None, None] False))"
    by (simp add: e)
  have 3: "sk_insert None (Some (ex 2 [Some 7, Some 3, None, None] False)) (Some 5) 0 =
      (3, Some (ex 3 [Some 5, Some 7, Some 3, None] False))"
    by (simp add: e)
  have 4: "sk_push None (ex 3 [Some 5, Some 7, Some 3, None] False) (Some 9) = (0, Some (ex 3 [Some 5, Some 7, Some 3, None] False))"
    by (simp add: e split: option.split)
  have s: "sk_sort compare insertion_sort (Some (ex 3 [Some 5, Some 7, Some 3, None] False)) =
      Some (ex 3 [Some 3, Some 5, Some 7, None] True)"
    by (simp add: sk_sort_def ex_def insertion_sort_def compare_def)
  have b: "binary_search (compare ()) (Some 7) [Some 3, Some 5, Some 7] = Some 2"
    by (simp add: binary_search_def bisect_simps compare_def Let_def)
  have m: "first_match (compare ()) (Some 7) [Some 3, Some 5, Some 7, None] 2 = 2"
    by (simp add: numeral_2_eq_2 compare_def)
  have 5: "sk_find compare insertion_sort binary_search (Some (ex 3 [Some 5, Some 7, Some 3, None] False)) (Some 7) =
      (Some 2, Some (ex 3 [Some 3, Some 5, Some 7, None] True))"
    using s b m by (simp add: sk_find_def ex_def)
  have 6: "sk_shift (Some (ex 3 [Some 3, Some 5, Some 7, None] True)) = (Some 3, Some (ex 2 [Some 5, Some 7, Some 7, None] True))"
    by (simp add: sk_shift_def e)
  have "example_stack = ex 0 [None, None, None, None] False" by (simp add: example_stack_def ex_def numeral_eq_Suc)
  then show ?thesis unfolding \<open>example_stack = _\<close> example_ops_def stack_run.simps stack_step.simps 1 2 3 4 5 6 map_prod_simp Let_def split id_apply
    by (simp add: ex_def sk_is_sorted_def sk_num_def elements_def)
qed

lemma stack_refines_list_witness:
  "list_run compare insertion_sort ([], False, Some ()) example_ops
      [Size 1, Size 2, Size 3, Size 0, Index (Some 2), Flag True, Ptr (Some 3), Count 2] =
    ([Size 1, Size 2, Size 3, Size 0, Index (Some 2), Flag True, Ptr (Some 3), Count 2], [Some 5, Some 7], True, Some ()) \<and>
    ordered (compare ()) [Some 5, Some 7]"
proof -
  have new: "sk_new True True (Some ()) = Some example_stack"
    by (simp add: sk_new_def example_stack_def kMinSize_def)
  show ?thesis
    using stack_refines_list [of insertion_sort binary_search compare "Some ()" example_stack example_ops,
        OF insertion_sort_ok binary_search_ok compare_ok new] example_run
    by (auto simp del: One_nat_def)
qed

text \<open>
  \<open>sk_set\<close> leaves the flag as it is: an element that is put in place may then be missed by \<open>sk_find\<close>.
\<close>

lemma sk_set_keeps_flag:
  fixes sk :: "(nat, unit) stack"
  defines "sk \<equiv> \<lparr>st_num = 3, st_data = [Some 1, Some 2, Some 3, None], st_sorted = True, st_num_alloc = 4, st_comp = Some ()\<rparr>"
  shows "stack_ok compare sk \<and> (let stk = snd (sk_set (Some sk) 0 (Some 9)) in
    sk_is_sorted stk \<and> fst (sk_find compare insertion_sort binary_search stk (Some 9)) = None \<and> sk_value stk 0 = Some 9)"
  by (simp add: sk_def slots_ok_def flag_ok_def elements_def sk_set_def sk_is_sorted_def sk_find_def sk_sort_def
      binary_search_def bisect_simps compare_def sk_value_def Let_def)

end
