(* ===== verification/Bio_Pair.thy ===== *)
theory Bio_Pair
  imports Prelude
begin

text \<open>
  BIO pairs of BoringSSL, \<open>crypto/bio/pair.c\<close>: two endpoints, each with a ring buffer for what it writes,
  which the other reads; and the calls of \<open>crypto/bio/bio.c\<close> that lead there. A \<open>BIO\<close> and the
  \<open>bio_bio_st\<close> behind its \<open>ptr\<close> are one record; pointers to a \<open>BIO\<close> are numbers, the heap maps them to records.
  \<open>OPENSSL_malloc\<close> is a parameter that gives \<open>n\<close> bytes of any contents or fails.
\<close>

section \<open>Model\<close>

record bio =
  init :: bool
  shutdown :: int
  flags :: u32
  retry_reason :: int
  num_read :: u64
  num_write :: u64
  peer :: "nat option"
  closed :: bool
  len :: nat
  offset :: nat
  bio_size :: nat
  buf :: "u8 list option"
  request :: nat

type_synonym bios = "nat \<Rightarrow> bio"
type_synonym malloc = "nat \<Rightarrow> u8 list option"

definition BIO_FLAGS_READ :: u32 where "BIO_FLAGS_READ = 0x01"
definition BIO_FLAGS_WRITE :: u32 where "BIO_FLAGS_WRITE = 0x02"
definition BIO_FLAGS_IO_SPECIAL :: u32 where "BIO_FLAGS_IO_SPECIAL = 0x04"
definition BIO_FLAGS_RWS :: u32 where "BIO_FLAGS_RWS = BIO_FLAGS_READ OR BIO_FLAGS_WRITE OR BIO_FLAGS_IO_SPECIAL"
definition BIO_FLAGS_SHOULD_RETRY :: u32 where "BIO_FLAGS_SHOULD_RETRY = 0x08"
definition kRetryFlags :: u32 where "kRetryFlags = BIO_FLAGS_RWS OR BIO_FLAGS_SHOULD_RETRY"

definition BIO_set_retry_read :: "bio \<Rightarrow> bio" where
  "BIO_set_retry_read b = b\<lparr>flags := flags b OR (BIO_FLAGS_READ OR BIO_FLAGS_SHOULD_RETRY)\<rparr>"

definition BIO_set_retry_write :: "bio \<Rightarrow> bio" where
  "BIO_set_retry_write b = b\<lparr>flags := flags b OR (BIO_FLAGS_WRITE OR BIO_FLAGS_SHOULD_RETRY)\<rparr>"

definition BIO_clear_retry_flags :: "bio \<Rightarrow> bio" where
  "BIO_clear_retry_flags b = b\<lparr>flags := flags b AND NOT kRetryFlags, retry_reason := 0\<rparr>"

text \<open>What \<open>BIO_new\<close> and \<open>bio_new\<close> leave behind.\<close>

definition bio_new :: bio where
  "bio_new = \<lparr>init = False, shutdown = 1, flags = 0, retry_reason = 0, num_read = 0, num_write = 0, peer = None,
     closed = False, len = 0, offset = 0, bio_size = 17 * 1024, buf = None, request = 0\<rparr>"

definition bio_destroy_pair :: "bios \<Rightarrow> nat \<Rightarrow> bios" where
  "bio_destroy_pair h i =
     (case peer (h i) of
        None \<Rightarrow> h
      | Some j \<Rightarrow>
          let h = h(j := (h j)\<lparr>peer := None, init := False, len := 0, offset := 0\<rparr>) in
          h(i := (h i)\<lparr>peer := None, init := False, len := 0, offset := 0\<rparr>))"

text \<open>Freeing the memory is not modelled: a dead \<open>BIO\<close> keeps its record.\<close>

definition bio_free :: "bios \<Rightarrow> nat option \<Rightarrow> bool \<times> bios" where
  "bio_free h bio =
     (case bio of None \<Rightarrow> (False, h)
      | Some i \<Rightarrow> (True, if peer (h i) \<noteq> None then bio_destroy_pair h i else h))"

text \<open>The loop that empties the ring, one or two rounds; \<open>None\<close> if it does not end.\<close>

partial_function (option) read_loop :: "nat \<Rightarrow> bio \<Rightarrow> (u8 list \<times> bio) option" where
  "read_loop rest b =
     (let chunk = (if size_add (offset b) rest \<le> bio_size b then rest else bio_size b - offset b);
          data = take chunk (drop (offset b) (the (buf b)));
          b = b\<lparr>len := len b - chunk\<rparr>;
          b = (if len b \<noteq> 0 then
                 let b = b\<lparr>offset := size_add (offset b) chunk\<rparr> in
                 if offset b = bio_size b then b\<lparr>offset := 0\<rparr> else b
               else b\<lparr>offset := 0\<rparr>);
          rest = rest - chunk in
      if rest = 0 then Some (data, b)
      else Option.bind (read_loop rest b) (\<lambda>(more, b). Some (data @ more, b)))"

text \<open>The result, the bytes read and the heap. A target that is \<open>NULL\<close> is \<open>have_buf\<close> being false.\<close>

definition bio_read :: "bios \<Rightarrow> nat \<Rightarrow> bool \<Rightarrow> int \<Rightarrow> (int \<times> u8 list \<times> bios) option" where
  "bio_read h i have_buf size_arg =
     (let wanted = nat (size_arg mod 2 ^ 64);
          h = h(i := BIO_clear_retry_flags (h i)) in
      if \<not> init (h i) then Some (0, [], h)
      else
        let j = the (peer (h i));
            h = h(j := (h j)\<lparr>request := 0\<rparr>) in
        if \<not> have_buf \<or> wanted = 0 then Some (0, [], h)
        else if len (h j) = 0 then
          if closed (h j) then Some (0, [], h)
          else
            let h = h(i := BIO_set_retry_read (h i));
                h = h(j := (h j)\<lparr>request := if wanted \<le> bio_size (h j) then wanted else bio_size (h j)\<rparr>) in
            Some (- 1, [], h)
        else
          let wanted = (if len (h j) < wanted then len (h j) else wanted) in
          Option.bind (read_loop wanted (h j)) (\<lambda>(data, b). Some (int wanted, data, h(j := b))))"

text \<open>The loop that fills the ring.\<close>

partial_function (option) write_loop :: "u8 list \<Rightarrow> bio \<Rightarrow> bio option" where
  "write_loop data b =
     (let rest = length data;
          write_offset = size_add (offset b) (len b);
          write_offset = (if bio_size b \<le> write_offset then write_offset - bio_size b else write_offset);
          chunk = (if size_add write_offset rest \<le> bio_size b then rest else bio_size b - write_offset);
          bs = the (buf b);
          b = b\<lparr>buf := Some (take write_offset bs @ take chunk data @ drop (write_offset + chunk) bs),
                len := size_add (len b) chunk\<rparr> in
      if rest - chunk = 0 then Some b else write_loop (drop chunk data) b)"

datatype write_error = BIO_R_BROKEN_PIPE

text \<open>The result, the error pushed and the heap. \<open>data\<close> is \<open>None\<close> for a source that is \<open>NULL\<close>; of a source
  only its first \<open>num_arg\<close> bytes count.\<close>

definition bio_write :: "bios \<Rightarrow> nat \<Rightarrow> u8 list option \<Rightarrow> int \<Rightarrow> (int \<times> write_error option \<times> bios) option" where
  "bio_write h i data num_arg =
     (let num = nat (num_arg mod 2 ^ 64);
          h = h(i := BIO_clear_retry_flags (h i)) in
      if \<not> init (h i) \<or> data = None \<or> num = 0 then Some (0, None, h)
      else
        let h = h(i := (h i)\<lparr>request := 0\<rparr>) in
        if closed (h i) then Some (- 1, Some BIO_R_BROKEN_PIPE, h)
        else if len (h i) = bio_size (h i) then Some (- 1, None, h(i := BIO_set_retry_write (h i)))
        else
          let num = (if bio_size (h i) - len (h i) < num then bio_size (h i) - len (h i) else num) in
          Option.bind (write_loop (take num (the data)) (h i)) (\<lambda>b. Some (int num, None, h(i := b))))"

datatype pair_error = BIO_R_IN_USE | ERR_R_MALLOC_FAILURE

definition alloc_ring :: "malloc \<Rightarrow> bio \<Rightarrow> nat \<Rightarrow> bio option" where
  "alloc_ring malloc b writebuf_len =
     (if buf b = None then
        let b = (if writebuf_len \<noteq> 0 then b\<lparr>bio_size := writebuf_len\<rparr> else b) in
        case malloc (bio_size b) of
          None \<Rightarrow> None
        | Some bs \<Rightarrow> Some (b\<lparr>buf := Some bs, len := 0, offset := 0\<rparr>)
      else Some b)"

text \<open>When only the second buffer cannot be allocated, the first stays.\<close>

definition bio_make_pair :: "malloc \<Rightarrow> bios \<Rightarrow> nat \<Rightarrow> nat \<Rightarrow> nat \<Rightarrow> nat \<Rightarrow> pair_error option \<times> bios" where
  "bio_make_pair malloc h i j writebuf1_len writebuf2_len =
     (if peer (h i) \<noteq> None \<or> peer (h j) \<noteq> None then (Some BIO_R_IN_USE, h)
      else
        case alloc_ring malloc (h i) writebuf1_len of
          None \<Rightarrow> (Some ERR_R_MALLOC_FAILURE,
            h(i := if writebuf1_len \<noteq> 0 then (h i)\<lparr>bio_size := writebuf1_len\<rparr> else h i))
        | Some b1 \<Rightarrow>
            let h = h(i := b1) in
            case alloc_ring malloc (h j) writebuf2_len of
              None \<Rightarrow> (Some ERR_R_MALLOC_FAILURE,
                h(j := if writebuf2_len \<noteq> 0 then (h j)\<lparr>bio_size := writebuf2_len\<rparr> else h j))
            | Some b2 \<Rightarrow>
                let h = h(j := b2);
                    h = h(i := (h i)\<lparr>peer := Some j, closed := False, request := 0, init := True\<rparr>) in
                (None, h(j := (h j)\<lparr>peer := Some i, closed := False, request := 0, init := True\<rparr>)))"

text \<open>The commands; \<open>ptr\<close> of \<open>BIO_CTRL_EOF\<close> is a \<open>BIO\<close> or \<open>NULL\<close>.\<close>

datatype bio_cmd =
  BIO_C_GET_WRITE_BUF_SIZE | BIO_C_GET_WRITE_GUARANTEE | BIO_C_GET_READ_REQUEST | BIO_C_RESET_READ_REQUEST
  | BIO_C_SHUTDOWN_WR | BIO_CTRL_GET_CLOSE | BIO_CTRL_SET_CLOSE int | BIO_CTRL_PENDING | BIO_CTRL_WPENDING
  | BIO_CTRL_FLUSH | BIO_CTRL_EOF "nat option" | BIO_CTRL_OTHER int

fun bio_ctrl :: "bios \<Rightarrow> nat \<Rightarrow> bio_cmd \<Rightarrow> int \<times> bios" where
  "bio_ctrl h i BIO_C_GET_WRITE_BUF_SIZE = (int (bio_size (h i)), h)"
| "bio_ctrl h i BIO_C_GET_WRITE_GUARANTEE =
     (if peer (h i) = None \<or> closed (h i) then 0 else int (bio_size (h i)) - int (len (h i)), h)"
| "bio_ctrl h i BIO_C_GET_READ_REQUEST = (int (request (h i)), h)"
| "bio_ctrl h i BIO_C_RESET_READ_REQUEST = (1, h(i := (h i)\<lparr>request := 0\<rparr>))"
| "bio_ctrl h i BIO_C_SHUTDOWN_WR = (1, h(i := (h i)\<lparr>closed := True\<rparr>))"
| "bio_ctrl h i BIO_CTRL_GET_CLOSE = (shutdown (h i), h)"
| "bio_ctrl h i (BIO_CTRL_SET_CLOSE n) = (1, h(i := (h i)\<lparr>shutdown := n\<rparr>))"
| "bio_ctrl h i BIO_CTRL_PENDING = (case peer (h i) of Some j \<Rightarrow> int (len (h j)) | None \<Rightarrow> 0, h)"
| "bio_ctrl h i BIO_CTRL_WPENDING = (if buf (h i) \<noteq> None then int (len (h i)) else 0, h)"
| "bio_ctrl h i BIO_CTRL_FLUSH = (1, h)"
| "bio_ctrl h i (BIO_CTRL_EOF other) =
     (case other of Some k \<Rightarrow> of_bool (len (h k) = 0 \<and> closed (h k)) | None \<Rightarrow> 1, h)"
| "bio_ctrl h i (BIO_CTRL_OTHER cmd) = (0, h)"

definition BIO_ctrl_get_read_request :: "bios \<Rightarrow> nat \<Rightarrow> int" where
  "BIO_ctrl_get_read_request h i = fst (bio_ctrl h i BIO_C_GET_READ_REQUEST)"

definition BIO_ctrl_get_write_guarantee :: "bios \<Rightarrow> nat \<Rightarrow> int" where
  "BIO_ctrl_get_write_guarantee h i = fst (bio_ctrl h i BIO_C_GET_WRITE_GUARANTEE)"

definition BIO_shutdown_wr :: "bios \<Rightarrow> nat \<Rightarrow> int \<times> bios" where
  "BIO_shutdown_wr h i = bio_ctrl h i BIO_C_SHUTDOWN_WR"

text \<open>Two fresh endpoints; \<open>NULL\<close> pointers come from a failed allocation of a \<open>BIO\<close>.\<close>

definition BIO_new_bio_pair :: "malloc \<Rightarrow> bool \<Rightarrow> bool \<Rightarrow> bios \<Rightarrow> nat \<Rightarrow> nat \<Rightarrow> nat \<Rightarrow> nat \<Rightarrow> bool \<times> bios" where
  "BIO_new_bio_pair malloc alloc1 alloc2 h i j writebuf1_len writebuf2_len =
     (if \<not> alloc1 \<or> \<not> alloc2 then (False, h)
      else
        let (err, h') = bio_make_pair malloc (h(i := bio_new, j := bio_new)) i j writebuf1_len writebuf2_len in
        if err \<noteq> None then (False, h) else (True, h'))"

section \<open>Calls\<close>

definition BIO_read :: "bios \<Rightarrow> nat \<Rightarrow> bool \<Rightarrow> int \<Rightarrow> (int \<times> u8 list \<times> bios) option" where
  "BIO_read h i have_buf n =
     (if \<not> init (h i) then Some (- 2, [], h)
      else if n \<le> 0 then Some (0, [], h)
      else Option.bind (bio_read h i have_buf n) (\<lambda>(ret, data, h).
        Some (ret, data, if 0 < ret then h(i := (h i)\<lparr>num_read := num_read (h i) + word_of_int ret\<rparr>) else h)))"

definition BIO_write :: "bios \<Rightarrow> nat \<Rightarrow> u8 list option \<Rightarrow> int \<Rightarrow> (int \<times> write_error option \<times> bios) option" where
  "BIO_write h i data n =
     (if \<not> init (h i) then Some (- 2, None, h)
      else if n \<le> 0 then Some (0, None, h)
      else Option.bind (bio_write h i data n) (\<lambda>(ret, err, h).
        Some (ret, err, if 0 < ret then h(i := (h i)\<lparr>num_write := num_write (h i) + word_of_int ret\<rparr>) else h)))"

section \<open>The ring\<close>

definition ring :: "bio \<Rightarrow> u8 list" where
  "ring b = map (\<lambda>i. the (buf b) ! ((offset b + i) mod bio_size b)) [0..<len b]"

text \<open>An empty ring begins at 0.\<close>

definition ring_ok :: "bio \<Rightarrow> bool" where
  "ring_ok b \<longleftrightarrow> (\<exists>bs. buf b = Some bs \<and> length bs = bio_size b) \<and> 0 < bio_size b \<and> bio_size b < 2 ^ 63 \<and>
    len b \<le> bio_size b \<and> offset b < bio_size b \<and> (len b = 0 \<longrightarrow> offset b = 0) \<and> request b \<le> bio_size b"

lemma length_ring [simp]: "length (ring b) = len b"
  by (simp add: ring_def)

lemma ring_nth: "i < len b \<Longrightarrow> ring b ! i = the (buf b) ! ((offset b + i) mod bio_size b)"
  by (simp add: ring_def)

text \<open>One round of the reading loop.\<close>

definition read_round :: "nat \<Rightarrow> bio \<Rightarrow> nat \<times> bio" where
  "read_round rest b =
     (let chunk = (if size_add (offset b) rest \<le> bio_size b then rest else bio_size b - offset b);
          b = b\<lparr>len := len b - chunk\<rparr> in
      (chunk, if len b \<noteq> 0 then
                 let b = b\<lparr>offset := size_add (offset b) chunk\<rparr> in
                 if offset b = bio_size b then b\<lparr>offset := 0\<rparr> else b
               else b\<lparr>offset := 0\<rparr>))"

lemma read_loop_round:
  "read_round rest b = (chunk, b') \<Longrightarrow> read_loop rest b =
    (if rest - chunk = 0 then Some (take chunk (drop (offset b) (the (buf b))), b')
     else Option.bind (read_loop (rest - chunk) b')
       (\<lambda>(more, b''). Some (take chunk (drop (offset b) (the (buf b))) @ more, b'')))"
  by (subst read_loop.simps) (auto simp: read_round_def Let_def split: if_splits)

lemma read_round_ring:
  assumes ok: "ring_ok b" and rest: "0 < rest" "rest \<le> len b" and r: "read_round rest b = (chunk, b')"
  shows "ring_ok b' \<and> 0 < chunk \<and> chunk \<le> rest \<and> take chunk (drop (offset b) (the (buf b))) = take chunk (ring b) \<and>
    ring b' = drop chunk (ring b) \<and> (chunk = rest \<or> chunk = bio_size b - offset b \<and> offset b' = 0) \<and>
    b' = b\<lparr>len := len b', offset := offset b'\<rparr>"
proof -
  have s: "offset b < bio_size b" "len b \<le> bio_size b" "bio_size b < 2 ^ 63" using ok by (simp_all add: ring_ok_def)
  define c where "c = (if offset b + rest \<le> bio_size b then rest else bio_size b - offset b)"
  have add: "size_add (offset b) rest = offset b + rest" using s rest by (intro size_add_small) simp
  have c: "chunk = c" using r by (auto simp: read_round_def Let_def c_def add split: if_splits)
  have cb: "0 < c" "c \<le> rest" "offset b + c \<le> bio_size b" using s rest by (auto simp: c_def)
  have addc: "size_add (offset b) c = offset b + c" using s cb by (intro size_add_small) simp
  have b': "b' = b\<lparr>len := len b - c, offset := if len b - c \<noteq> 0 \<and> offset b + c \<noteq> bio_size b then offset b + c else 0\<rparr>"
    using r unfolding c [symmetric] by (auto simp: read_round_def Let_def c addc c_def [symmetric] add split: if_splits)
  have nth: "ring b' ! i = ring b ! (c + i)" if "i < len b - c" for i
  proof (cases "offset b + c = bio_size b")
    case True
    then have "(offset b + (c + i)) mod bio_size b = i mod bio_size b"
      using mod_add_self1 [of "bio_size b" i] by (simp add: add.assoc [symmetric])
    then show ?thesis using that True cb rest by (simp add: ring_nth b')
  next
    case False
    then show ?thesis using that cb rest by (simp add: ring_nth b' add.assoc)
  qed
  have "ring b' = drop c (ring b)"
  proof (rule nth_equalityI)
    have l: "len b' = len b - c" by (simp add: b')
    then show "length (ring b') = length (drop c (ring b))" by simp
    show "ring b' ! i = drop c (ring b) ! i" if "i < length (ring b')" for i
      using nth [of i] that l by simp
  qed
  moreover have "take c (drop (offset b) (the (buf b))) = take c (ring b)"
    using cb s rest ok by (intro nth_equalityI) (auto simp: ring_nth ring_ok_def)
  ultimately show ?thesis
    using ok cb s c rest unfolding b' by (auto simp: ring_ok_def c_def)
qed


lemma read_loop_ring:
  assumes ok: "ring_ok b" and rest: "0 < rest" "rest \<le> len b"
  shows "\<exists>b'. read_loop rest b = Some (take rest (ring b), b') \<and> ring_ok b' \<and> ring b' = drop rest (ring b) \<and>
    b' = b\<lparr>len := len b', offset := offset b'\<rparr>"
proof -
  obtain c b1 where r1: "read_round rest b = (c, b1)" by fastforce
  note 1 = read_round_ring [OF ok rest r1]
  show ?thesis
  proof (cases "c = rest")
    case True
    then show ?thesis using read_loop_round [OF r1] 1 by auto
  next
    case False
    have "len b1 = len b - c" using 1 length_ring [of b1] by (simp del: length_ring) simp
    then have "0 < rest - c" "rest - c \<le> len b1" "offset b1 = 0" using 1 rest False by auto
    obtain c2 b2 where r2: "read_round (rest - c) b1 = (c2, b2)" by fastforce
    have ok1: "ring_ok b1" using 1 by simp
    note 2 = read_round_ring [OF ok1 \<open>0 < rest - c\<close> \<open>rest - c \<le> len b1\<close> r2]
    have "rest - c \<le> bio_size b1" using ok1 \<open>rest - c \<le> len b1\<close> by (simp add: ring_ok_def)
    then have "c2 = rest - c" using 2 \<open>offset b1 = 0\<close> by auto
    then have "read_loop (rest - c) b1 = Some (take (rest - c) (ring b1), b2)" using read_loop_round [OF r2] 2 by auto
    moreover have "take c (ring b) @ take (rest - c) (ring b1) = take rest (ring b)"
      using 1 take_add [of c "rest - c" "ring b"] by auto
    ultimately have "read_loop rest b = Some (take rest (ring b), b2)"
      using read_loop_round [OF r1] 1 False by auto
    moreover have "ring b2 = drop rest (ring b)" using 1 2 \<open>c2 = rest - c\<close> by auto
    moreover have "b2 = b\<lparr>len := len b2, offset := offset b2\<rparr>"
    proof -
      have "b1 = b\<lparr>len := len b1, offset := offset b1\<rparr>" "b2 = b1\<lparr>len := len b2, offset := offset b2\<rparr>" using 1 2 by blast+
      then show ?thesis by (cases b; cases b1; cases b2) simp
    qed
    ultimately show ?thesis using 2 by auto
  qed
qed


text \<open>One round of the writing loop.\<close>

definition write_round :: "u8 list \<Rightarrow> bio \<Rightarrow> nat \<times> bio" where
  "write_round data b =
     (let write_offset = size_add (offset b) (len b);
          write_offset = (if bio_size b \<le> write_offset then write_offset - bio_size b else write_offset);
          chunk = (if size_add write_offset (length data) \<le> bio_size b then length data else bio_size b - write_offset);
          bs = the (buf b) in
      (chunk, b\<lparr>buf := Some (take write_offset bs @ take chunk data @ drop (write_offset + chunk) bs),
                len := size_add (len b) chunk\<rparr>))"

lemma write_loop_round:
  "write_round data b = (chunk, b') \<Longrightarrow>
    write_loop data b = (if length data - chunk = 0 then Some b' else write_loop (drop chunk data) b')"
  by (subst write_loop.simps) (auto simp: write_round_def Let_def split: if_splits)

lemma nth_overwrite:
  "w + length xs \<le> length bs \<Longrightarrow> k < length bs \<Longrightarrow>
    (take w bs @ xs @ drop (w + length xs) bs) ! k = (if w \<le> k \<and> k < w + length xs then xs ! (k - w) else bs ! k)"
  by (auto simp: nth_append)

lemma write_round_ring:
  assumes ok: "ring_ok b" and room: "data \<noteq> []" "length data \<le> bio_size b - len b" and r: "write_round data b = (chunk, b')"
  shows "ring_ok b' \<and> 0 < chunk \<and> chunk \<le> length data \<and> ring b' = ring b @ take chunk data \<and>
    (chunk = length data \<or> offset b + len b' = bio_size b) \<and> b' = b\<lparr>buf := buf b', len := len b'\<rparr>"
proof -
  define n where "n = bio_size b"
  obtain bs where bs: "buf b = Some bs" "length bs = n" using ok by (auto simp: ring_ok_def n_def)
  have s: "offset b < n" "len b \<le> n" "n < 2 ^ 63" "length data \<le> n - len b" "0 < length data"
    using ok room by (simp_all add: ring_ok_def n_def)
  define w where "w = (if n \<le> offset b + len b then offset b + len b - n else offset b + len b)"
  define c where "c = (if w + length data \<le> n then length data else n - w)"
  have w: "w < n" "w = (offset b + len b) mod n" using s by (auto simp: w_def mod_if)
  have add: "size_add (offset b) (len b) = offset b + len b" "size_add w (length data) = w + length data" "size_add (len b) c = len b + c"
    using s w(1) by (auto intro!: size_add_small simp: c_def)
  have cb: "0 < c" "c \<le> length data" "w + c \<le> n" using s w by (auto simp: c_def)
  define bs' where "bs' = take w bs @ take c data @ drop (w + c) bs"
  have rr: "chunk = c" "b' = b\<lparr>buf := Some bs', len := len b + c\<rparr>"
    using r unfolding write_round_def Let_def n_def [symmetric] add(1) w_def [symmetric] add(2) c_def [symmetric] add(3) bs'_def bs
    by auto
  have l: "length bs' = n" using bs w cb by (simp add: bs'_def)
  have byte: "bs' ! k = (if w \<le> k \<and> k < w + c then data ! (k - w) else bs ! k)" if "k < n" for k
    using nth_overwrite [of w "take c data" bs k] bs cb that by (auto simp: bs'_def)
  have "ring b' = ring b @ take c data"
  proof (rule nth_equalityI)
    show "length (ring b') = length (ring b @ take c data)" using cb by (simp add: rr)
    fix i
    assume "i < length (ring b')"
    then have i: "i < len b + c" by (simp add: rr)
    then have m: "i < n" "(offset b + i) mod n < n" using s cb by auto
    have "ring b' ! i = bs' ! ((offset b + i) mod n)" using i by (simp add: ring_nth rr n_def)
    also have "\<dots> = (ring b @ take c data) ! i"
    proof (cases "i < len b")
      case True
      then have "\<not> (w \<le> (offset b + i) mod n \<and> (offset b + i) mod n < w + c)"
        using s cb by (auto simp: w_def c_def mod_if)
      then have "bs' ! ((offset b + i) mod n) = bs ! ((offset b + i) mod n)" unfolding byte [OF m(2)] by (rule if_not_P)
      then show ?thesis using True by (simp add: nth_append ring_nth bs n_def)
    next
      case False
      then have "(offset b + i) mod n = w + (i - len b)" using s i cb by (auto simp: w_def mod_if)
      moreover have "w \<le> w + (i - len b) \<and> w + (i - len b) < w + c" using False i by (intro conjI) linarith+
      ultimately have "bs' ! ((offset b + i) mod n) = data ! (i - len b)"
        using byte [OF m(2)] by (simp only: if_P diff_add_inverse)
      then show ?thesis using False i cb by (simp add: nth_append)
    qed
    finally show "ring b' ! i = (ring b @ take c data) ! i" .
  qed
  moreover have "ring_ok b'" using ok l s cb by (auto simp: ring_ok_def rr n_def)
  moreover have "c = length data \<or> offset b + (len b + c) = n" using s by (auto simp: c_def w_def)
  ultimately show ?thesis using cb by (simp add: rr n_def)
qed


lemma write_loop_ring:
  assumes ok: "ring_ok b" and room: "data \<noteq> []" "length data \<le> bio_size b - len b"
  shows "\<exists>b'. write_loop data b = Some b' \<and> ring_ok b' \<and> ring b' = ring b @ data \<and> b' = b\<lparr>buf := buf b', len := len b'\<rparr>"
proof -
  obtain c b1 where r1: "write_round data b = (c, b1)" by fastforce
  note 1 = write_round_ring [OF ok room r1]
  show ?thesis
  proof (cases "c = length data")
    case True
    then show ?thesis using write_loop_round [OF r1] 1 by auto
  next
    case False
    have e1: "b1 = b\<lparr>buf := buf b1, len := len b1\<rparr>" using 1 by blast
    have b1: "bio_size b1 = bio_size b" "offset b1 = offset b"
      using arg_cong [OF e1, of bio_size] arg_cong [OF e1, of offset] by simp_all
    have l1: "len b1 = len b + c" using 1 length_ring [of b1] by (simp del: length_ring) simp
    define rest where "rest = drop c data"
    have rest: "rest \<noteq> []" "length rest \<le> bio_size b1 - len b1"
      using 1 False room b1 l1 by (auto simp: rest_def)
    obtain c2 b2 where r2: "write_round rest b1 = (c2, b2)" by fastforce
    have ok1: "ring_ok b1" using 1 by simp
    note 2 = write_round_ring [OF ok1 rest r2]
    have "c2 = length rest"
    proof (rule ccontr)
      assume "c2 \<noteq> length rest"
      then have "offset b1 + len b2 = bio_size b1" "len b2 = len b1 + c2"
        using 2 length_ring [of b2] by (simp_all del: length_ring) simp
      then show False using 1 2 False b1 l1 by auto
    qed
    then have "write_loop rest b1 = Some b2" "ring b2 = ring b1 @ rest" using write_loop_round [OF r2] 2 by auto
    moreover have "write_loop data b = write_loop rest b1" using write_loop_round [OF r1] 1 False by (simp add: rest_def)
    moreover have "ring b1 @ rest = ring b @ data" using 1 by (simp add: rest_def)
    moreover have "b2 = b\<lparr>buf := buf b2, len := len b2\<rparr>"
    proof -
      have "b1 = b\<lparr>buf := buf b1, len := len b1\<rparr>" "b2 = b1\<lparr>buf := buf b2, len := len b2\<rparr>" using 1 2 by blast+
      then show ?thesis by (cases b; cases b1; cases b2) simp
    qed
    ultimately show ?thesis using 2 by auto
  qed
qed

section \<open>Two queues\<close>

text \<open>What one endpoint writes, as the specification sees it.\<close>

record queue =
  q_data :: "u8 list"
  q_cap :: nat
  q_closed :: bool
  q_request :: nat

datatype pair_op = Write "u8 list" | Read int | Shutdown | Pending | Wpending | Guarantee | Request | Reset_Request

text \<open>A result of \<open>- 1\<close> comes with the reason to try again.\<close>

datatype pair_out = Wrote int "write_error option" u32 | Got int "u8 list" u32 | Ctrl int

definition queue_write :: "queue \<Rightarrow> u8 list \<Rightarrow> pair_out \<times> queue" where
  "queue_write q data =
     (if data = [] then (Wrote 0 None 0, q)
      else
        let q = q\<lparr>q_request := 0\<rparr>; n = min (length data) (q_cap q - length (q_data q)) in
        if q_closed q then (Wrote (- 1) (Some BIO_R_BROKEN_PIPE) 0, q)
        else if n = 0 then (Wrote (- 1) None (BIO_FLAGS_WRITE OR BIO_FLAGS_SHOULD_RETRY), q)
        else (Wrote (int n) None 0, q\<lparr>q_data := q_data q @ take n data\<rparr>))"

definition queue_read :: "queue \<Rightarrow> int \<Rightarrow> pair_out \<times> queue" where
  "queue_read q n =
     (if n \<le> 0 then (Got 0 [] 0, q)
      else if q_data q = [] then
        if q_closed q then (Got 0 [] 0, q\<lparr>q_request := 0\<rparr>)
        else (Got (- 1) [] (BIO_FLAGS_READ OR BIO_FLAGS_SHOULD_RETRY), q\<lparr>q_request := min (nat n) (q_cap q)\<rparr>)
      else
        let k = min (nat n) (length (q_data q)) in
        (Got (int k) (take k (q_data q)) 0, q\<lparr>q_data := drop k (q_data q), q_request := 0\<rparr>))"

text \<open>One endpoint writes \<open>own\<close> and reads \<open>other\<close>.\<close>

fun queue_step :: "queue \<Rightarrow> queue \<Rightarrow> pair_op \<Rightarrow> pair_out \<times> queue \<times> queue" where
  "queue_step own other (Write data) = (let (r, q) = queue_write own data in (r, q, other))"
| "queue_step own other (Read n) = (let (r, q) = queue_read other n in (r, own, q))"
| "queue_step own other Shutdown = (Ctrl 1, own\<lparr>q_closed := True\<rparr>, other)"
| "queue_step own other Pending = (Ctrl (int (length (q_data other))), own, other)"
| "queue_step own other Wpending = (Ctrl (int (length (q_data own))), own, other)"
| "queue_step own other Guarantee =
     (Ctrl (if q_closed own then 0 else int (q_cap own) - int (length (q_data own))), own, other)"
| "queue_step own other Request = (Ctrl (int (q_request own)), own, other)"
| "queue_step own other Reset_Request = (Ctrl 1, own\<lparr>q_request := 0\<rparr>, other)"

text \<open>The calls of the code at endpoint \<open>i\<close>.\<close>

definition retry :: "bios \<Rightarrow> nat \<Rightarrow> int \<Rightarrow> u32" where
  "retry h i ret = (if ret = - 1 then flags (h i) AND kRetryFlags else 0)"

fun bio_step :: "bios \<Rightarrow> nat \<Rightarrow> pair_op \<Rightarrow> (pair_out \<times> bios) option" where
  "bio_step h i (Write data) =
     map_option (\<lambda>(ret, err, h). (Wrote ret err (retry h i ret), h)) (BIO_write h i (Some data) (int (length data)))"
| "bio_step h i (Read n) = map_option (\<lambda>(ret, data, h). (Got ret data (retry h i ret), h)) (BIO_read h i True n)"
| "bio_step h i Shutdown = (let (r, h) = BIO_shutdown_wr h i in Some (Ctrl r, h))"
| "bio_step h i Pending = (let (r, h) = bio_ctrl h i BIO_CTRL_PENDING in Some (Ctrl r, h))"
| "bio_step h i Wpending = (let (r, h) = bio_ctrl h i BIO_CTRL_WPENDING in Some (Ctrl r, h))"
| "bio_step h i Guarantee = Some (Ctrl (BIO_ctrl_get_write_guarantee h i), h)"
| "bio_step h i Request = Some (Ctrl (BIO_ctrl_get_read_request h i), h)"
| "bio_step h i Reset_Request = (let (r, h) = bio_ctrl h i BIO_C_RESET_READ_REQUEST in Some (Ctrl r, h))"

text \<open>Lengths are of type \<open>int\<close> in C.\<close>

fun op_ok :: "pair_op \<Rightarrow> bool" where
  "op_ok (Write data) = (length data < 2 ^ 31)"
| "op_ok (Read n) = (n < 2 ^ 31)"
| "op_ok op = True"

definition view :: "bio \<Rightarrow> queue" where
  "view b = \<lparr>q_data = ring b, q_cap = bio_size b, q_closed = closed b, q_request = request b\<rparr>"

definition pair_ok :: "bios \<Rightarrow> nat \<Rightarrow> nat \<Rightarrow> bool" where
  "pair_ok h i j \<longleftrightarrow> i \<noteq> j \<and> peer (h i) = Some j \<and> peer (h j) = Some i \<and> init (h i) \<and> init (h j) \<and>
    ring_ok (h i) \<and> ring_ok (h j)"

lemma pair_ok_sym: "pair_ok h i j \<Longrightarrow> pair_ok h j i"
  by (auto simp: pair_ok_def)

lemma ring_upd [simp]:
  "ring (b\<lparr>flags := f\<rparr>) = ring b" "ring (b\<lparr>request := r\<rparr>) = ring b" "ring (b\<lparr>closed := c\<rparr>) = ring b"
  "ring (b\<lparr>retry_reason := rr\<rparr>) = ring b" "ring (b\<lparr>num_read := nr\<rparr>) = ring b" "ring (b\<lparr>num_write := nw\<rparr>) = ring b"
  by (simp_all add: ring_def)

lemma ring_ok_upd [simp]:
  "ring_ok (b\<lparr>flags := f\<rparr>) = ring_ok b" "ring_ok (b\<lparr>closed := c\<rparr>) = ring_ok b"
  "ring_ok (b\<lparr>retry_reason := rr\<rparr>) = ring_ok b" "ring_ok (b\<lparr>num_read := nr\<rparr>) = ring_ok b"
  "ring_ok (b\<lparr>num_write := nw\<rparr>) = ring_ok b"
  by (simp_all add: ring_ok_def)

lemma ring_ok_request: "ring_ok b \<Longrightarrow> r \<le> bio_size b \<Longrightarrow> ring_ok (b\<lparr>request := r\<rparr>)"
  by (simp add: ring_ok_def)

lemma retry_flags:
  "(f AND NOT kRetryFlags) AND kRetryFlags = 0"
  "((f AND NOT kRetryFlags) OR (BIO_FLAGS_READ OR BIO_FLAGS_SHOULD_RETRY)) AND kRetryFlags = BIO_FLAGS_READ OR BIO_FLAGS_SHOULD_RETRY"
  "((f AND NOT kRetryFlags) OR (BIO_FLAGS_WRITE OR BIO_FLAGS_SHOULD_RETRY)) AND kRetryFlags = BIO_FLAGS_WRITE OR BIO_FLAGS_SHOULD_RETRY"
  unfolding kRetryFlags_def BIO_FLAGS_RWS_def
  by (auto intro!: bit_word_eqI simp: bit_simps)

lemma int_arg: "0 < n \<Longrightarrow> n < 2 ^ 31 \<Longrightarrow> nat (n mod 2 ^ 64) = nat n"
  by simp

text \<open>An endpoint with its retry flags and the request cleared.\<close>

definition cleared :: "bio \<Rightarrow> bio" where
  "cleared b = (BIO_clear_retry_flags b)\<lparr>request := 0\<rparr>"

lemma cleared_simps [simp]:
  "ring (cleared b) = ring b" "ring_ok b \<Longrightarrow> ring_ok (cleared b)" "peer (cleared b) = peer b" "init (cleared b) = init b"
  "closed (cleared b) = closed b" "len (cleared b) = len b" "bio_size (cleared b) = bio_size b" "request (cleared b) = 0"
  "flags (cleared b) = flags b AND NOT kRetryFlags"
  by (simp_all add: cleared_def BIO_clear_retry_flags_def ring_ok_request)

lemma bio_write_eq:
  assumes "init (h i)" "data \<noteq> []" "length data < 2 ^ 31"
  shows "bio_write h i (Some data) (int (length data)) =
    (if closed (h i) then Some (- 1, Some BIO_R_BROKEN_PIPE, h(i := cleared (h i)))
     else if len (h i) = bio_size (h i) then Some (- 1, None, h(i := BIO_set_retry_write (cleared (h i))))
     else
       let num = if bio_size (h i) - len (h i) < length data then bio_size (h i) - len (h i) else length data in
       Option.bind (write_loop (take num data) (cleared (h i))) (\<lambda>b. Some (int num, None, h(i := b))))"
proof -
  have "nat (int (length data) mod 2 ^ 64) = length data" using assms(3) by simp
  then show ?thesis
    using assms(1,2) unfolding bio_write_def Let_def
    by (simp add: cleared_def [symmetric] BIO_clear_retry_flags_def [symmetric]) (simp add: cleared_def BIO_clear_retry_flags_def)
qed

lemma write_step:
  assumes "pair_ok h i j" "length data < 2 ^ 31"
  shows "\<exists>h'. bio_step h i (Write data) = Some (fst (queue_write (view (h i)) data), h') \<and> pair_ok h' i j \<and>
    view (h' i) = snd (queue_write (view (h i)) data) \<and> view (h' j) = view (h j)"
proof (cases "data = []")
  case True
  then show ?thesis using assms by (simp add: BIO_write_def queue_write_def pair_ok_def retry_def)
next
  case False
  define b where "b = h i"
  have ok: "i \<noteq> j" "init b" "ring_ok b" using assms(1) by (simp_all add: pair_ok_def b_def)
  note w = bio_write_eq [of h i data, folded b_def, OF ok(2) False assms(2)]
  have bw: "BIO_write h i (Some data) (int (length data)) =
      Option.bind (bio_write h i (Some data) (int (length data))) (\<lambda>(ret, err, h).
        Some (ret, err, if 0 < ret then h(i := (h i)\<lparr>num_write := num_write (h i) + word_of_int ret\<rparr>) else h))"
    using ok(2) False by (simp add: BIO_write_def b_def)
  show ?thesis
  proof (cases "closed b \<or> len b = bio_size b")
    case True
    then show ?thesis
      using assms ok False w bw
      by (auto simp: queue_write_def view_def retry_def pair_ok_def b_def [symmetric] BIO_set_retry_write_def retry_flags)
  next
    case open_room: False
    define num where "num = (if bio_size b - len b < length data then bio_size b - len b else length data)"
    have le: "len b < bio_size b" using open_room ok(3) by (simp add: ring_ok_def)
    then have num: "0 < num" "num \<le> length data" "num \<le> bio_size b - len b" "num = min (length data) (bio_size b - len b)"
      using False by (auto simp: num_def)
    obtain b2 where b2: "write_loop (take num data) (cleared b) = Some b2" "ring_ok b2" "ring b2 = ring b @ take num data"
        "b2 = (cleared b)\<lparr>buf := buf b2, len := len b2\<rparr>"
      using write_loop_ring [of "cleared b" "take num data"] ok(3) num False by auto
    have f: "peer b2 = peer b" "init b2 = init b" "closed b2 = closed b" "bio_size b2 = bio_size b" "request b2 = 0"
      using arg_cong [OF b2(4), of peer] arg_cong [OF b2(4), of init] arg_cong [OF b2(4), of closed]
        arg_cong [OF b2(4), of bio_size] arg_cong [OF b2(4), of request] by simp_all
    show ?thesis
      using assms ok False open_room bw num f b2(1-3) unfolding w num_def [symmetric]
      by (auto simp: queue_write_def view_def retry_def pair_ok_def b_def [symmetric] Let_def)
  qed
qed

lemma bio_read_eq:
  assumes "init (h i)" "peer (h i) = Some j" "i \<noteq> j" "0 < n" "n < 2 ^ 31"
  shows "bio_read h i True n =
    (let h = h(i := BIO_clear_retry_flags (h i), j := (h j)\<lparr>request := 0\<rparr>) in
     if len (h j) = 0 then
       if closed (h j) then Some (0, [], h)
       else Some (- 1, [], h(i := BIO_set_retry_read (h i), j := (h j)\<lparr>request := min (nat n) (bio_size (h j))\<rparr>))
     else
       let k = min (nat n) (len (h j)) in
       Option.bind (read_loop k (h j)) (\<lambda>(data, b). Some (int k, data, h(j := b))))"
proof -
  have "nat (n mod 2 ^ 64) = nat n" "0 < nat n" using assms(4,5) by simp_all
  then show ?thesis
    using assms(1-3) by (simp add: bio_read_def Let_def BIO_clear_retry_flags_def min_def)
qed

lemma read_step:
  assumes "pair_ok h i j" "n < 2 ^ 31"
  shows "\<exists>h'. bio_step h i (Read n) = Some (fst (queue_read (view (h j)) n), h') \<and> pair_ok h' i j \<and>
    view (h' i) = view (h i) \<and> view (h' j) = snd (queue_read (view (h j)) n)"
proof (cases "n \<le> 0")
  case True
  then show ?thesis using assms by (simp add: BIO_read_def queue_read_def pair_ok_def retry_def)
next
  case False
  define b where "b = (h j)\<lparr>request := 0\<rparr>"
  have ok: "i \<noteq> j" "init (h i)" "peer (h i) = Some j" "ring_ok b"
    using assms(1) by (simp_all add: pair_ok_def b_def ring_ok_request)
  note r = bio_read_eq [of h i j n, OF ok(2,3,1) _ assms(2), unfolded Let_def]
  have br: "BIO_read h i True n = Option.bind (bio_read h i True n) (\<lambda>(ret, data, h).
      Some (ret, data, if 0 < ret then h(i := (h i)\<lparr>num_read := num_read (h i) + word_of_int ret\<rparr>) else h))"
    using ok(2) False by (simp add: BIO_read_def)
  show ?thesis
  proof (cases "len b = 0")
    case True
    then have e: "ring (h j) = []" "len (h j) = 0" using length_ring [of "h j"] by (simp_all add: b_def del: length_ring)
    then show ?thesis
      using assms ok False r br
      by (auto simp: queue_read_def view_def retry_def pair_ok_def BIO_set_retry_read_def BIO_clear_retry_flags_def
        retry_flags ring_ok_request)
  next
    case nonempty: False
    define k where "k = min (nat n) (len b)"
    have k: "0 < k" "k \<le> len b" using False nonempty by (simp_all add: k_def)
    obtain b2 where b2: "read_loop k b = Some (take k (ring b), b2)" "ring_ok b2" "ring b2 = drop k (ring b)"
        "b2 = b\<lparr>len := len b2, offset := offset b2\<rparr>"
      using read_loop_ring [OF ok(4) k] by auto
    have f: "peer b2 = peer b" "init b2 = init b" "closed b2 = closed b" "bio_size b2 = bio_size b" "request b2 = 0"
      using arg_cong [OF b2(4), of peer] arg_cong [OF b2(4), of init] arg_cong [OF b2(4), of closed]
        arg_cong [OF b2(4), of bio_size] arg_cong [OF b2(4), of request] by (simp_all add: b_def)
    have hj: "ring (h j) = ring b" "len (h j) = len b" "closed (h j) = closed b" "bio_size (h j) = bio_size b" "peer (h j) = peer b" "init (h j) = init b"
      by (simp_all add: b_def)
    have ne: "ring b \<noteq> []" using nonempty length_ring [of b] by (auto simp del: length_ring)
    have "bio_read h i True n = Some (int k, take k (ring b), h(i := BIO_clear_retry_flags (h i), j := b2))"
      using r False nonempty b2(1) ok(1) by (simp add: k_def b_def)
    then have "BIO_read h i True n = Some (int k, take k (ring b),
        h(i := (BIO_clear_retry_flags (h i))\<lparr>num_read := num_read (h i) + word_of_int (int k)\<rparr>, j := b2))"
      using br k ok(1) by (simp add: BIO_clear_retry_flags_def fun_upd_twist)
    then show ?thesis
      using assms False ne nonempty f b2(2,3) hj ok(1)
      by (auto simp: queue_read_def view_def retry_def pair_ok_def Let_def k_def BIO_clear_retry_flags_def)
  qed
qed

text \<open>Any call at either endpoint.\<close>

lemma pair_step:
  assumes "pair_ok h i j" "op_ok op"
  shows "\<exists>h' r q1 q2. bio_step h i op = Some (r, h') \<and> pair_ok h' i j \<and>
    queue_step (view (h i)) (view (h j)) op = (r, q1, q2) \<and> view (h' i) = q1 \<and> view (h' j) = q2"
proof (cases op)
  case (Write data)
  then show ?thesis using write_step [OF assms(1), of data] assms(2) by (cases "queue_write (view (h i)) data") auto
next
  case (Read n)
  then show ?thesis using read_step [OF assms(1), of n] assms(2) by (cases "queue_read (view (h j)) n") auto
qed (use assms in \<open>auto simp: pair_ok_def view_def BIO_shutdown_wr_def BIO_ctrl_get_write_guarantee_def
  BIO_ctrl_get_read_request_def ring_ok_request ring_ok_def\<close>)


section \<open>Sequences of calls\<close>

text \<open>\<open>True\<close> is the first endpoint.\<close>

fun bio_run :: "bios \<Rightarrow> nat \<Rightarrow> nat \<Rightarrow> (bool \<times> pair_op) list \<Rightarrow> (pair_out list \<times> bios) option" where
  "bio_run h i j [] = Some ([], h)"
| "bio_run h i j ((first, op) # ops) =
     Option.bind (bio_step h (if first then i else j) op) (\<lambda>(r, h).
     Option.bind (bio_run h i j ops) (\<lambda>(rs, h). Some (r # rs, h)))"

fun queue_run :: "queue \<Rightarrow> queue \<Rightarrow> (bool \<times> pair_op) list \<Rightarrow> pair_out list \<times> queue \<times> queue" where
  "queue_run q1 q2 [] = ([], q1, q2)"
| "queue_run q1 q2 ((first, op) # ops) =
     (let (r, q1, q2) = (if first then queue_step q1 q2 op else let (r, q2, q1) = queue_step q2 q1 op in (r, q1, q2));
          (rs, q1, q2) = queue_run q1 q2 ops in
      (r # rs, q1, q2))"

lemma bio_run_queues:
  "pair_ok h i j \<Longrightarrow> list_all (op_ok \<circ> snd) ops \<Longrightarrow>
    \<exists>rs h'. bio_run h i j ops = Some (rs, h') \<and> pair_ok h' i j \<and>
      queue_run (view (h i)) (view (h j)) ops = (rs, view (h' i), view (h' j))"
proof (induction ops arbitrary: h)
  case (Cons entry ops)
  obtain first op where e: "entry = (first, op)" by fastforce
  have ok: "op_ok op" "list_all (op_ok \<circ> snd) ops" using Cons.prems(2) by (simp_all add: e o_def)
  obtain h1 r where 1: "bio_step h (if first then i else j) op = Some (r, h1)" "pair_ok h1 i j"
    "(if first then queue_step (view (h i)) (view (h j)) op
      else let (r, q2, q1) = queue_step (view (h j)) (view (h i)) op in (r, q1, q2)) = (r, view (h1 i), view (h1 j))"
    using pair_step [OF Cons.prems(1) ok(1)] pair_step [OF pair_ok_sym [OF Cons.prems(1)] ok(1)]
    by (cases first) (auto dest: pair_ok_sym)
  obtain rs h2 where 2: "bio_run h1 i j ops = Some (rs, h2)" "pair_ok h2 i j"
    "queue_run (view (h1 i)) (view (h1 j)) ops = (rs, view (h2 i), view (h2 j))"
    using Cons.IH [OF 1(2) ok(2)] by blast
  have "queue_run (view (h i)) (view (h j)) (entry # ops) = (r # rs, view (h2 i), view (h2 j))"
    unfolding e queue_run.simps 1(3) by (simp add: 2(3))
  then show ?case using 1 2 by (simp add: e)
qed simp

text \<open>A new pair, with the contract of the allocator.\<close>

definition malloc_ok :: "malloc \<Rightarrow> bool" where
  "malloc_ok malloc \<longleftrightarrow> (\<forall>n bs. malloc n = Some bs \<longrightarrow> length bs = n \<and> n < 2 ^ 63)"

definition empty_queue :: "nat \<Rightarrow> queue" where
  "empty_queue writebuf_len =
     \<lparr>q_data = [], q_cap = if writebuf_len = 0 then 17 * 1024 else writebuf_len, q_closed = False, q_request = 0\<rparr>"

lemma new_pair:
  assumes "malloc_ok malloc" "i \<noteq> j" "BIO_new_bio_pair malloc a1 a2 h0 i j w1 w2 = (True, h)"
  shows "pair_ok h i j \<and> view (h i) = empty_queue w1 \<and> view (h j) = empty_queue w2"
proof -
  define n1 where "n1 = (if w1 = 0 then 17 * 1024 else w1)"
  define n2 where "n2 = (if w2 = 0 then 17 * 1024 else w2)"
  obtain bs1 where 1: "malloc n1 = Some bs1"
    using assms(2,3) by (cases "malloc n1") (auto simp: BIO_new_bio_pair_def bio_make_pair_def alloc_ring_def bio_new_def n1_def split: if_splits)
  obtain bs2 where 2: "malloc n2 = Some bs2"
    using assms(2,3) 1 by (cases "malloc n2") (auto simp: BIO_new_bio_pair_def bio_make_pair_def alloc_ring_def bio_new_def n1_def n2_def split: if_splits)
  have h: "h i = bio_new\<lparr>init := True, peer := Some j, bio_size := n1, buf := Some bs1\<rparr>"
    "h j = bio_new\<lparr>init := True, peer := Some i, bio_size := n2, buf := Some bs2\<rparr>"
    using assms(2,3) 1 2
    by (auto simp: BIO_new_bio_pair_def bio_make_pair_def alloc_ring_def bio_new_def n1_def n2_def split: if_splits)
  have "length bs1 = n1" "n1 < 2 ^ 63" "length bs2 = n2" "n2 < 2 ^ 63" using assms(1) 1 2 by (auto simp: malloc_ok_def)
  then show ?thesis
    using assms(2) by (simp add: pair_ok_def h ring_ok_def bio_new_def view_def empty_queue_def ring_def n1_def n2_def)
qed


text \<open>What the calls of one endpoint have put into the pair, and got out of it.\<close>

fun sent :: "bool \<Rightarrow> (bool \<times> pair_op) list \<Rightarrow> pair_out list \<Rightarrow> u8 list" where
  "sent side ((first, Write data) # ops) (Wrote n err f # rs) =
     (if first = side then take (nat n) data else []) @ sent side ops rs"
| "sent side (x # ops) (r # rs) = sent side ops rs"
| "sent side _ _ = []"

fun received :: "bool \<Rightarrow> (bool \<times> pair_op) list \<Rightarrow> pair_out list \<Rightarrow> u8 list" where
  "received side ((first, Read n) # ops) (Got m data f # rs) = (if first = side then data else []) @ received side ops rs"
| "received side (x # ops) (r # rs) = received side ops rs"
| "received side _ _ = []"

lemma queue_run_fifo:
  "queue_run q1 q2 ops = (rs, q1', q2') \<Longrightarrow>
    q_data q1 @ sent True ops rs = received False ops rs @ q_data q1' \<and>
    q_data q2 @ sent False ops rs = received True ops rs @ q_data q2'"
proof (induction ops arbitrary: q1 q2 rs)
  case (Cons entry ops)
  obtain first op where e: "entry = (first, op)" by fastforce
  obtain r p1 p2 where s: "(if first then queue_step q1 q2 op else let (r, q2, q1) = queue_step q2 q1 op in (r, q1, q2)) = (r, p1, p2)"
    by (metis prod_cases3)
  obtain rs1 where r: "queue_run p1 p2 ops = (rs1, q1', q2')" "rs = r # rs1"
    using Cons.prems unfolding e queue_run.simps s by (auto split: prod.splits)
  have "q_data q1 @ sent True [entry] [r] = received False [entry] [r] @ q_data p1 \<and>
      q_data q2 @ sent False [entry] [r] = received True [entry] [r] @ q_data p2"
    using s unfolding e by (cases op; cases first)
      (auto simp: queue_write_def queue_read_def Let_def split: if_splits)
  moreover have "sent b (entry # ops) (r # rs1) = sent b [entry] [r] @ sent b ops rs1"
    "received b (entry # ops) (r # rs1) = received b [entry] [r] @ received b ops rs1" for b
    unfolding e by (cases op; cases r; simp)+
  ultimately show ?case using Cons.IH [OF r(1)] unfolding r(2) by (metis append_assoc)
qed simp

text \<open>
  C33: The two endpoints of a new BIO pair, called in any order, behave like two bounded queues, one for each
  direction: a write takes what there is room for, or fails and asks to try again, or fails for good after a
  shutdown; a read gives what is there, up to the wanted length, or fails and asks to try again, or reports
  the end after a shutdown; the commands tell the sizes and the request of the last failed read. The ring
  buffers, their loops of one or two rounds and their offsets do not show, every call returns, and in both
  directions the bytes read so far and the bytes still in the buffer are the bytes written so far.
\<close>

theorem bio_pair_refines_queues:
  assumes "malloc_ok malloc" "i \<noteq> j" "BIO_new_bio_pair malloc True True h0 i j w1 w2 = (True, h)"
    and "list_all (op_ok \<circ> snd) ops"
  shows "\<exists>rs h'. bio_run h i j ops = Some (rs, h') \<and>
    queue_run (empty_queue w1) (empty_queue w2) ops = (rs, view (h' i), view (h' j)) \<and>
    sent True ops rs = received False ops rs @ q_data (view (h' i)) \<and>
    sent False ops rs = received True ops rs @ q_data (view (h' j))"
proof -
  note new = new_pair [OF assms(1-3)]
  obtain rs h' where r: "bio_run h i j ops = Some (rs, h')"
      "queue_run (empty_queue w1) (empty_queue w2) ops = (rs, view (h' i), view (h' j))"
    using bio_run_queues [OF _ assms(4), of h i j] new by auto
  then show ?thesis using queue_run_fifo [OF r(2)] by (auto simp: empty_queue_def)
qed

text \<open>A buffer of four bytes: the second write wraps around, the third is cut, the last read meets the end.\<close>

definition small_malloc :: malloc where
  "small_malloc n = (if n < 2 ^ 63 then Some (replicate n 0) else None)"

lemma small_malloc: "malloc_ok small_malloc" "n < 2 ^ 63 \<Longrightarrow> small_malloc n = Some (replicate n 0)"
  by (auto simp: malloc_ok_def small_malloc_def split: if_splits)

lemma bio_pair_refines_queues_witness:
  "\<exists>h h'. BIO_new_bio_pair small_malloc True True (\<lambda>_. bio_new) 0 1 4 0 = (True, h) \<and>
    bio_run h 0 1 [(True, Write [1, 2, 3]), (False, Read 2), (True, Write [4, 5, 6, 7]), (False, Read 9), (False, Read 1),
      (True, Shutdown), (False, Read 1)] =
    Some ([Wrote 3 None 0, Got 2 [1, 2] 0, Wrote 3 None 0, Got 4 [3, 4, 5, 6] 0, Got (- 1) [] 9, Ctrl 1, Got 0 [] 0], h')"
proof -
  obtain h where new: "BIO_new_bio_pair small_malloc True True (\<lambda>_. bio_new) 0 1 4 0 = (True, h)"
    by (simp add: BIO_new_bio_pair_def bio_make_pair_def alloc_ring_def bio_new_def small_malloc)
  define ops where "ops = [(True, Write [1, 2, 3]), (False, Read 2), (True, Write [4, 5, 6, 7]), (False, Read 9), (False, Read 1),
      (True, Shutdown), (False, Read 1)]"
  have "list_all (op_ok \<circ> snd) ops" by (simp add: ops_def)
  then obtain rs h' where r: "bio_run h 0 1 ops = Some (rs, h')"
      "queue_run (empty_queue 4) (empty_queue 0) ops = (rs, view (h' 0), view (h' 1))"
    using bio_pair_refines_queues [OF small_malloc(1) _ new, of ops] by auto
  have "fst (queue_run (empty_queue 4) (empty_queue 0) ops) =
      [Wrote 3 None 0, Got 2 [1, 2] 0, Wrote 3 None 0, Got 4 [3, 4, 5, 6] 0, Got (- 1) [] 9, Ctrl 1, Got 0 [] 0]"
    by (simp add: ops_def empty_queue_def queue_write_def queue_read_def Let_def BIO_FLAGS_READ_def BIO_FLAGS_SHOULD_RETRY_def)
  then show ?thesis using new r unfolding ops_def by auto
qed

section \<open>Delivery\<close>

text \<open>In every round the writer offers what is left of its data, and the reader reads up to \<open>n\<close> bytes.\<close>

fun pump :: "nat \<Rightarrow> bios \<Rightarrow> nat \<Rightarrow> nat \<Rightarrow> u8 list \<Rightarrow> int \<Rightarrow> (u8 list \<times> bios) option" where
  "pump 0 h i j data n = Some ([], h)"
| "pump (Suc rounds) h i j data n =
     Option.bind (BIO_write h i (Some data) (int (length data))) (\<lambda>(ret, err, h).
     let data = (if 0 < ret then drop (nat ret) data else data) in
     Option.bind (BIO_read h j True n) (\<lambda>(ret, got, h).
     Option.bind (pump rounds h i j data n) (\<lambda>(more, h). Some (got @ more, h))))"

lemma pump_write:
  assumes "pair_ok h i j" "length data < 2 ^ 31" "\<not> closed (h i)"
  shows "\<exists>ret err h1. BIO_write h i (Some data) (int (length data)) = Some (ret, err, h1) \<and> pair_ok h1 i j \<and> \<not> closed (h1 i) \<and>
    ring (h1 i) @ (if 0 < ret then drop (nat ret) data else data) = ring (h i) @ data \<and>
    (ring (h1 i) = [] \<longrightarrow> ring (h i) @ data = [])"
proof -
  have cap: "0 < bio_size (h i)" "len (h i) \<le> bio_size (h i)" using assms(1) by (simp_all add: pair_ok_def ring_ok_def)
  obtain h1 where w: "bio_step h i (Write data) = Some (fst (queue_write (view (h i)) data), h1)" "pair_ok h1 i j"
      "view (h1 i) = snd (queue_write (view (h i)) data)"
    using write_step [OF assms(1,2)] by blast
  obtain ret err h2 where b: "BIO_write h i (Some data) (int (length data)) = Some (ret, err, h2)" using w(1) by auto
  have h2: "h2 = h1" "fst (queue_write (view (h i)) data) = Wrote ret err (retry h2 i ret)" using w(1) b by auto
  have "\<not> closed (h1 i)" using w(3) assms(3) by (auto simp: queue_write_def view_def Let_def split: if_splits)
  moreover have "ring (h1 i) = (if 0 < ret then ring (h i) @ take (nat ret) data else ring (h i))" "nat ret \<le> length data"
    using w(3) h2(2) assms(3) by (auto simp: queue_write_def view_def Let_def split: if_splits)
  moreover have "ring (h i) @ data = []" if "ring (h i) = []" "\<not> 0 < ret"
  proof -
    have "len (h i) = 0" using that(1) length_ring [of "h i"] by (simp del: length_ring)
    then show ?thesis using h2(2) that assms(3) cap by (auto simp: queue_write_def view_def Let_def min_def split: if_splits)
  qed
  ultimately show ?thesis
    using b h2(1) w(2) by (intro exI [of _ ret] exI [of _ err] exI [of _ h1]) (auto split: if_splits)
qed

lemma pump_read:
  assumes "pair_ok h i j" "0 < n" "n < 2 ^ 31"
  shows "\<exists>ret got h1. BIO_read h j True n = Some (ret, got, h1) \<and> pair_ok h1 i j \<and> closed (h1 i) = closed (h i) \<and>
    got @ ring (h1 i) = ring (h i) \<and> (ring (h i) \<noteq> [] \<longrightarrow> got \<noteq> [])"
proof -
  obtain h1 where r: "bio_step h j (Read n) = Some (fst (queue_read (view (h i)) n), h1)" "pair_ok h1 j i"
      "view (h1 i) = snd (queue_read (view (h i)) n)"
    using read_step [OF pair_ok_sym [OF assms(1)] assms(3)] by blast
  obtain ret got h2 where b: "BIO_read h j True n = Some (ret, got, h2)" using r(1) by auto
  have h2: "h2 = h1" "fst (queue_read (view (h i)) n) = Got ret got (retry h2 j ret)" using r(1) b by auto
  have "ring (h i) \<noteq> [] \<Longrightarrow> 0 < min (nat n) (len (h i))"
    using assms(2) length_ring [of "h i"] by (cases "len (h i)") (auto simp del: length_ring)
  then have "got @ ring (h1 i) = ring (h i) \<and> (ring (h i) \<noteq> [] \<longrightarrow> got \<noteq> []) \<and> closed (h1 i) = closed (h i)"
    using r(3) h2(2) assms(2) by (auto simp: queue_read_def view_def Let_def split: if_splits)
  then show ?thesis using b h2(1) pair_ok_sym [OF r(2)] by auto
qed

lemma pump_delivers:
  "pair_ok h i j \<Longrightarrow> length data < 2 ^ 31 \<Longrightarrow> 0 < n \<Longrightarrow> n < 2 ^ 31 \<Longrightarrow> \<not> closed (h i) \<Longrightarrow>
    length (ring (h i) @ data) \<le> rounds \<Longrightarrow>
    \<exists>h'. pump rounds h i j data n = Some (ring (h i) @ data, h') \<and> pair_ok h' i j \<and> ring (h' i) = [] \<and> closed (h' i) = closed (h i)"
proof (induction rounds arbitrary: h data)
  case (Suc rounds)
  obtain ret err h1 where w: "BIO_write h i (Some data) (int (length data)) = Some (ret, err, h1)" "pair_ok h1 i j" "\<not> closed (h1 i)"
    and wr: "ring (h1 i) @ (if 0 < ret then drop (nat ret) data else data) = ring (h i) @ data"
      "ring (h1 i) = [] \<longrightarrow> ring (h i) @ data = []"
    using pump_write [OF Suc.prems(1,2,5)] by blast
  obtain ret2 got h2 where r: "BIO_read h1 j True n = Some (ret2, got, h2)" "pair_ok h2 i j" "closed (h2 i) = closed (h1 i)"
      "got @ ring (h2 i) = ring (h1 i)" "ring (h1 i) \<noteq> [] \<longrightarrow> got \<noteq> []"
    using pump_read [OF w(2) Suc.prems(3,4)] by blast
  define rest where "rest = (if 0 < ret then drop (nat ret) data else data)"
  have all: "got @ ring (h2 i) @ rest = ring (h i) @ data" using r(4) wr(1) by (simp add: rest_def flip: append_assoc)
  have "length (ring (h2 i) @ rest) \<le> rounds"
  proof (cases "ring (h i) @ data = []")
    case True
    then show ?thesis using all by simp
  next
    case False
    then have "got \<noteq> []" using wr(2) r(5) by blast
    then show ?thesis using arg_cong [OF all, of length] Suc.prems(6) by (cases got) auto
  qed
  moreover have "length rest < 2 ^ 31"
    by (rule le_less_trans [OF _ Suc.prems(2)]) (simp add: rest_def)
  ultimately obtain h' where "pump rounds h2 i j rest n = Some (ring (h2 i) @ rest, h')" "pair_ok h' i j" "ring (h' i) = []"
      "closed (h' i) = closed (h2 i)"
    using Suc.IH [OF r(2) _ Suc.prems(3,4)] r(3) w(3) by blast
  then show ?case using w(1,3) r(1,3) all Suc.prems(5) by (auto simp: rest_def [symmetric])
qed (simp add: ring_def)

text \<open>
  C34: All data gets through: a writer that goes on offering what it has left and a reader that goes on
  asking for at least one byte need no more rounds than there are bytes, whatever the size of the buffer and
  of the reads, and the reader gets exactly the data; when the writer then shuts down, the reader sees the
  end.
\<close>

theorem bio_pair_delivers:
  assumes "malloc_ok malloc" "i \<noteq> j" "BIO_new_bio_pair malloc True True h0 i j w1 w2 = (True, h)"
    and "length data < 2 ^ 31" "0 < n" "n < 2 ^ 31"
  shows "\<exists>h1 h2. pump (length data) h i j data n = Some (data, h1) \<and>
    BIO_read (snd (BIO_shutdown_wr h1 i)) j True n = Some (0, [], h2)"
proof -
  note new = new_pair [OF assms(1-3)]
  then have e: "ring (h i) = []" "\<not> closed (h i)" by (simp_all add: view_def empty_queue_def)
  obtain h1 where p: "pump (length data) h i j data n = Some (data, h1)" "pair_ok h1 i j" "ring (h1 i) = []"
    using pump_delivers [of h i j data n "length data"] new assms(4-6) e by auto
  define h2 where "h2 = snd (BIO_shutdown_wr h1 i)"
  have s: "pair_ok h2 i j" "ring (h2 i) = []" "closed (h2 i)"
    using p(2,3) by (auto simp: h2_def BIO_shutdown_wr_def pair_ok_def)
  obtain h3 where "bio_step h2 j (Read n) = Some (fst (queue_read (view (h2 i)) n), h3)"
    using read_step [OF pair_ok_sym [OF s(1)] assms(6)] by blast
  then have "\<exists>h2'. BIO_read h2 j True n = Some (0, [], h2')"
    using s(2,3) assms(5) by (auto simp: queue_read_def view_def)
  then show ?thesis using p(1) by (auto simp: h2_def)
qed

lemma bio_pair_delivers_witness:
  "\<exists>h h1. BIO_new_bio_pair small_malloc True True (\<lambda>_. bio_new) 0 1 4 0 = (True, h) \<and>
    pump 100 h 0 1 (replicate 100 7) 3 = Some (replicate 100 7, h1)"
proof -
  obtain h where new: "BIO_new_bio_pair small_malloc True True (\<lambda>_. bio_new) 0 1 4 0 = (True, h)"
    by (simp add: BIO_new_bio_pair_def bio_make_pair_def alloc_ring_def bio_new_def small_malloc)
  then show ?thesis using bio_pair_delivers [OF small_malloc(1) _ new, of "replicate 100 7" 3] by auto
qed

end
