(* ===== verification/Spec2Isabelle.thy ===== *)
theory Spec2Isabelle
  imports Pb_Wire Pb_Encode_Spec Pb_Decode_Safe Pb_Values Ber Fbase64 Counter_Mode Cbc Lhash Stack Bio_Pair
begin

text \<open>
  A verification library for the C code of the IndoorFarm application. The application itself is
  Swift; the C code is in the libraries under \<open>src/seniorProject/Pods\<close>. Modelled are the parts that
  read and write the bytes that come from the network or go there.

  \<^bold>\<open>Parts and theories\<close>

  \<^item> \<open>Prelude\<close>: bytes, words and byte memory (\<open>mem\<close>, a function from addresses to bytes), sums of
    \<open>size_t\<close> that wrap, little- and big-endian words, the collections \<open>mem_simps\<close> and \<open>byte_simps\<close>.
    \<open>Codec\<close>: the interface between an encoder of values and a decoder that returns the rest of its
    input, as the locales \<open>wire_codec\<close> and \<open>fixed_codec\<close>; their theorem is that a sequence of
    encoded values is read back. \<open>Varint\<close>: base-128 numbers as lists of bytes.
  \<^item> nanopb, the protocol buffer coder (\<open>Pods/nanopb\<close>). \<open>Pb_Types\<close>: the field descriptors and type
    codes of \<open>pb.h\<close>. \<open>Pb_Encode_Stream\<close> and \<open>Pb_Decode_Stream\<close>: the streams of \<open>pb_encode.h\<close> and
    \<open>pb_decode.h\<close> as records (buffer, callback or sizing stream) and the wire-level functions.
    \<open>Pb_Common\<close>, \<open>Pb_Iter\<close>: the field iterator of \<open>pb_common.c\<close>. \<open>Pb_Encode\<close>, \<open>Pb_Decode\<close>: the
    message coder over struct memory, its mutual recursion through submessages bounded by fuel.
    \<open>Pb_Wire\<close>, \<open>Pb_Encode_Spec\<close>, \<open>Pb_Decode_Safe\<close>, \<open>Pb_Values\<close>: the properties.
  \<^item> BoringSSL byte strings (\<open>crypto/bytestring\<close>). \<open>Cbs\<close>: the parser, a \<open>CBS\<close> as an address and a
    length over the memory. \<open>Cbb\<close>: the builder; a top-level \<open>CBB\<close> with the chain of its pending children
    is one record, and an operation on a handle names its depth in the chain. \<open>Cbb_Spec\<close>: a builder
    implements a stack of frames that are closed with their length. \<open>Cbb_Der\<close>: what the builder
    writes, the parser reads. \<open>Ber\<close>: the conversion of BER to DER of \<open>ber.c\<close>, from the parser to the builder.
  \<^item> BoringSSL base64 (\<open>crypto/base64\<close>) over the branch-free comparisons of \<open>crypto/internal.h\<close>:
    \<open>Constant_Time\<close>, \<open>Base64\<close> (the block coder) and \<open>Base64_Stream\<close> (the streaming coder). \<open>Fbase64\<close>:
    the coder of the Firebase web socket, \<open>SocketRocket/fbase64.c\<close>.
  \<^item> BoringSSL modes of a block cipher (\<open>crypto/fipsmodule/modes\<close>); the cipher is a parameter.
    \<open>Block_Modes\<close>: counter mode, output and cipher feedback, the caller's arrays as records, data as
    lists. \<open>Stream_Modes\<close>: the interface of a stream cipher, the locales \<open>stream_mode\<close> and \<open>stream_cipher\<close>,
    and its instances. \<open>Counter_Mode\<close>: the counters. \<open>Cbc\<close>: cipher block chaining over the memory.
  \<^item> BoringSSL containers and channels. \<open>Lhash\<close>: the hash table of \<open>crypto/lhash\<close>, buckets as lists, as an
    instance of the locale \<open>dictionary\<close>. \<open>Stack\<close>: the growing arrays of \<open>crypto/stack\<close>, with \<open>qsort\<close> and
    \<open>bsearch\<close> as parameters. \<open>Bio_Pair\<close>: the two ring buffers of \<open>crypto/bio/pair.c\<close>, the \<open>BIO\<close>
    objects in a heap by number, under \<open>BIO_read\<close> and \<open>BIO_write\<close> of \<open>crypto/bio/bio.c\<close>.

  \<^bold>\<open>What the lemmas show\<close>

  \<^item> \<open>Pb_Wire\<close>: complete input-output behaviour of the wire functions, and their round trips through
    interpretations of \<open>wire_codec\<close>. \<open>Pb_Encode_Spec\<close>: \<open>pb_encode\<close> refines a function from memory to
    a list of bytes, returns for tables without extension fields, and drops what is behind certain
    addresses. \<open>Pb_Decode_Safe\<close>: for tables without extension fields and with a number of required fields
    for which their test is defined, \<open>pb_decode\<close> returns, stays inside the struct, and takes from its
    source (\<open>delivers\<close>) no byte behind the end of the input. \<open>Pb_Values\<close>: scalar and string fields come
    back; the test for required fields, where it is undefined, and a cut tag that passes for the end.
  \<^item> \<open>Cbs\<close>: each parser operation is a function of the bytes it sees, looks at no byte outside
    its input, and accepts exactly the DER elements. \<open>Cbb_Spec\<close>: refinement, invariant and finality of errors of the
    builder. \<open>Cbb_Der\<close>: round trips of trees and of integers. \<open>Ber\<close>: elements as trees, of definite or
    indefinite length; the conversion returns and gives the DER of the same value (X.690, \<open>ber_value\<close>) unless a
    bit string comes in pieces, but what needs it can be overlooked.
  \<^item> \<open>Constant_Time\<close>: masks are comparisons. \<open>Base64\<close>, \<open>Base64_Stream\<close>, \<open>Fbase64\<close>: round trips, the
    independence of the streaming coder of how the data is cut, and the equality of the two coders.
  \<^item> \<open>Stream_Modes\<close>: the word loops are the byte loops, input may be cut anywhere, decryption undoes
    encryption (also bit by bit, \<open>cfb1_roundtrip\<close>). \<open>Counter_Mode\<close>: the key stream, and the variant with a
    32-bit counter. \<open>Cbc\<close>: both directions as functions on lists, for every permitted overlap.
  \<^item> \<open>Lhash\<close>: a table refines a map up to the client's equality, whatever allocations fail, and its chains
    stay short when none does. \<open>Stack\<close>: a stack refines a list with an honest flag, and a deep copy that fails
    frees what it made. \<open>Bio_Pair\<close>: two ring buffers refine two bounded queues; all data arrives.

  \<^bold>\<open>Bounds and fuel\<close>

  \<open>size_t\<close> is 64 bits wide (\<open>size_add\<close> wraps); the words of the wire format keep their width. The
  coder recursion of nanopb follows submessage descriptors, so its fuel must exceed their nesting:
  \<open>Pb_Encode_Spec.encode_returns\<close> shows that two more than a rank of the descriptor tables is enough, and
  \<open>Pb_Decode_Safe.decode_memory_safe\<close> that the rank and the number of bytes together are. Lists of
  extensions are in struct memory and may be cyclic: with them the fuel may run out. All other loops are total functions, but for
  \<open>cbs_convert_ber\<close>, which \<open>Ber.convert_returns\<close> shows to return.
  Lengths of base64 pieces are bounded where the C code returns them as \<open>int\<close>.

  \<^bold>\<open>Not modelled\<close>

  The malloc build of nanopb (pointer fields in \<open>pb_decode.c\<close>, \<open>pb_release\<close>): the library is built
  without it. A user callback of nanopb is a parameter; one that changes the counters of its stream
  behind the library's back, or a read callback that stores part of its data and then fails, is not
  covered. The address of an array item is computed without the wrap-around of the 32-bit product of
  \<open>decode_static_field\<close> (arrays of 4 GiB and more). Descriptors that the generator never writes: a
  type without an entry in \<open>PB_ENCODERS\<close> (the code reads behind the table, the model gives no result), a
  repeated field without a count (the code reads the count through a pointer to a \<open>bool\<close>), and a
  submessage whose \<open>ptr\<close> is no descriptor table. In the byte strings: \<open>CBS\<close> output aliased with the input handle, use of a dead child handle
  (undefined in C) and freeing. Base64: input and output that overlap. Timing of the constant-time code.
  The modes: \<open>Block_Modes\<close> has input and output equal or disjoint; the test for alignment, constant on the
  platforms of the application; GCM and the block ciphers themselves. The containers: callbacks of
  \<open>lh_doall\<close> that change the table, freed memory, reference counts and chains of a \<open>BIO\<close>.
  The remaining pods (TLS, X.509, big-number arithmetic, gRPC, leveldb, the Objective-C and Swift
  libraries) and the Swift application.
\<close>

end
